(* ===== verification/Kv_Prelude.thy ===== *)
theory Kv_Prelude
  imports Main "HOL-Library.Word" "HOL-Library.List_Lexorder" "HOL-Library.Sublist"
begin

text \<open>
  Shared vocabulary of the development: machine integers and byte strings, big-endian codecs
  and their order, and the generic facts on sorted lists and prefixes the storage layer needs.

  Rust's \<open>u8\<close>, \<open>u32\<close>, \<open>u64\<close> and \<open>i64\<close> are words of that width. Signed values are read with
  \<open>sint\<close> and compared with the signed order of words; additions wrap, as they do in the
  release build the project ships. \<open>usize\<close> values that count elements of a vector are \<open>nat\<close>.
  A Rust \<open>String\<close> is a HOL \<open>string\<close> (its UTF-8 bytes), a \<open>Bytes\<close> or \<open>Vec<u8>\<close> a list of words.
  RocksDB orders keys bytewise; that is the order \<open>List_Lexorder\<close> puts on lists of words.
\<close>

unbundle bit_operations_syntax

type_synonym u8 = "8 word"
type_synonym u16 = "16 word"
type_synonym u32 = "32 word"
type_synonym u64 = "64 word"
type_synonym i64 = "64 word"
type_synonym bytes = "u8 list"

named_theorems codec_simps \<open>round-trip rules of the byte codecs\<close>

section \<open>Byte strings and text\<close>

definition bytes_of :: "string \<Rightarrow> bytes" where
  "bytes_of s = map of_char s"

definition string_of :: "bytes \<Rightarrow> string" where
  "string_of bs = map (\<lambda>b. char_of (unat b)) bs"

lemma unat_of_char: "unat (of_char c :: u8) = of_char c"
proof -
  have "(of_char c :: u8) = of_nat (of_char c)" by (simp add: of_char_def)
  moreover have "(of_char c :: nat) < 256" by (rule nat_of_char_less_256)
  ultimately show ?thesis by (simp add: unat_of_nat)
qed

lemma string_of_bytes_of [simp]: "string_of (bytes_of s) = s"
  by (simp add: string_of_def bytes_of_def comp_def unat_of_char)

lemma bytes_of_inj [simp]: "bytes_of s = bytes_of t \<longleftrightarrow> s = t"
  by (metis string_of_bytes_of)

lemma length_bytes_of [simp]: "length (bytes_of s) = length s"
  by (simp add: bytes_of_def)

section \<open>Big-endian integers\<close>

text \<open>
  \<open>be_nat\<close> is the value of a big-endian byte string (Rust's \<open>from_be_bytes\<close> before the cast to
  the width), \<open>nat_be n\<close> the \<open>n\<close>-byte big-endian form (\<open>to_be_bytes\<close>).
\<close>

fun be_nat :: "bytes \<Rightarrow> nat" where
  "be_nat [] = 0"
| "be_nat (b # bs) = unat b * 256 ^ length bs + be_nat bs"

fun nat_be :: "nat \<Rightarrow> nat \<Rightarrow> bytes" where
  "nat_be 0 x = []"
| "nat_be (Suc n) x = of_nat (x div 256 ^ n) # nat_be n x"

lemma unat_u8_less: "unat (w :: u8) < 256"
  using unsigned_less [where ?'a = nat and w = w] by simp

lemma unat_u32_less: "unat (w :: u32) < 4294967296"
  using unsigned_less [where ?'a = nat and w = w] by simp

lemma unat_u64_less: "unat (w :: u64) < 18446744073709551616"
  using unsigned_less [where ?'a = nat and w = w] by simp

lemma length_nat_be [simp]: "length (nat_be n x) = n"
  by (induction n) simp_all

lemma be_nat_less: "be_nat bs < 256 ^ length bs"
proof (induction bs)
  case Nil
  show ?case by simp
next
  case (Cons b bs)
  have "unat b < 256" by (rule unat_u8_less)
  then have "Suc (unat b) * 256 ^ length bs \<le> 256 * 256 ^ length bs"
    by (intro mult_le_mono1) simp
  with Cons.IH show ?case
    unfolding be_nat.simps length_Cons power_Suc mult_Suc by linarith
qed

lemma be_nat_nat_be: "be_nat (nat_be n x) = x mod 256 ^ n"
proof (induction n)
  case 0
  show ?case by simp
next
  case (Suc n)
  have "unat (of_nat (x div 256 ^ n) :: u8) = (x div 256 ^ n) mod 256"
    by (simp add: unat_of_nat)
  then show ?case
    using Suc.IH mod_mult2_eq [of x "256 ^ n" 256]
    by (simp add: mult.commute)
qed

lemma nat_be_be_nat: "nat_be (length bs) (be_nat bs) = bs"
proof -
  have gen: "nat_be (length bs) (k * 256 ^ length bs + be_nat bs) = bs" for k
  proof (induction bs arbitrary: k)
    case Nil
    show ?case by simp
  next
    case (Cons b bs)
    let ?p = "256 ^ length bs :: nat"
    have eq: "k * 256 ^ length (b # bs) + be_nat (b # bs) = (k * 256 + unat b) * ?p + be_nat bs"
      by (simp add: algebra_simps)
    have "((k * 256 + unat b) * ?p + be_nat bs) div ?p = k * 256 + unat b"
      using be_nat_less [of bs] by simp
    moreover have "(of_nat (k * 256 + unat b) :: u8) = b"
    proof (rule word_unat_eq_iff [THEN iffD2])
      have "unat b < 256" by (rule unat_u8_less)
      then show "unat (of_nat (k * 256 + unat b) :: u8) = unat b"
        by (simp only: unat_of_nat) simp
    qed
    ultimately show ?case
      using Cons.IH [of "k * 256 + unat b"] unfolding eq by simp
  qed
  from gen [of 0] show ?thesis by simp
qed

lemma be_nat_inj: "length xs = length ys \<Longrightarrow> be_nat xs = be_nat ys \<Longrightarrow> xs = ys"
  by (metis nat_be_be_nat)

text \<open>On strings of one length the bytewise order is the order of the encoded numbers.\<close>

lemma be_nat_less_iff:
  "length xs = length ys \<Longrightarrow> xs < ys \<longleftrightarrow> be_nat xs < be_nat ys"
proof (induction xs ys rule: list_induct2)
  case Nil
  show ?case by simp
next
  case (Cons x xs y ys)
  let ?p = "256 ^ length ys :: nat"
  have bx: "be_nat xs < ?p" and bys: "be_nat ys < ?p"
    using be_nat_less [of xs] be_nat_less [of ys] Cons.hyps by simp_all
  consider "unat x < unat y" | "x = y" | "unat y < unat x"
    by (metis linorder_neqE_nat word_unat_eq_iff)
  then show ?case
  proof cases
    case 1
    then have "Suc (unat x) * ?p \<le> unat y * ?p" by (intro mult_le_mono1) simp
    with bx 1 Cons.hyps show ?thesis by (simp add: word_less_nat_alt)
  next
    case 2
    with Cons show ?thesis by simp
  next
    case 3
    then have "Suc (unat y) * ?p \<le> unat x * ?p" by (intro mult_le_mono1) simp
    with bys 3 Cons.hyps show ?thesis by (auto simp: word_less_nat_alt)
  qed
qed

definition be32 :: "u32 \<Rightarrow> bytes" where
  "be32 w = nat_be 4 (unat w)"

definition be64 :: "u64 \<Rightarrow> bytes" where
  "be64 w = nat_be 8 (unat w)"

definition of_be32 :: "bytes \<Rightarrow> u32" where
  "of_be32 bs = of_nat (be_nat bs)"

definition of_be64 :: "bytes \<Rightarrow> u64" where
  "of_be64 bs = of_nat (be_nat bs)"

lemma length_be32 [simp]: "length (be32 w) = 4"
  by (simp add: be32_def)

lemma length_be64 [simp]: "length (be64 w) = 8"
  by (simp add: be64_def)

lemma of_be32_be32 [codec_simps, simp]: "of_be32 (be32 w) = w"
  using unat_u32_less [of w] by (simp add: of_be32_def be32_def be_nat_nat_be)

lemma of_be64_be64 [codec_simps, simp]: "of_be64 (be64 w) = w"
  using unat_u64_less [of w] by (simp add: of_be64_def be64_def be_nat_nat_be)

lemma be_nat_be32 [simp]: "be_nat (be32 w) = unat w"
  using unat_u32_less [of w] by (simp add: be32_def be_nat_nat_be)

lemma be_nat_be64 [simp]: "be_nat (be64 w) = unat w"
  using unat_u64_less [of w] by (simp add: be64_def be_nat_nat_be)

lemma be32_inj [simp]: "be32 v = be32 w \<longleftrightarrow> v = w"
  by (metis of_be32_be32)

lemma be64_inj [simp]: "be64 v = be64 w \<longleftrightarrow> v = w"
  by (metis of_be64_be64)

lemma be64_of_be64: "length bs = 8 \<Longrightarrow> be64 (of_be64 bs) = bs"
  using be_nat_less [of bs] nat_be_be_nat [of bs]
  by (simp add: be64_def of_be64_def unat_of_nat)

lemma be64_less_iff: "be64 v < be64 w \<longleftrightarrow> v < w"
  by (simp add: be_nat_less_iff word_less_nat_alt)

section \<open>Prefixes and the bytewise order\<close>

lemma prefix_le: "prefix p (x :: 'a :: linorder list) \<Longrightarrow> p \<le> x"
  by (induction p x rule: list_induct2') auto

lemma append_less_append [simp]:
  "p @ x < p @ y \<longleftrightarrow> x < (y :: 'a :: linorder list)"
  by (induction p) auto

lemma append_less_first:
  "length p = length q \<Longrightarrow> p < q \<Longrightarrow> p @ x < q @ (y :: 'a :: linorder list)"
  by (induction p q rule: list_induct2) auto

lemma append_le_append [simp]:
  "p @ x \<le> p @ y \<longleftrightarrow> x \<le> (y :: 'a :: linorder list)"
  by (induction p) auto

text \<open>The keys that carry a prefix are an interval: nothing sorts between two of them.\<close>

lemma prefix_convex:
  "prefix p z \<Longrightarrow> p \<le> y \<Longrightarrow> y \<le> z \<Longrightarrow> prefix p (y :: 'a :: linorder list)"
proof (induction p arbitrary: y z)
  case Nil
  show ?case by simp
next
  case (Cons a p)
  from Cons.prems(1) obtain z' where z: "z = a # z'" and pz: "prefix p z'"
    by (cases z) auto
  from Cons.prems(2) obtain b y' where y: "y = b # y'" by (cases y) auto
  from Cons.prems(2,3) y z have "b = a" and "p \<le> y'" and "y' \<le> z'" by auto
  with Cons.IH pz y show ?case by simp
qed

text \<open>
  Scanning a sorted list upwards from the prefix and stopping at the first key without it
  collects exactly the keys with the prefix. This is the loop of every prefix scan.
\<close>

lemma takeWhile_prefix_sorted:
  assumes "sorted xs" and "\<forall>x \<in> set xs. p \<le> x"
  shows "takeWhile (prefix p) xs = filter (prefix p) (xs :: 'a :: linorder list list)"
  using assms
proof (induction xs)
  case Nil
  show ?case by simp
next
  case (Cons x xs)
  show ?case
  proof (cases "prefix p x")
    case True
    with Cons show ?thesis by simp
  next
    case False
    have "\<not> prefix p y" if "y \<in> set xs" for y
      using that False Cons.prems prefix_convex [of p y x] by auto
    then have "filter (prefix p) xs = []" by (simp add: filter_empty_conv)
    with False show ?thesis by simp
  qed
qed

lemma prefix_append_cases:
  assumes "prefix (p @ a) (q @ b)" and "length p = length q"
  shows "p = q \<and> prefix a b"
proof -
  from assms(1) obtain z where "q @ b = p @ a @ z" by (auto simp: prefix_def)
  with assms(2) show ?thesis by (simp add: append_eq_append_conv)
qed

text \<open>The elements from position \<open>start\<close> to \<open>stop\<close>, both included; negative positions count from the end.\<close>

definition list_range :: "int \<Rightarrow> int \<Rightarrow> 'a list \<Rightarrow> 'a list" where
  "list_range start stop xs =
     (let n = int (length xs);
          s = max 0 (if start < 0 then start + n else start);
          e = min (n - 1) (if stop < 0 then stop + n else stop)
      in take (nat (e - s + 1)) (drop (nat s) xs))"

section \<open>Slices and codecs\<close>

text \<open>\<open>&data[a..b]\<close>, where the source has checked that \<open>b\<close> is in range.\<close>

definition byte_slice :: "nat \<Rightarrow> nat \<Rightarrow> 'a list \<Rightarrow> 'a list" where
  "byte_slice a b xs = take (b - a) (drop a xs)"

lemma byte_slice_append_right [simp]:
  "length p \<le> a \<Longrightarrow> byte_slice a b (p @ xs) = byte_slice (a - length p) (b - length p) xs"
  by (simp add: byte_slice_def)

lemma byte_slice_Cons [simp]:
  "0 < a \<Longrightarrow> byte_slice a b (x # xs) = byte_slice (a - 1) (b - 1) xs"
  by (simp add: byte_slice_def drop_Cons')

lemma byte_slice_append_left [simp]:
  "b \<le> length p \<Longrightarrow> byte_slice a b (p @ xs) = byte_slice a b p"
  by (simp add: byte_slice_def)

lemma byte_slice_0_length [simp]: "b = length xs \<Longrightarrow> byte_slice 0 b xs = xs"
  by (simp add: byte_slice_def)

lemma length_byte_slice [simp]: "length (byte_slice a b xs) = min (b - a) (length xs - a)"
  by (simp add: byte_slice_def min.commute)

text \<open>
  What a pair of an encoder and a decoder promises its clients: on well-formed values decoding
  undoes encoding. The order-preserving ones are used as sort keys of the store.
\<close>

locale codec =
  fixes enc :: "'a \<Rightarrow> bytes" and dec :: "bytes \<Rightarrow> 'a option" and wf :: "'a \<Rightarrow> bool"
  assumes dec_enc: "wf x \<Longrightarrow> dec (enc x) = Some x"
begin

lemma enc_inj: "wf x \<Longrightarrow> wf y \<Longrightarrow> enc x = enc y \<longleftrightarrow> x = y"
  by (metis dec_enc option.inject)

lemma dec_enc_list: "(\<forall>x \<in> set xs. wf x) \<Longrightarrow> map (dec \<circ> enc) xs = map Some xs"
  by (simp add: dec_enc)

end

locale order_codec = codec enc dec wf
  for enc :: "'a :: linorder \<Rightarrow> bytes" and dec :: "bytes \<Rightarrow> 'a option" and wf :: "'a \<Rightarrow> bool" +
  assumes enc_mono: "wf x \<Longrightarrow> wf y \<Longrightarrow> x < y \<Longrightarrow> enc x < enc y"
begin

lemma enc_less_iff: "wf x \<Longrightarrow> wf y \<Longrightarrow> enc x < enc y \<longleftrightarrow> x < y"
  by (metis enc_mono less_asym linorder_neqE)

lemma sorted_map_enc:
  "sorted_wrt (<) xs \<Longrightarrow> (\<forall>x \<in> set xs. wf x) \<Longrightarrow> sorted_wrt (<) (map (\<lambda>x. p @ enc x) xs)"
  by (induction xs) (auto simp: enc_mono)

end

section \<open>Sorted lists\<close>

lemma sorted_filter_less:
  "sorted_wrt (<) xs \<Longrightarrow> x \<in> set xs \<Longrightarrow>
   xs = filter (\<lambda>y. y < x) xs @ x # filter (\<lambda>y. x < y) (xs :: 'a :: linorder list)"
proof (induction xs)
  case Nil
  then show ?case by simp
next
  case (Cons y ys)
  show ?case
  proof (cases "x = y")
    case True
    with Cons.prems have "filter (\<lambda>z. z < x) ys = []" and "filter (\<lambda>z. x < z) ys = ys"
      by (auto simp: filter_empty_conv filter_id_conv)
    with True show ?thesis by simp
  next
    case False
    with Cons show ?thesis by auto
  qed
qed

lemma strict_sorted_eqI:
  fixes xs ys :: "'a :: linorder list"
  assumes "sorted_wrt (<) xs" and "sorted_wrt (<) ys" and "set xs = set ys"
  shows "xs = ys"
  using assms by (simp add: strict_sorted_equal)

end
