(* ===== verification/Kv_Monad.thy ===== *)
theory Kv_Monad
  imports Kv_Prelude
begin

text \<open>
  The error type of \<open>src/src/error.rs\<close> and the state-and-error monad of the command handlers.

  A handler runs against a world: the RocksDB instance (of the parameter type \<open>'db\<close>), the
  sequence of readings the system clock will return and the sequence of 16-bit values the
  random generator will return. Every call of \<open>now_ms\<close> or \<open>rand::random\<close> takes the next
  element, so two readings in one command may differ. The record is extensible; the server
  theories add their own shared state to it.

  A computation returns either a value or a failure, and in both cases the world it leaves
  behind: a Rust error does not undo the writes made before it. Besides the errors of
  \<open>KvdbError\<close> a failure can be a panic of the Rust runtime (an index out of range) or the
  divergence of a loop; the theorems show where the latter two cannot occur.
\<close>

named_theorems kv_monad \<open>unfolding rules of the command monad\<close>
named_theorems kv_run \<open>symbolic execution: what one operation does to the state of the program\<close>

section \<open>Errors\<close>

datatype kvdb_error =
    Storage string
  | Io string
  | Lua string
  | Config string
  | Protocol string
  | Command string
  | WrongArgCount string
  | NotInteger
  | OutOfRange
  | Oom
  | UnknownCommand string

text \<open>The \<open>Display\<close> text that \<open>thiserror\<close> derives from the \<open>#[error(...)]\<close> attributes.\<close>

fun error_to_string :: "kvdb_error \<Rightarrow> string" where
  "error_to_string (Storage e) = ''storage error: '' @ e"
| "error_to_string (Io e) = ''io error: '' @ e"
| "error_to_string (Lua e) = ''lua error: '' @ e"
| "error_to_string (Config e) = ''config error: '' @ e"
| "error_to_string (Protocol e) = ''protocol error: '' @ e"
| "error_to_string (Command e) = e"
| "error_to_string (WrongArgCount n) = ''wrong number of arguments for '' @ [CHR 0x27] @ n @ [CHR 0x27] @ '' command''"
| "error_to_string NotInteger = ''value is not an integer''"
| "error_to_string OutOfRange = ''value is out of range''"
| "error_to_string Oom = ''OOM command not allowed when used memory > maxmemory''"
| "error_to_string (UnknownCommand n) = ''unknown command '' @ [CHR 0x27] @ n @ [CHR 0x27]"

datatype failure = Err kvdb_error | Panic | Diverge

section \<open>The world and the monad\<close>

record 'db world =
  db :: 'db
  clock :: "nat \<Rightarrow> u64"
  rng :: "nat \<Rightarrow> u16"

type_synonym ('s, 'a) kv = "'s \<Rightarrow> (failure + 'a) \<times> 's"

definition ret :: "'a \<Rightarrow> ('s, 'a) kv" where
  "ret x = (\<lambda>s. (Inr x, s))"

definition fail_with :: "failure \<Rightarrow> ('s, 'a) kv" where
  "fail_with e = (\<lambda>s. (Inl e, s))"

abbreviation raise :: "kvdb_error \<Rightarrow> ('s, 'a) kv" where
  "raise e \<equiv> fail_with (Err e)"

definition and_then :: "('s, 'a) kv \<Rightarrow> ('a \<Rightarrow> ('s, 'b) kv) \<Rightarrow> ('s, 'b) kv" where
  "and_then m f = (\<lambda>s. case m s of (Inl e, s') \<Rightarrow> (Inl e, s') | (Inr x, s') \<Rightarrow> f x s')"

text \<open>Rust's \<open>?\<close> on a \<open>Result\<close> that involves no state.\<close>

definition lift :: "failure + 'a \<Rightarrow> ('s, 'a) kv" where
  "lift r = (\<lambda>s. (r, s))"

definition ok_or :: "'a option \<Rightarrow> kvdb_error \<Rightarrow> failure + 'a" where
  "ok_or m e = (case m of None \<Rightarrow> Inl (Err e) | Some x \<Rightarrow> Inr x)"

lemma ret_Pair [kv_monad, simp]: "ret x = Pair (Inr x)"
  by (simp add: ret_def)

lemma fail_with_Pair [kv_monad, simp]: "fail_with e = Pair (Inl e)"
  by (simp add: fail_with_def)

lemma lift_Pair [kv_monad, simp]: "lift r = Pair r"
  by (simp add: lift_def)

lemma and_then_Inr [kv_monad]: "m s = (Inr x, s') \<Longrightarrow> and_then m f s = f x s'"
  by (simp add: and_then_def)

lemma and_then_Inl [kv_monad]: "m s = (Inl e, s') \<Longrightarrow> and_then m f s = (Inl e, s')"
  by (simp add: and_then_def)

lemma and_then_ret [kv_monad, simp]: "and_then (ret x) f = f x"
  by (simp add: and_then_def ret_def)

lemma and_then_fail [kv_monad, simp]: "and_then (fail_with e) f = fail_with e"
  by (simp add: and_then_def fail_with_def)

lemma and_then_Pair_Inr [kv_monad, simp]: "and_then (Pair (Inr x)) f = f x"
  by (simp add: and_then_def)

lemma and_then_Pair_Inl [kv_monad, simp]: "and_then (Pair (Inl e)) f = Pair (Inl e)"
  by (simp add: and_then_def)

lemma and_then_lift_Inr [kv_monad, simp]: "and_then (lift (Inr x)) f = f x"
  by (simp add: and_then_def lift_def)

lemma and_then_lift_Inl [kv_monad, simp]: "and_then (lift (Inl e)) f = fail_with e"
  by (simp add: and_then_def lift_def fail_with_def)

lemma and_then_assoc: "and_then (and_then m f) g = and_then m (\<lambda>x. and_then (f x) g)"
  by (rule ext) (simp add: and_then_def split: prod.splits sum.splits)

lemma ok_or_Some [simp]: "ok_or (Some x) e = Inr x"
  by (simp add: ok_or_def)

lemma ok_or_None [simp]: "ok_or None e = Inl (Err e)"
  by (simp add: ok_or_def)

lemma run_ok_or [kv_run]: "and_then (Pair (ok_or m e)) f s =
    (case m of None \<Rightarrow> (Inl (Err e), s) | Some x \<Rightarrow> f x s)"
  by (cases m) simp_all

section \<open>Reading the clock and the random generator\<close>

definition now_ms :: "(('db, 'x) world_scheme, i64) kv" where
  "now_ms = (\<lambda>s. (Inr (clock s 0), s\<lparr>clock := \<lambda>i. clock s (Suc i)\<rparr>))"

definition random_u16 :: "(('db, 'x) world_scheme, u16) kv" where
  "random_u16 = (\<lambda>s. (Inr (rng s 0), s\<lparr>rng := \<lambda>i. rng s (Suc i)\<rparr>))"

lemma now_ms_run [kv_run]: "and_then now_ms f s = f (clock s 0) (s\<lparr>clock := \<lambda>i. clock s (Suc i)\<rparr>)"
  by (simp add: and_then_def now_ms_def)

lemma random_u16_run [kv_run]: "and_then random_u16 f s = f (rng s 0) (s\<lparr>rng := \<lambda>i. rng s (Suc i)\<rparr>)"
  by (simp add: and_then_def random_u16_def)

section \<open>Loops\<close>

datatype ('a, 'r) control_flow = Continue 'a | Break 'r

text \<open>
  \<open>for x in xs { ... }\<close>: the body gets the element and the mutable variables; \<open>Break\<close> is a
  \<open>break\<close> or an early \<open>return\<close> out of the loop.
\<close>

fun for_each :: "('x \<Rightarrow> 'a \<Rightarrow> ('s, ('a, 'r) control_flow) kv) \<Rightarrow> 'x list \<Rightarrow> 'a
    \<Rightarrow> ('s, ('a, 'r) control_flow) kv" where
  "for_each f [] acc = ret (Continue acc)"
| "for_each f (x # xs) acc = and_then (f x acc) (\<lambda>c. case c of
      Break r \<Rightarrow> ret (Break r)
    | Continue acc' \<Rightarrow> for_each f xs acc')"

text \<open>The same for a body that neither breaks nor returns early, errors apart.\<close>

fun for_loop :: "('x \<Rightarrow> 'a \<Rightarrow> ('s, 'a) kv) \<Rightarrow> 'x list \<Rightarrow> 'a \<Rightarrow> ('s, 'a) kv" where
  "for_loop f [] acc = ret acc"
| "for_loop f (x # xs) acc = and_then (f x acc) (for_loop f xs)"

text \<open>
  \<open>loop { ... }\<close>: the body is run until it breaks. Whether it ever does depends on the body,
  so the loop is a partial function; \<open>None\<close> is a loop that runs forever.
\<close>

partial_function (option) loop_run ::
  "('a \<Rightarrow> ('s, ('a, 'r) control_flow) kv) \<Rightarrow> 'a \<Rightarrow> 's \<Rightarrow> ((failure + 'r) \<times> 's) option" where
  "loop_run body acc s = (case body acc s of
      (Inl e, s') \<Rightarrow> Some (Inl e, s')
    | (Inr (Break r), s') \<Rightarrow> Some (Inr r, s')
    | (Inr (Continue acc'), s') \<Rightarrow> loop_run body acc' s')"

definition kv_loop :: "('a \<Rightarrow> ('s, ('a, 'r) control_flow) kv) \<Rightarrow> 'a \<Rightarrow> ('s, 'r) kv" where
  "kv_loop body acc = (\<lambda>s. case loop_run body acc s of None \<Rightarrow> (Inl Diverge, s) | Some r \<Rightarrow> r)"

lemma loop_run_break: "body acc s = (Inr (Break r), s') \<Longrightarrow> loop_run body acc s = Some (Inr r, s')"
  by (subst loop_run.simps) simp

lemma loop_run_fail: "body acc s = (Inl e, s') \<Longrightarrow> loop_run body acc s = Some (Inl e, s')"
  by (subst loop_run.simps) simp

lemma loop_run_continue:
  "body acc s = (Inr (Continue acc'), s') \<Longrightarrow> loop_run body acc s = loop_run body acc' s'"
  by (subst loop_run.simps) simp

lemma kv_loop_Some: "loop_run body acc s = Some r \<Longrightarrow> kv_loop body acc s = r"
  by (simp add: kv_loop_def)

lemma kv_loop_Inl: "body acc s = (Inl e, s') \<Longrightarrow> kv_loop body acc s = (Inl e, s')"
  by (simp add: kv_loop_def loop_run_fail)

lemma kv_loop_cong_run:
  "loop_run body acc s = loop_run body' acc' s \<Longrightarrow> kv_loop body acc s = kv_loop body' acc' s"
  by (simp add: kv_loop_def)

lemma for_each_append:
  "for_each f (xs @ ys) acc = and_then (for_each f xs acc) (\<lambda>c. case c of
      Break r \<Rightarrow> ret (Break r) | Continue a \<Rightarrow> for_each f ys a)"
proof (induction xs arbitrary: acc)
  case Nil
  show ?case by simp
next
  case (Cons x xs)
  let ?k = "\<lambda>zs c. case c of Break r \<Rightarrow> ret (Break r) | Continue a \<Rightarrow> for_each f zs a"
  have "?k (xs @ ys) c = and_then (?k xs c) (?k ys)" for c
    by (cases c) (simp_all add: Cons.IH)
  then have "?k (xs @ ys) = (\<lambda>c. and_then (?k xs c) (?k ys))" by (rule ext)
  then have "and_then (f x acc) (?k (xs @ ys)) = and_then (and_then (f x acc) (?k xs)) (?k ys)"
    by (simp only: and_then_assoc)
  then show ?case by (simp only: append_Cons for_each.simps)
qed

lemma for_each_inv:
  assumes "\<And>x acc s. x \<in> A \<Longrightarrow> steady s \<Longrightarrow> steady (snd (f x acc s))" and "steady s" and "\<And>x. x \<in> set xs \<Longrightarrow> x \<in> A"
  shows "steady (snd (for_each f xs acc s))"
  using assms(2,3)
proof (induction xs arbitrary: acc s)
  case Nil
  then show ?case by simp
next
  case (Cons x xs)
  obtain r s' where run: "f x acc s = (r, s')" by (cases "f x acc s")
  have i: "steady s'" using assms(1) [of x s acc] Cons.prems run by simp
  show ?case
  proof (cases r)
    case (Inl e)
    with run i show ?thesis by (simp add: and_then_Inl)
  next
    case (Inr c)
    with run i Cons.IH [OF i] Cons.prems(2) show ?thesis
      by (cases c) (simp_all add: and_then_Inr)
  qed
qed

text \<open>A loop over a list whose body always continues without touching the world is a fold.\<close>

lemma for_each_fold:
  assumes "\<And>x acc. x \<in> set xs \<Longrightarrow> f x acc s = (Inr (Continue (g x acc)), s)"
  shows "for_each f xs acc s = (Inr (Continue (fold g xs acc)), s)"
  using assms
proof (induction xs arbitrary: acc)
  case Nil
  show ?case by simp
next
  case (Cons x xs)
  then show ?case by (simp add: and_then_def)
qed

lemma for_loop_step: "f x acc s = (Inr a, t) \<Longrightarrow> for_loop f (x # xs) acc s = for_loop f xs a t"
  by (simp add: and_then_def)

lemma for_loop_fail: "f x acc s = (Inl e, t) \<Longrightarrow> for_loop f (x # xs) acc s = (Inl e, t)"
  by (simp add: and_then_def)

lemma for_loop_fold:
  assumes "\<And>x acc. x \<in> set xs \<Longrightarrow> f x acc s = (Inr (g x acc), s)"
  shows "for_loop f xs acc s = (Inr (fold g xs acc), s)"
  using assms by (induction xs arbitrary: acc) (simp_all add: and_then_def)

end
