(* ===== verification/Kv_Encoding.thy ===== *)
theory Kv_Encoding
  imports Kv_Monad
begin

text \<open>
  The on-disk format: \<open>src/src/types.rs\<close> (data types, the flags byte, \<open>Metadata\<close>) and
  \<open>src/src/encoding.rs\<close> (metadata keys, subkeys, metadata and string values). The lemmas show
  that every decoder undoes its encoder, that the keys of different user keys, versions and
  namespaces never meet as long as the user keys in the default namespace are shorter than
  \<open>2 ^ 24\<close> bytes, that they can meet beyond that, and that the subkeys of one object are exactly the keys below its
  prefix.
\<close>

section \<open>Data types and flags\<close>

datatype data_type = DT_String | DT_Hash | DT_List | DT_Set | DT_ZSet | DT_Stream | DT_Bitmap

definition ENCODING_VERSION :: u8 where "ENCODING_VERSION = 1"
definition FLAGS_VERSION_MASK :: u8 where "FLAGS_VERSION_MASK = 0xF0"
definition FLAGS_TYPE_MASK :: u8 where "FLAGS_TYPE_MASK = 0x0F"

fun code :: "data_type \<Rightarrow> u8" where
  "code DT_String = 1"
| "code DT_Hash = 2"
| "code DT_List = 3"
| "code DT_Set = 4"
| "code DT_ZSet = 5"
| "code DT_Bitmap = 6"
| "code DT_Stream = 8"

definition from_code :: "u8 \<Rightarrow> data_type option" where
  "from_code c =
     (if c = 1 then Some DT_String
      else if c = 2 then Some DT_Hash
      else if c = 3 then Some DT_List
      else if c = 4 then Some DT_Set
      else if c = 5 then Some DT_ZSet
      else if c = 8 then Some DT_Stream
      else if c = 6 then Some DT_Bitmap
      else None)"

definition build_flags :: "data_type \<Rightarrow> u8" where
  "build_flags t = push_bit 4 ENCODING_VERSION OR (code t AND FLAGS_TYPE_MASK)"

definition data_type_from_flags :: "u8 \<Rightarrow> data_type option" where
  "data_type_from_flags f = from_code (f AND FLAGS_TYPE_MASK)"

definition version_from_flags :: "u8 \<Rightarrow> u8" where
  "version_from_flags f = drop_bit 4 (f AND FLAGS_VERSION_MASK)"

record metadata =
  m_flags :: u8
  m_expire :: i64
  m_version :: u64
  m_size :: u64
  m_head :: i64
  m_tail :: i64

definition metadata_new :: "data_type \<Rightarrow> u64 \<Rightarrow> metadata" where
  "metadata_new t v = \<lparr>m_flags = build_flags t, m_expire = 0, m_version = v, m_size = 0,
     m_head = 0, m_tail = -1\<rparr>"

definition metadata_data_type :: "metadata \<Rightarrow> data_type option" where
  "metadata_data_type m = data_type_from_flags (m_flags m)"

definition encoding_version :: "metadata \<Rightarrow> u8" where
  "encoding_version m = version_from_flags (m_flags m)"

definition expired_at :: "i64 \<Rightarrow> i64 \<Rightarrow> bool" where
  "expired_at expire now \<longleftrightarrow> 0 < sint expire \<and> sint expire \<le> sint now"

definition is_expired :: "metadata \<Rightarrow> i64 \<Rightarrow> bool" where
  "is_expired m now \<longleftrightarrow> expired_at (m_expire m) now"

section \<open>Keys\<close>

definition generate_version :: "(('db, 'x) world_scheme, u64) kv" where
  "generate_version = and_then now_ms (\<lambda>now. and_then random_u16 (\<lambda>rnd.
     ret (push_bit 16 now OR (ucast rnd AND 0xFFFF))))"

definition metadata_key :: "bytes \<Rightarrow> bytes \<Rightarrow> bytes" where
  "metadata_key user_key namespace =
     (if namespace = [] then be32 (of_nat (length user_key)) @ user_key
      else of_nat (length namespace) # namespace @ be32 (of_nat (length user_key)) @ user_key)"

definition parse_metadata_key :: "bytes \<Rightarrow> bytes \<Rightarrow> bytes option" where
  "parse_metadata_key data namespace =
     (if namespace = [] then
        (if length data < 4 then None
         else let len = unat (of_be32 (byte_slice 0 4 data))
              in if length data < 4 + len then None else Some (byte_slice 4 (4 + len) data))
      else
        (let ns_len = length namespace
         in if length data < 1 + ns_len + 4 then None
            else if unat (data ! 0) \<noteq> ns_len \<or> byte_slice 1 (1 + ns_len) data \<noteq> namespace then None
            else let key_start = 1 + ns_len;
                     key_len = unat (of_be32 (byte_slice key_start (key_start + 4) data))
                 in if length data < key_start + 4 + key_len then None
                    else Some (byte_slice (key_start + 4) (key_start + 4 + key_len) data)))"

definition subkey :: "bytes \<Rightarrow> u64 \<Rightarrow> bytes \<Rightarrow> bytes \<Rightarrow> bytes" where
  "subkey user_key version sub namespace = metadata_key user_key namespace @ be64 version @ sub"

definition parse_subkey :: "bytes \<Rightarrow> bytes \<Rightarrow> (bytes \<times> u64 \<times> bytes) option" where
  "parse_subkey data namespace =
     (let ns_len = length namespace
      in if namespace \<noteq> [] \<and>
            (length data < 1 + ns_len + 4 \<or> unat (data ! 0) \<noteq> ns_len
             \<or> byte_slice 1 (1 + ns_len) data \<noteq> namespace) then None
         else let key_offset = (if namespace = [] then 0 else 1 + ns_len)
              in if length data < key_offset + 4 then None
                 else let key_len = unat (of_be32 (byte_slice key_offset (key_offset + 4) data))
                      in if length data < key_offset + 4 + key_len + 8 then None
                         else let user_key = byte_slice (key_offset + 4) (key_offset + 4 + key_len) data;
                                  version_pos = key_offset + 4 + key_len;
                                  version = of_be64 (byte_slice version_pos (version_pos + 8) data)
                              in Some (user_key, version, drop (version_pos + 8) data))"

section \<open>Values\<close>

definition encode_metadata :: "metadata \<Rightarrow> bytes" where
  "encode_metadata m =
     (let is_list = (metadata_data_type m = Some DT_List)
      in m_flags m # be64 (m_expire m) @ be64 (m_version m) @ be64 (m_size m)
         @ (if is_list then be64 (m_head m) @ be64 (m_tail m) else []))"

definition decode_metadata :: "bytes \<Rightarrow> metadata option" where
  "decode_metadata data =
     (if length data < 25 then None
      else case from_code (data ! 0 AND FLAGS_TYPE_MASK) of
        None \<Rightarrow> None
      | Some t \<Rightarrow>
          if t = DT_List \<and> length data < 41 then None
          else Some \<lparr>m_flags = data ! 0,
                     m_expire = of_be64 (byte_slice 1 9 data),
                     m_version = of_be64 (byte_slice 9 17 data),
                     m_size = of_be64 (byte_slice 17 25 data),
                     m_head = (if t = DT_List then of_be64 (byte_slice 25 33 data) else 0),
                     m_tail = (if t = DT_List then of_be64 (byte_slice 33 41 data) else -1)\<rparr>)"

definition encode_string :: "u8 \<Rightarrow> i64 \<Rightarrow> bytes \<Rightarrow> bytes" where
  "encode_string flags expire payload = flags # be64 expire @ payload"

definition decode_string :: "bytes \<Rightarrow> (u8 \<times> i64 \<times> bytes) option" where
  "decode_string data =
     (if length data < 9 then None
      else Some (data ! 0, of_be64 (byte_slice 1 9 data), drop 9 data))"

section \<open>Flags and values: round trips\<close>

lemma from_code_code [codec_simps, simp]: "from_code (code t) = Some t"
  by (cases t) (simp_all add: from_code_def)

lemma from_code_SomeD: "from_code c = Some t \<Longrightarrow> c = code t"
  by (auto simp: from_code_def split: if_splits)

lemma from_code_eq_iff: "from_code c = Some t \<longleftrightarrow> c = code t"
  using from_code_SomeD by auto

lemma code_inj [simp]: "code s = code t \<longleftrightarrow> s = t"
  by (metis from_code_code option.inject)

lemma build_flags_type [codec_simps, simp]: "build_flags t AND FLAGS_TYPE_MASK = code t"
  by (cases t) (simp_all add: build_flags_def FLAGS_TYPE_MASK_def ENCODING_VERSION_def)

lemma data_type_build_flags [codec_simps, simp]: "data_type_from_flags (build_flags t) = Some t"
  by (simp add: data_type_from_flags_def)

lemma version_build_flags [codec_simps, simp]: "version_from_flags (build_flags t) = ENCODING_VERSION"
  by (cases t) (simp_all add: build_flags_def FLAGS_TYPE_MASK_def ENCODING_VERSION_def
      version_from_flags_def FLAGS_VERSION_MASK_def)

lemma metadata_new_fields [simp]:
  "m_flags (metadata_new t v) = build_flags t" "m_expire (metadata_new t v) = 0"
  "m_version (metadata_new t v) = v" "m_size (metadata_new t v) = 0"
  "m_head (metadata_new t v) = 0" "m_tail (metadata_new t v) = -1"
  by (simp_all add: metadata_new_def)

lemma metadata_new_type [simp]: "metadata_data_type (metadata_new t v) = Some t"
  by (simp add: metadata_data_type_def)

lemma length_encode_metadata:
  "length (encode_metadata m) = (if metadata_data_type m = Some DT_List then 41 else 25)"
  by (simp add: encode_metadata_def Let_def)

text \<open>
  The metadata values the program writes: a known data type, and the list indices at their
  initial values for every type but lists, which is where \<open>decode_metadata\<close> puts them.
\<close>

definition meta_wf :: "metadata \<Rightarrow> bool" where
  "meta_wf m \<longleftrightarrow> (\<exists>t. metadata_data_type m = Some t
     \<and> (t \<noteq> DT_List \<longrightarrow> m_head m = 0 \<and> m_tail m = -1))"

lemma decode_encode_metadata: "meta_wf m \<Longrightarrow> decode_metadata (encode_metadata m) = Some m"
  by (auto simp: meta_wf_def decode_metadata_def encode_metadata_def Let_def
      metadata_data_type_def data_type_from_flags_def split: option.splits)

lemma decode_encode_string [codec_simps, simp]:
  "decode_string (encode_string f e p) = Some (f, e, p)"
  by (simp add: decode_string_def encode_string_def)

interpretation metadata_codec: codec encode_metadata decode_metadata meta_wf
  by unfold_locales (rule decode_encode_metadata)

interpretation string_codec: codec "\<lambda>(f, e, p). encode_string f e p" decode_string "\<lambda>_. True"
  by unfold_locales auto

section \<open>Keys: round trips and separation\<close>

text \<open>
  The limits the format puts on its inputs: the key length is stored in four bytes, the
  namespace length in one (\<open>Config::validate\<close> rejects longer namespaces). The legacy format of the
  default namespace starts with the high byte of the key length and the namespaced one with the
  non-zero namespace length, so only a key below \<open>2 ^ 24\<close> bytes (16 MiB) keeps the two apart. The
  program enforces neither limit on keys: \<open>key_wf\<close> is an assumption on the requests wherever it is used,
  and \<open>subkey_collision\<close> shows that it is needed.
\<close>

definition key_wf :: "bytes \<Rightarrow> bool" where
  "key_wf k \<longleftrightarrow> length k < 2 ^ 24"

definition ns_wf :: "bytes \<Rightarrow> bool" where
  "ns_wf ns \<longleftrightarrow> length ns \<le> 255"

lemma unat_key_length: "length k < 4294967296 \<Longrightarrow> unat (of_nat (length k) :: u32) = length k"
  by (simp add: unat_of_nat)

lemma key_wf_length: "key_wf k \<Longrightarrow> length k < 4294967296"
  by (simp add: key_wf_def)

lemma unat_ns_length: "ns_wf ns \<Longrightarrow> unat (of_nat (length ns) :: u8) = length ns"
  by (simp add: ns_wf_def unat_of_nat)

lemma parse_metadata_key_metadata_key:
  assumes "length k < 4294967296" and "ns_wf ns"
  shows "parse_metadata_key (metadata_key k ns) ns = Some k"
  using unat_key_length [OF assms(1)] unat_ns_length [OF assms(2)]
  by (simp add: parse_metadata_key_def metadata_key_def Let_def)

lemma parse_subkey_subkey:
  assumes "length k < 4294967296" and "ns_wf ns"
  shows "parse_subkey (subkey k v sub ns) ns = Some (k, v, sub)"
  using unat_key_length [OF assms(1)] unat_ns_length [OF assms(2)]
  by (simp add: parse_subkey_def subkey_def metadata_key_def Let_def drop_Cons')

interpretation subkey_codec: codec "\<lambda>(k, v, sub). subkey k v sub ns" "\<lambda>d. parse_subkey d ns"
    "\<lambda>(k, v, sub). length k < 4294967296 \<and> ns_wf ns" for ns
  by unfold_locales (auto simp: parse_subkey_subkey)

text \<open>
  Metadata keys are a prefix code: two keys that agree up to the end of the shorter one belong
  to the same user key in the same namespace.
\<close>

lemma legacy_key_prefix_code:
  assumes "length k < 4294967296" and "length k' < 4294967296"
    and "be32 (of_nat (length k)) @ k @ x = be32 (of_nat (length k')) @ k' @ y"
  shows "k = k' \<and> x = y"
proof -
  from assms(3) have "be32 (of_nat (length k)) = be32 (of_nat (length k'))" and r: "k @ x = k' @ y"
    by (simp_all add: append_eq_append_conv)
  then have "length k = length k'"
    using assms(1,2) unat_key_length by (metis be32_inj)
  with r show ?thesis by simp
qed

lemma be32_Cons: "be32 w = of_nat (unat w div 256 ^ 3) # nat_be 3 (unat w)"
  by (simp only: be32_def nat_be.simps(2) [symmetric]) simp

lemma be32_nonempty [simp]: "be32 w \<noteq> []"
  by (simp add: be32_Cons)

lemma hd_be32_small:
  assumes "key_wf k"
  shows "hd (be32 (of_nat (length k))) = 0"
proof -
  have "unat (of_nat (length k) :: u32) div 256 ^ 3 = 0"
    using assms by (simp add: key_wf_def unat_of_nat)
  then show ?thesis unfolding be32_Cons list.sel by (simp only: semiring_1_class.of_nat_0)
qed

lemma legacy_not_namespaced:
  assumes "key_wf k" and "ns \<noteq> []" and "ns_wf ns"
  shows "be32 (of_nat (length k)) @ x \<noteq> of_nat (length ns) # y"
proof
  assume eq: "be32 (of_nat (length k)) @ x = of_nat (length ns) # y"
  have "hd (be32 (of_nat (length k)) @ x) = 0"
    using hd_be32_small [OF assms(1)] by simp
  then have "(0 :: u8) = of_nat (length ns)"
    unfolding eq by simp
  then have "length ns = 0"
    using unat_ns_length [OF assms(3)] by (metis unsigned_0)
  with assms(2) show False by simp
qed

lemma metadata_key_prefix_code_sharp:
  assumes "length k < 2 ^ 32" "length k' < 2 ^ 32" "ns_wf ns" "ns_wf ns'"
    and "ns = [] \<and> ns' \<noteq> [] \<longrightarrow> key_wf k" and "ns' = [] \<and> ns \<noteq> [] \<longrightarrow> key_wf k'"
    and eq: "metadata_key k ns @ x = metadata_key k' ns' @ y"
  shows "k = k' \<and> ns = ns' \<and> x = y"
proof (cases "ns = []"; cases "ns' = []")
  assume "ns = []" "ns' = []"
  with eq show ?thesis
    using legacy_key_prefix_code [of k k' x y] assms(1,2)
    by (simp add: metadata_key_def)
next
  assume "ns = []" "ns' \<noteq> []"
  with eq show ?thesis
    using legacy_not_namespaced [of k ns' "k @ x"] assms(4,5) by (simp add: metadata_key_def)
next
  assume "ns \<noteq> []" "ns' = []"
  with eq show ?thesis
    using legacy_not_namespaced [of k' ns "k' @ y"] assms(3,6) by (simp add: metadata_key_def) metis
next
  assume ne: "ns \<noteq> []" "ns' \<noteq> []"
  with eq have l: "(of_nat (length ns) :: u8) = of_nat (length ns')"
    and r: "ns @ be32 (of_nat (length k)) @ k @ x = ns' @ be32 (of_nat (length k')) @ k' @ y"
    by (simp_all add: metadata_key_def)
  from l have len: "length ns = length ns'"
    using unat_ns_length [OF assms(3)] unat_ns_length [OF assms(4)] by metis
  with r have "ns = ns'" by simp
  with r len show ?thesis
    using legacy_key_prefix_code [of k k' x y] assms(1,2) by simp
qed

lemma metadata_key_prefix_code:
  assumes "key_wf k" "key_wf k'" "ns_wf ns" "ns_wf ns'"
    and "metadata_key k ns @ x = metadata_key k' ns' @ y"
  shows "k = k' \<and> ns = ns' \<and> x = y"
  using metadata_key_prefix_code_sharp [OF _ _ assms(3,4) _ _ assms(5)] assms(1,2) key_wf_length by simp

lemma subkey_prefix_code_sharp:
  assumes "length k < 2 ^ 32" "length k' < 2 ^ 32" "ns_wf ns" "ns_wf ns'"
    and "ns = [] \<and> ns' \<noteq> [] \<longrightarrow> key_wf k" and "ns' = [] \<and> ns \<noteq> [] \<longrightarrow> key_wf k'"
    and "subkey k v sub ns = subkey k' v' sub' ns'"
  shows "k = k' \<and> ns = ns' \<and> v = v' \<and> sub = sub'"
proof -
  from metadata_key_prefix_code_sharp [OF assms(1-6), of "be64 v @ sub" "be64 v' @ sub'"] assms(7)
  have "k = k'" "ns = ns'" and r: "be64 v @ sub = be64 v' @ sub'"
    by (simp_all add: subkey_def)
  from r have "be64 v = be64 v'" "sub = sub'" by simp_all
  with \<open>k = k'\<close> \<open>ns = ns'\<close> show ?thesis by simp
qed

lemma subkey_prefix_code:
  assumes "key_wf k" "key_wf k'" "ns_wf ns" "ns_wf ns'"
    and "subkey k v sub ns = subkey k' v' sub' ns'"
  shows "k = k' \<and> ns = ns' \<and> v = v' \<and> sub = sub'"
  using subkey_prefix_code_sharp [OF _ _ assms(3,4) _ _ assms(5)] assms(1,2) key_wf_length by simp

lemma subkey_eq_iff [simp]:
  "subkey k v sub ns = subkey k v sub' ns \<longleftrightarrow> sub = sub'"
  by (simp add: subkey_def)

lemma subkey_Nil_append: "subkey k v [] ns @ sub = subkey k v sub ns"
  by (simp add: subkey_def)

lemma prefix_subkey_iff: "prefix (subkey k v [] ns) x \<longleftrightarrow> (\<exists>sub. x = subkey k v sub ns)"
  unfolding prefix_def by (simp add: subkey_Nil_append)

lemma subkey_less_iff [simp]: "subkey k v a ns < subkey k v b ns \<longleftrightarrow> a < b"
  by (simp add: subkey_def)

lemma subkey_nonempty [simp]: "subkey k v sub ns \<noteq> []"
  by (metis append_is_Nil_conv length_0_conv length_be64 subkey_def zero_neq_numeral)

lemma metadata_key_nonempty [simp]: "metadata_key k ns \<noteq> []"
  by (auto simp: metadata_key_def)

section \<open>Properties of the format\<close>

text \<open>C3: Separation. For namespaces of at most 255 bytes and user keys below \<open>2 ^ 32\<close> bytes, where a key
  in the default namespace is below \<open>2 ^ 24\<close> bytes when it is compared with one in a named namespace:
  the prefix under which an object stores its subkeys (the namespace, the user key and the version) is
  a prefix of a subkey exactly when that subkey belongs to the same object, that is same user key, same
  version, same namespace. Under these limits a prefix scan or a prefix deletion of one object never
  meets an entry of another one, of an older version or of another tenant. The program does not
  enforce the limits on keys, and without the second one the separation fails
  (\<open>subkey_collision\<close> below).\<close>

theorem subkey_separation:
  assumes "length k < 2 ^ 32" and "length k' < 2 ^ 32" and "ns_wf ns" and "ns_wf ns'"
    and "ns = [] \<and> ns' \<noteq> [] \<longrightarrow> length k < 2 ^ 24" and "ns' = [] \<and> ns \<noteq> [] \<longrightarrow> length k' < 2 ^ 24"
  shows "prefix (subkey k v [] ns) (subkey k' v' sub ns') \<longleftrightarrow> k = k' \<and> v = v' \<and> ns = ns'"
  using subkey_prefix_code_sharp [OF assms(1-4), of v _ v' sub] assms(5,6)
  by (auto simp: prefix_subkey_iff key_wf_def)

theorem subkey_separation_witness:
  "\<not> prefix (subkey [1] 5 [] []) (subkey [1, 0] 5 [3] [7]) \<and> \<not> prefix (subkey [1] 5 [] [7]) (subkey [1, 0] 5 [3] [7])"
  using subkey_separation [of "[1]" "[1, 0]" "[]" "[7]" 5 5 "[3]"]
    subkey_separation [of "[1]" "[1, 0]" "[7]" "[7]" 5 5 "[3]"] by (simp add: ns_wf_def)

text \<open>Without the limit on keys of the default namespace the two key formats meet. A key of \<open>0x01410000\<close>
  bytes (about 20 MiB) in the default namespace starts, encoded, like a key of the namespace \<open>A\<close>; with
  the right content its subkeys and its metadata key lie under the prefix of an object of that tenant.\<close>

lemma subkey_collision:
  assumes "length k = 0x01410000" and "k = [0, 0] @ be64 v @ rest"
  shows "prefix (subkey [] v [] [0x41]) (subkey k v' sub []) \<and> prefix (subkey [] v [] [0x41]) (metadata_key k [])"
proof -
  have nums: "(4 :: nat) = Suc 3" "(3 :: nat) = Suc 2" "(2 :: nat) = Suc 1" "(1 :: nat) = Suc 0" by simp_all
  have be32: "be32 w = [of_nat (unat w div 256 ^ 3), of_nat (unat w div 256 ^ 2), of_nat (unat w div 256 ^ 1),
      of_nat (unat w div 256 ^ 0)]" for w
    by (simp only: be32_def nums(1) nat_be.simps, simp only: nums(2) nat_be.simps, simp only: nums(3) nat_be.simps,
        simp only: nums(4) nat_be.simps)
  have "unat (of_nat 0x01410000 :: u32) = 0x01410000" by (simp add: unat_of_nat)
  then have len: "be32 (of_nat (length k)) = [1, 0x41, 0, 0]" and z: "be32 0 = [0, 0, 0, 0]"
    unfolding assms(1) be32 by simp_all
  show ?thesis
    unfolding subkey_def metadata_key_def prefix_def len by (simp add: z assms(2))
qed

text \<open>Such a key exists for every version.\<close>

lemma subkey_collision_exists:
  "\<exists>k. length k = 0x01410000 \<and> prefix (subkey [] v [] [0x41]) (metadata_key k [])"
proof -
  have "length ([0, 0] @ be64 v @ replicate (0x01410000 - 10) 0 :: bytes) = 0x01410000" by simp
  from this subkey_collision [OF this refl] show ?thesis by blast
qed

text \<open>C9: Round trip of metadata. A metadata value of any type decodes to itself, and its length is
  41 bytes for a list, whose indices are stored, and 25 bytes for every other type.\<close>

theorem metadata_roundtrip:
  assumes "meta_wf m"
  shows "decode_metadata (encode_metadata m) = Some m
    \<and> length (encode_metadata m) = (if metadata_data_type m = Some DT_List then 41 else 25)"
  using assms by (simp add: decode_encode_metadata length_encode_metadata)

theorem metadata_roundtrip_witness:
  "decode_metadata (encode_metadata ((metadata_new DT_List 9)\<lparr>m_head := -3, m_tail := 4, m_size := 8\<rparr>))
   = Some ((metadata_new DT_List 9)\<lparr>m_head := -3, m_tail := 4, m_size := 8\<rparr>)"
  using metadata_roundtrip [of "(metadata_new DT_List 9)\<lparr>m_head := -3, m_tail := 4, m_size := 8\<rparr>"]
  by (simp add: meta_wf_def metadata_data_type_def)

text \<open>Round trip of subkeys. Whatever user key, version, subkey and namespace a subkey was built
  from, parsing it under the same namespace returns exactly these parts.\<close>

theorem subkey_roundtrip:
  assumes "length k < 2 ^ 32" and "ns_wf ns"
  shows "parse_subkey (subkey k v sub ns) ns = Some (k, v, sub)
    \<and> parse_metadata_key (metadata_key k ns) ns = Some k"
  using assms by (simp add: parse_subkey_subkey parse_metadata_key_metadata_key)

theorem subkey_roundtrip_witness:
  "parse_subkey (subkey [1, 2] 3 [4] [5, 6]) [5, 6] = Some ([1, 2], 3, [4])"
  using subkey_roundtrip [of "[1, 2]" "[5, 6]" 3 "[4]"] by (simp add: ns_wf_def)

end
