(* ===== verification/Kv_Storage.thy ===== *)
theory Kv_Storage
  imports Kv_Encoding
begin

text \<open>
  The storage engine of \<open>src/src/storage.rs\<close> over RocksDB.

  RocksDB is third-party code, so it is a parameter: a record of the operations the engine
  calls, over an abstract type \<open>'db\<close> of database states. What the engine relies on is the
  locale \<open>rocksdb_contract\<close>: a column family is a finite map from byte strings to byte strings,
  reads and writes act on it, a write batch is applied in order, and an iterator lists the
  entries in bytewise key order from the position it was opened at. The lemmas inside the
  locale say what \<open>StorageEngine\<close> then promises to the command layer. The contract is met by an
  in-memory store, which the witnesses use.
\<close>

section \<open>The RocksDB interface\<close>

datatype direction = Forward | Reverse

datatype iterator_mode = Start | From bytes direction

datatype batch_op = Put string bytes bytes | Delete string bytes

type_synonym entry = "bytes \<times> bytes"

record 'db rocksdb =
  r_has_cf :: "'db \<Rightarrow> string \<Rightarrow> bool"
  r_get :: "'db \<Rightarrow> string \<Rightarrow> bytes \<Rightarrow> string + bytes option"
  r_put :: "'db \<Rightarrow> string \<Rightarrow> bytes \<Rightarrow> bytes \<Rightarrow> string + 'db"
  r_delete :: "'db \<Rightarrow> string \<Rightarrow> bytes \<Rightarrow> string + 'db"
  r_write :: "'db \<Rightarrow> batch_op list \<Rightarrow> string + 'db"
  r_iter :: "'db \<Rightarrow> string \<Rightarrow> iterator_mode \<Rightarrow> (string + entry) list"
  r_prefix_iter :: "'db \<Rightarrow> string \<Rightarrow> bytes \<Rightarrow> (string + entry) list"

section \<open>The storage engine\<close>

definition CF_DEFAULT :: string where "CF_DEFAULT = ''default''"
definition CF_METADATA :: string where "CF_METADATA = ''metadata''"
definition CF_SUBKEY :: string where "CF_SUBKEY = ''subkey''"
definition CF_ZSET_SCORE :: string where "CF_ZSET_SCORE = ''zset_score''"
definition CF_PUBSUB :: string where "CF_PUBSUB = ''pubsub''"

definition ALL_CFS :: "string list" where
  "ALL_CFS = [CF_DEFAULT, CF_METADATA, CF_SUBKEY, CF_ZSET_SCORE, CF_PUBSUB]"

fun cf_name :: "data_type \<Rightarrow> string" where
  "cf_name DT_String = CF_METADATA"
| "cf_name DT_Hash = CF_SUBKEY"
| "cf_name DT_List = CF_SUBKEY"
| "cf_name DT_Set = CF_SUBKEY"
| "cf_name DT_ZSet = CF_SUBKEY"
| "cf_name DT_Stream = CF_SUBKEY"
| "cf_name DT_Bitmap = CF_SUBKEY"

type_synonym page = "entry list \<times> bytes option"

definition cf_handle :: "'db rocksdb \<Rightarrow> string \<Rightarrow> (('db, 'x) world_scheme, string) kv" where
  "cf_handle R name = (\<lambda>s. if r_has_cf R (db s) name then (Inr name, s)
     else (Inl (Err (Command (''missing column family: '' @ name))), s))"

definition storage_get :: "'db rocksdb \<Rightarrow> string \<Rightarrow> bytes \<Rightarrow> (('db, 'x) world_scheme, bytes option) kv" where
  "storage_get R cf key = and_then (cf_handle R cf) (\<lambda>h s.
     case r_get R (db s) h key of Inl e \<Rightarrow> (Inl (Err (Storage e)), s) | Inr v \<Rightarrow> (Inr v, s))"

definition commit :: "string + 'db \<Rightarrow> (('db, 'x) world_scheme, unit) kv" where
  "commit r = (\<lambda>s. case r of Inl e \<Rightarrow> (Inl (Err (Storage e)), s) | Inr d \<Rightarrow> (Inr (), s\<lparr>db := d\<rparr>))"

definition storage_put :: "'db rocksdb \<Rightarrow> string \<Rightarrow> bytes \<Rightarrow> bytes \<Rightarrow> (('db, 'x) world_scheme, unit) kv" where
  "storage_put R cf key val = and_then (cf_handle R cf) (\<lambda>h s. commit (r_put R (db s) h key val) s)"

definition storage_delete :: "'db rocksdb \<Rightarrow> string \<Rightarrow> bytes \<Rightarrow> (('db, 'x) world_scheme, unit) kv" where
  "storage_delete R cf key = and_then (cf_handle R cf) (\<lambda>h s. commit (r_delete R (db s) h key) s)"

definition storage_write :: "'db rocksdb \<Rightarrow> batch_op list \<Rightarrow> (('db, 'x) world_scheme, unit) kv" where
  "storage_write R batch = (\<lambda>s. commit (r_write R (db s) batch) s)"

definition batch_put :: "'db rocksdb \<Rightarrow> batch_op list \<Rightarrow> string \<Rightarrow> bytes \<Rightarrow> bytes
    \<Rightarrow> (('db, 'x) world_scheme, batch_op list) kv" where
  "batch_put R batch cf key val = and_then (cf_handle R cf) (\<lambda>h. ret (batch @ [Put h key val]))"

definition batch_delete :: "'db rocksdb \<Rightarrow> batch_op list \<Rightarrow> string \<Rightarrow> bytes
    \<Rightarrow> (('db, 'x) world_scheme, batch_op list) kv" where
  "batch_delete R batch cf key = and_then (cf_handle R cf) (\<lambda>h. ret (batch @ [Delete h key]))"

text \<open>The scans run over the items an iterator yields, one of which may be an I/O error.\<close>

fun prefix_collect :: "bytes \<Rightarrow> (string + entry) list \<Rightarrow> entry list \<Rightarrow> failure + entry list" where
  "prefix_collect p [] result = Inr result"
| "prefix_collect p (Inl e # it) result = Inl (Err (Storage e))"
| "prefix_collect p (Inr (k, v) # it) result =
     (if \<not> prefix p k then Inr result else prefix_collect p it (result @ [(k, v)]))"

definition prefix_scan :: "'db rocksdb \<Rightarrow> string \<Rightarrow> bytes \<Rightarrow> (('db, 'x) world_scheme, entry list) kv" where
  "prefix_scan R cf p = and_then (cf_handle R cf) (\<lambda>h s.
     (prefix_collect p (r_prefix_iter R (db s) h p) [], s))"

text \<open>
  The \<open>for item in iter.by_ref()\<close> loop of the two paged scans. Its result is the page, the last
  key, whether the loop stopped at a key without the prefix, and what is left of the iterator.
\<close>

fun page_loop :: "bytes \<Rightarrow> bytes \<Rightarrow> nat \<Rightarrow> (string + entry) list \<Rightarrow> entry list \<Rightarrow> bytes option \<Rightarrow> bool
    \<Rightarrow> failure + (entry list \<times> bytes option \<times> bool \<times> (string + entry) list)" where
  "page_loop p start limit [] result last_key first = Inr (result, last_key, False, [])"
| "page_loop p start limit (Inl e # it) result last_key first = Inl (Err (Storage e))"
| "page_loop p start limit (Inr (k, v) # it) result last_key first =
     (if first \<and> k = start then page_loop p start limit it result last_key False
      else if \<not> prefix p k then Inr (result, last_key, True, it)
      else if limit \<le> length (result @ [(k, v)]) then Inr (result @ [(k, v)], Some k, False, it)
      else page_loop p start limit it (result @ [(k, v)]) (Some k) False)"

text \<open>The look-ahead that decides whether there is a next page.\<close>

definition finish_page :: "bytes \<Rightarrow> nat
    \<Rightarrow> failure + (entry list \<times> bytes option \<times> bool \<times> (string + entry) list) \<Rightarrow> failure + page" where
  "finish_page p limit r = (case r of
      Inl e \<Rightarrow> Inl e
    | Inr (result, last_key, hit_boundary, it) \<Rightarrow>
        if hit_boundary \<or> length result < limit then Inr (result, None)
        else (case it of
            [] \<Rightarrow> Inr (result, None)
          | Inl e # _ \<Rightarrow> Inl (Err (Storage e))
          | Inr (k, _) # _ \<Rightarrow> Inr (result, if prefix p k then last_key else None)))"

text \<open>
  Both paged scans reserve their result vector with \<open>Vec::with_capacity(limit)\<close> before the first entry
  is read. An element is a pair of vectors, 48 bytes on a 64-bit target, and the reservation panics with
  \<open>capacity overflow\<close> when it would exceed \<open>isize::MAX\<close> bytes. A reservation below that bound is taken to
  succeed.
\<close>

definition with_capacity_ok :: "nat \<Rightarrow> bool" where
  "with_capacity_ok limit \<longleftrightarrow> limit * 48 < 2 ^ 63"

definition prefix_scan_page :: "'db rocksdb \<Rightarrow> string \<Rightarrow> bytes \<Rightarrow> bytes \<Rightarrow> nat
    \<Rightarrow> (('db, 'x) world_scheme, page) kv" where
  "prefix_scan_page R cf p start_key limit = and_then (cf_handle R cf) (\<lambda>h s.
     (let it = (if start_key = [] then r_prefix_iter R (db s) h p
                else r_iter R (db s) h (From start_key Forward))
      in if \<not> with_capacity_ok limit then Inl Panic
         else finish_page p limit (page_loop p start_key limit it [] None (start_key \<noteq> [])), s))"

definition prefix_scan_page_reverse :: "'db rocksdb \<Rightarrow> string \<Rightarrow> bytes \<Rightarrow> bytes \<Rightarrow> nat
    \<Rightarrow> (('db, 'x) world_scheme, page) kv" where
  "prefix_scan_page_reverse R cf p start_key limit = and_then (cf_handle R cf) (\<lambda>h s.
     (let it = (if start_key = [] then r_iter R (db s) h (From (p @ replicate 8 0xFF) Reverse)
                else r_iter R (db s) h (From start_key Reverse))
      in if \<not> with_capacity_ok limit then Inl Panic
         else finish_page p limit (page_loop p start_key limit it [] None True), s))"

fun collect_items :: "(string + entry) list \<Rightarrow> failure + entry list" where
  "collect_items [] = Inr []"
| "collect_items (Inl e # it) = Inl (Err (Storage e))"
| "collect_items (Inr x # it) = (case collect_items it of Inl e \<Rightarrow> Inl e | Inr xs \<Rightarrow> Inr (x # xs))"

definition full_scan :: "'db rocksdb \<Rightarrow> string \<Rightarrow> (('db, 'x) world_scheme, entry list) kv" where
  "full_scan R cf = and_then (cf_handle R cf) (\<lambda>h s. (collect_items (r_iter R (db s) h Start), s))"

definition delete_prefix :: "'db rocksdb \<Rightarrow> string \<Rightarrow> bytes \<Rightarrow> nat \<Rightarrow> (('db, 'x) world_scheme, unit) kv" where
  "delete_prefix R cf p batch_size = and_then (cf_handle R cf) (\<lambda>h.
     kv_loop (\<lambda>start_key. and_then (prefix_scan_page R cf p start_key batch_size) (\<lambda>(items, next_key).
       if items = [] then ret (Break ())
       else and_then (storage_write R (map (\<lambda>(k, _). Delete h k) items)) (\<lambda>_.
         case next_key of Some k \<Rightarrow> ret (Continue k) | None \<Rightarrow> ret (Break ())))) [])"

fun prefix_count :: "bytes \<Rightarrow> (string + entry) list \<Rightarrow> u64 \<Rightarrow> failure + u64" where
  "prefix_count p [] count = Inr count"
| "prefix_count p (Inl e # it) count = Inl (Err (Storage e))"
| "prefix_count p (Inr (k, v) # it) count =
     (if \<not> prefix p k then Inr count else prefix_count p it (count + 1))"

definition count_prefix :: "'db rocksdb \<Rightarrow> string \<Rightarrow> bytes \<Rightarrow> (('db, 'x) world_scheme, u64) kv" where
  "count_prefix R cf p = and_then (cf_handle R cf) (\<lambda>h s.
     (prefix_count p (r_prefix_iter R (db s) h p) 0, s))"

text \<open>
  The paging idiom of the command layer: fetch a page, stop when it is empty, process it, go on
  from \<open>next_key\<close>. \<open>Break\<close> is an early \<open>return\<close> of the handler, \<open>Continue\<close> the normal end.
\<close>

definition scan_pages :: "(bytes \<Rightarrow> ('s, 'x list \<times> bytes option) kv) \<Rightarrow> bytes
    \<Rightarrow> ('x list \<Rightarrow> 'a \<Rightarrow> ('s, ('a, 'r) control_flow) kv) \<Rightarrow> 'a \<Rightarrow> ('s, ('a, 'r) control_flow) kv" where
  "scan_pages fetch start body acc =
     kv_loop (\<lambda>(start_key, acc). and_then (fetch start_key) (\<lambda>(items, next_key).
       if items = [] then ret (Break (Continue acc))
       else and_then (body items acc) (\<lambda>flow. case flow of
           Break r \<Rightarrow> ret (Break (Break r))
         | Continue acc' \<Rightarrow> (case next_key of
               Some k \<Rightarrow> ret (Continue (k, acc'))
             | None \<Rightarrow> ret (Break (Continue acc')))))) (start, acc)"

section \<open>Entries of a column family\<close>

definition entries :: "(bytes \<rightharpoonup> bytes) \<Rightarrow> entry list" where
  "entries m = map (\<lambda>k. (k, the (m k))) (sorted_list_of_set (dom m))"

fun apply_op :: "batch_op \<Rightarrow> (string \<Rightarrow> bytes \<rightharpoonup> bytes) \<Rightarrow> (string \<Rightarrow> bytes \<rightharpoonup> bytes)" where
  "apply_op (Put cf k v) m = m(cf := (m cf)(k \<mapsto> v))"
| "apply_op (Delete cf k) m = m(cf := (m cf)(k := None))"

fun op_cf :: "batch_op \<Rightarrow> string" where
  "op_cf (Put cf k v) = cf"
| "op_cf (Delete cf k) = cf"

text \<open>The entries with a prefix, all of them or those after a start key.\<close>

definition scan_entries :: "(bytes \<rightharpoonup> bytes) \<Rightarrow> bytes \<Rightarrow> entry list" where
  "scan_entries m p = filter (\<lambda>(k, _). prefix p k) (entries m)"

definition page_of :: "nat \<Rightarrow> entry list \<Rightarrow> page" where
  "page_of limit xs = (let n = max 1 limit
     in (take n xs, if n < length xs then Some (fst (xs ! (n - 1))) else None))"

lemma set_entries: "finite (dom m) \<Longrightarrow> (k, v) \<in> set (entries m) \<longleftrightarrow> m k = Some v"
  by (auto simp: entries_def)

lemma map_fst_entries: "map fst (entries m) = sorted_list_of_set (dom m)"
  by (simp add: entries_def comp_def)

lemma strict_sorted_entries: "sorted_wrt (<) (map fst (entries m))"
  by (simp add: map_fst_entries)

lemma set_scan_entries:
  "finite (dom m) \<Longrightarrow> (k, v) \<in> set (scan_entries m p) \<longleftrightarrow> m k = Some v \<and> prefix p k"
  by (auto simp: scan_entries_def set_entries)

lemma strict_sorted_scan_entries: "sorted_wrt (<) (map fst (scan_entries m p))"
proof -
  have "map fst (scan_entries m p) = filter (prefix p) (map fst (entries m))"
    by (simp add: scan_entries_def filter_map comp_def case_prod_unfold)
  then show ?thesis
    using strict_sorted_entries [of m] by (simp add: sorted_wrt_filter)
qed

lemma distinct_scan_entries: "distinct (scan_entries m p)"
  using strict_sorted_scan_entries [of m p] by (metis distinct_map strict_sorted_iff)

section \<open>One page\<close>

lemma finish_page_loop:
  assumes "length result < max 1 limit"
  shows "finish_page p limit (page_loop p start limit (map Inr xs) result last_key False) =
    (let ys = takeWhile (\<lambda>(k, _). prefix p k) xs; n = max 1 limit - length result
     in Inr (result @ take n ys, if n < length ys then Some (fst (ys ! (n - 1))) else None))"
  using assms
proof (induction xs arbitrary: result last_key)
  case Nil
  then show ?case by (simp add: finish_page_def)
next
  case (Cons x xs)
  obtain k v where x: "x = (k, v)" by (cases x)
  show ?case
  proof (cases "prefix p k")
    case False
    with x show ?thesis by (simp add: finish_page_def)
  next
    case pk: True
    show ?thesis
    proof (cases "limit \<le> Suc (length result)")
      case True
      with Cons.prems have n: "max 1 limit - length result = 1" by auto
      from True pk x show ?thesis
        unfolding n by (cases xs) (auto simp: finish_page_def)
    next
      case False
      with Cons.prems have n: "max 1 limit - length result = Suc (max 1 limit - length (result @ [x]))"
        and less: "length (result @ [x]) < max 1 limit"
        and pos: "0 < max 1 limit - length (result @ [x])" by auto
      from False pk x have step:
        "page_loop p start limit (map Inr (x # xs)) result last_key False =
         page_loop p start limit (map Inr xs) (result @ [x]) (Some k) False" by simp
      show ?thesis
        unfolding step Cons.IH [OF less] n
        using pk x pos by (auto simp: Let_def nth_Cons')
    qed
  qed
qed

lemma page_loop_first:
  "start \<notin> fst ` set xs \<Longrightarrow>
   page_loop p start limit (map Inr xs) result last_key first =
   page_loop p start limit (map Inr xs) result last_key False"
  by (cases xs) auto

lemma page_loop_skip:
  "page_loop p start limit (map Inr ((start, v) # xs)) result last_key True =
   page_loop p start limit (map Inr xs) result last_key False"
  by simp

lemma scan_entries_from:
  assumes "\<And>k. q k \<Longrightarrow> p \<le> k"
  shows "takeWhile (\<lambda>(k, _). prefix p k) (filter (\<lambda>(k, _). q k) (entries m)) =
         filter (\<lambda>(k, _). q k) (scan_entries m p)"
proof -
  let ?f = "\<lambda>k. (k, the (m k))" and ?ks = "filter q (sorted_list_of_set (dom m))"
  have "takeWhile (prefix p) ?ks = filter (prefix p) ?ks"
    using assms by (intro takeWhile_prefix_sorted) (auto simp: sorted_wrt_filter)
  then have "map ?f (takeWhile (prefix p) ?ks) = map ?f (filter (prefix p) ?ks)" by simp
  then show ?thesis
    by (simp add: entries_def scan_entries_def filter_map takeWhile_map comp_def filter_filter conj_commute)
qed

lemma filter_le_eq_Cons:
  assumes "sorted_wrt (<) (map fst xs)"
  shows "filter (\<lambda>(k, _). start \<le> k) xs = filter (\<lambda>(k, _). start < k) xs
     \<or> (\<exists>v. filter (\<lambda>(k, _). start \<le> k) xs = (start, v) # filter (\<lambda>(k, _). start < (k :: bytes)) xs)"
  using assms
proof (induction xs)
  case Nil
  show ?case by simp
next
  case (Cons x xs)
  obtain k v where x: "x = (k, v)" by (cases x)
  from Cons.prems have ih: "sorted_wrt (<) (map fst xs)" and lt: "\<forall>y \<in> set xs. k < fst y"
    by (auto simp: x)
  consider "start < k" | "start = k" | "k < start" by force
  then show ?case
  proof cases
    case 1
    then have "\<forall>y \<in> set xs. start < fst y" using lt by auto
    then have "filter (\<lambda>(k, _). start \<le> k) xs = xs" "filter (\<lambda>(k, _). start < k) xs = xs"
      by (auto simp: filter_id_conv)
    with 1 x show ?thesis by simp
  next
    case 2
    then have "filter (\<lambda>(k, _). start \<le> k) xs = xs" "filter (\<lambda>(k, _). start < k) xs = xs"
      using lt by (auto simp: filter_id_conv)
    with 2 x show ?thesis by simp
  next
    case 3
    with x Cons.IH [OF ih] show ?thesis by auto
  qed
qed

text \<open>A page from a start key inside the range of the prefix: the entries after that key.\<close>

lemma page_from_start:
  assumes "p \<le> start"
  shows "finish_page p limit (page_loop p start limit
      (map Inr (filter (\<lambda>(k, _). start \<le> k) (entries m))) [] None True)
    = Inr (page_of limit (filter (\<lambda>(k, _). start < k) (scan_entries m p)))"
proof -
  let ?ge = "filter (\<lambda>(k, _). start \<le> k) (entries m)"
  let ?gt = "filter (\<lambda>(k, _). start < k) (entries m)"
  have loop: "page_loop p start limit (map Inr ?ge) [] None True = page_loop p start limit (map Inr ?gt) [] None False"
    using filter_le_eq_Cons [OF strict_sorted_entries, of start m]
  proof (elim disjE exE)
    assume eq: "?ge = ?gt"
    have "start \<notin> fst ` set ?gt" by auto
    then show ?thesis unfolding eq by (rule page_loop_first)
  next
    fix v assume "?ge = (start, v) # ?gt"
    then show ?thesis by (simp only: page_loop_skip)
  qed
  have "takeWhile (\<lambda>(k, _). prefix p k) ?gt = filter (\<lambda>(k, _). start < k) (scan_entries m p)"
    using assms by (intro scan_entries_from) auto
  then show ?thesis
    unfolding loop by (simp add: finish_page_loop page_of_def Let_def)
qed

text \<open>The first page: the iterator is opened at the prefix itself.\<close>

lemma page_from_prefix:
  "finish_page p limit (page_loop p [] limit
      (map Inr (filter (\<lambda>(k, _). p \<le> k) (entries m))) [] None False)
    = Inr (page_of limit (scan_entries m p))"
proof -
  have "filter (\<lambda>(k, _). p \<le> k) (scan_entries m p) = scan_entries m p"
    by (rule filter_True) (auto simp: scan_entries_def dest: prefix_le)
  then show ?thesis
    using scan_entries_from [of "\<lambda>k. p \<le> k" p m]
    by (simp add: finish_page_loop page_of_def Let_def)
qed

lemma filter_after_nth:
  assumes "sorted_wrt (<) (map fst xs)" and "i < length xs"
  shows "filter (\<lambda>(k, _). fst (xs ! i) < (k :: bytes)) xs = drop (Suc i) xs"
  using assms
proof (induction xs arbitrary: i)
  case Nil
  then show ?case by simp
next
  case (Cons x xs)
  show ?case
  proof (cases i)
    case 0
    with Cons.prems(1) show ?thesis by (auto simp: filter_id_conv case_prod_unfold)
  next
    case (Suc j)
    with Cons.prems have "fst x < fst (xs ! j)" by auto
    then have "\<not> fst (xs ! j) < fst x" by (rule less_not_sym)
    with Suc Cons.IH [of j] Cons.prems show ?thesis by (auto simp: case_prod_unfold)
  qed
qed

text \<open>The position a scan has reached is named by the key of the last entry it returned.\<close>

definition scan_cursor :: "entry list \<Rightarrow> nat \<Rightarrow> bytes" where
  "scan_cursor xs i = (if i = 0 then [] else fst (xs ! (i - 1)))"

lemma page_of_drop:
  "page_of limit (drop i xs) = (take (max 1 limit) (drop i xs),
     if i + max 1 limit < length xs then Some (scan_cursor xs (i + max 1 limit)) else None)"
  by (auto simp: page_of_def Let_def scan_cursor_def)

section \<open>Reading all pages\<close>

text \<open>
  What a paged source promises a scan: from the cursor of position \<open>i\<close> it returns the next
  \<open>n\<close> items and, while there are more, the cursor of position \<open>i + n\<close>. Then the paging loop
  terminates and does exactly what a single pass over all items would do, early returns
  included, for every loop body that keeps what the source depends on.
\<close>

locale paged_source =
  fixes fetch :: "bytes \<Rightarrow> ('s, 'x list \<times> bytes option) kv"
    and cursor :: "nat \<Rightarrow> bytes" and items :: "'x list" and n :: nat and steady :: "'s \<Rightarrow> bool"
  assumes page_pos: "0 < n"
    and fetch_page: "steady s \<Longrightarrow> i \<le> length items \<Longrightarrow> fetch (cursor i) s =
      (Inr (take n (drop i items), if i + n < length items then Some (cursor (i + n)) else None), s)"
begin

lemma loop_run_pages:
  fixes f :: "'x \<Rightarrow> 'a \<Rightarrow> ('s, ('a, 'r) control_flow) kv"
  assumes keep: "\<And>x acc s. x \<in> set items \<Longrightarrow> steady s \<Longrightarrow> steady (snd (f x acc s))"
    and "steady s" and "i \<le> length items"
  shows "loop_run (\<lambda>(start_key, acc). and_then (fetch start_key) (\<lambda>(page, next_key).
       if page = [] then ret (Break (Continue acc))
       else and_then (for_each f page acc) (\<lambda>flow. case flow of
           Break r \<Rightarrow> ret (Break (Break r))
         | Continue acc' \<Rightarrow> (case next_key of
               Some k \<Rightarrow> ret (Continue (k, acc'))
             | None \<Rightarrow> ret (Break (Continue acc')))))) (cursor i, acc) s
    = Some (for_each f (drop i items) acc s)" (is "loop_run ?body _ _ = _")
  using assms(2,3)
proof (induction "length items - i" arbitrary: i acc s rule: less_induct)
  case less
  let ?page = "take n (drop i items)"
  show ?case
  proof (cases "drop i items = []")
    case True
    then have "?body (cursor i, acc) s = (Inr (Break (Continue acc)), s)"
      by (simp add: and_then_def fetch_page [OF less.prems])
    then show ?thesis using True by (simp add: loop_run_break)
  next
    case False
    then have ne: "?page \<noteq> []" using page_pos by simp
    have split: "for_each f (drop i items) acc = and_then (for_each f ?page acc) (\<lambda>c. case c of
        Break r \<Rightarrow> ret (Break r) | Continue a \<Rightarrow> for_each f (drop n (drop i items)) a)"
      by (metis append_take_drop_id for_each_append)
    have stable_page: "steady (snd (for_each f ?page acc s))"
      by (rule for_each_inv [where steady = steady and f = f and A = "set items"])
        (auto simp: keep less.prems(1) dest: in_set_takeD in_set_dropD)
    obtain r s' where run: "for_each f ?page acc s = (r, s')" by (cases "for_each f ?page acc s")
    have body: "?body (cursor i, acc) s = and_then (for_each f ?page acc) (\<lambda>flow. case flow of
           Break r \<Rightarrow> ret (Break (Break r))
         | Continue acc' \<Rightarrow> (case (if i + n < length items then Some (cursor (i + n)) else None) of
               Some k \<Rightarrow> ret (Continue (k, acc'))
             | None \<Rightarrow> ret (Break (Continue acc')))) s"
      by (simp only: case_prod_conv if_not_P [OF ne]
          and_then_Inr [where m = "fetch (cursor i)", OF fetch_page [OF less.prems]])
    show ?thesis
    proof (cases r)
      case (Inl e)
      with run body show ?thesis unfolding split by (simp add: and_then_Inl loop_run_fail)
    next
      case (Inr c)
      show ?thesis
      proof (cases c)
        case (Break b)
        with Inr run body show ?thesis unfolding split by (simp add: and_then_Inr loop_run_break)
      next
        case (Continue a)
        show ?thesis
        proof (cases "i + n < length items")
          case True
          have "?body (cursor i, acc) s = (Inr (Continue (cursor (i + n), a)), s')"
            unfolding body using run Inr Continue True by (simp add: and_then_Inr)
          moreover have "loop_run ?body (cursor (i + n), a) s' = Some (for_each f (drop (i + n) items) a s')"
            using less.hyps [of "i + n" s' a] True page_pos stable_page run by simp
          ultimately show ?thesis
            unfolding split using run Inr Continue
            by (simp add: loop_run_continue and_then_Inr add.commute)
        next
          case False
          then have "drop n (drop i items) = []" by simp
          with False show ?thesis
            unfolding split using run Inr Continue body
            by (simp add: and_then_Inr loop_run_break)
        qed
      qed
    qed
  qed
qed

lemma scan_pages_eq:
  fixes f :: "'x \<Rightarrow> 'a \<Rightarrow> ('s, ('a, 'r) control_flow) kv"
  assumes "\<And>x acc s. x \<in> set items \<Longrightarrow> steady s \<Longrightarrow> steady (snd (f x acc s))" and "steady s"
  shows "scan_pages fetch (cursor 0) (for_each f) acc s = for_each f items acc s"
  using loop_run_pages [where f = f and i = 0 and acc = acc, OF assms]
  unfolding scan_pages_def by (intro kv_loop_Some) (simp add: case_prod_unfold)

text \<open>A source whose items are translated one by one.\<close>

lemma mapped_source:
  assumes "\<And>start s xs k. steady s \<Longrightarrow> fetch start s = (Inr (xs, k), s) \<Longrightarrow> set xs \<subseteq> set items \<Longrightarrow> fetch' start s = (Inr (map h xs, k), s)"
  shows "paged_source fetch' cursor (map h items) n steady"
proof
  fix s i assume s: "steady s" and "i \<le> length (map h items)"
  then have "fetch (cursor i) s = (Inr (take n (drop i items), if i + n < length items then Some (cursor (i + n)) else None), s)"
    by (intro fetch_page) simp_all
  moreover have "set (take n (drop i items)) \<subseteq> set items" by (meson order_trans set_drop_subset set_take_subset)
  ultimately show "fetch' (cursor i) s = (Inr (take n (drop i (map h items)),
      if i + n < length (map h items) then Some (cursor (i + n)) else None), s)"
    using assms [OF s] by (simp add: take_map drop_map)
qed (rule page_pos)

end

section \<open>What the engine relies on and what it promises\<close>

locale rocksdb_contract =
  fixes R :: "'db rocksdb" and view :: "'db \<Rightarrow> string \<Rightarrow> bytes \<rightharpoonup> bytes"
  assumes has_cf: "cf \<in> set ALL_CFS \<Longrightarrow> r_has_cf R d cf"
    and get_view: "cf \<in> set ALL_CFS \<Longrightarrow> r_get R d cf k = Inr (view d cf k)"
    and put_view: "cf \<in> set ALL_CFS \<Longrightarrow>
      \<exists>d'. r_put R d cf k v = Inr d' \<and> view d' = (view d)(cf := (view d cf)(k \<mapsto> v))"
    and delete_view: "cf \<in> set ALL_CFS \<Longrightarrow>
      \<exists>d'. r_delete R d cf k = Inr d' \<and> view d' = (view d)(cf := (view d cf)(k := None))"
    and write_view: "(\<forall>op \<in> set ops. op_cf op \<in> set ALL_CFS) \<Longrightarrow>
      \<exists>d'. r_write R d ops = Inr d' \<and> view d' = fold apply_op ops (view d)"
    and finite_view: "finite (dom (view d cf))"
    and iter_start: "cf \<in> set ALL_CFS \<Longrightarrow> r_iter R d cf Start = map Inr (entries (view d cf))"
    and iter_forward: "cf \<in> set ALL_CFS \<Longrightarrow> r_iter R d cf (From k Forward) =
      map Inr (filter (\<lambda>(x, _). k \<le> x) (entries (view d cf)))"
    and iter_reverse: "cf \<in> set ALL_CFS \<Longrightarrow> r_iter R d cf (From k Reverse) =
      map Inr (rev (filter (\<lambda>(x, _). x \<le> k) (entries (view d cf))))"
    and prefix_iter: "cf \<in> set ALL_CFS \<Longrightarrow> r_prefix_iter R d cf p =
      map Inr (filter (\<lambda>(x, _). p \<le> x) (entries (view d cf)))"
begin

lemma cf_handle_ok: "cf \<in> set ALL_CFS \<Longrightarrow> cf_handle R cf s = (Inr cf, s)"
  by (simp add: cf_handle_def has_cf)

lemma storage_get_ok: "cf \<in> set ALL_CFS \<Longrightarrow> storage_get R cf k s = (Inr (view (db s) cf k), s)"
  by (simp add: storage_get_def and_then_Inr [OF cf_handle_ok] get_view)

lemma storage_put_ok:
  assumes "cf \<in> set ALL_CFS"
  obtains d where "storage_put R cf k v s = (Inr (), s\<lparr>db := d\<rparr>)"
    and "view d = (view (db s))(cf := (view (db s) cf)(k \<mapsto> v))"
  using put_view [OF assms, of "db s" k v] that
  by (auto simp: storage_put_def and_then_Inr [OF cf_handle_ok [OF assms]] commit_def)

lemma storage_delete_ok:
  assumes "cf \<in> set ALL_CFS"
  obtains d where "storage_delete R cf k s = (Inr (), s\<lparr>db := d\<rparr>)"
    and "view d = (view (db s))(cf := (view (db s) cf)(k := None))"
  using delete_view [OF assms, of "db s" k] that
  by (auto simp: storage_delete_def and_then_Inr [OF cf_handle_ok [OF assms]] commit_def)

lemma storage_write_ok:
  assumes "\<forall>op \<in> set ops. op_cf op \<in> set ALL_CFS"
  obtains d where "storage_write R ops s = (Inr (), s\<lparr>db := d\<rparr>)"
    and "view d = fold apply_op ops (view (db s))"
  using write_view [OF assms, of "db s"] that by (auto simp: storage_write_def commit_def)

lemma batch_put_ok:
  "cf \<in> set ALL_CFS \<Longrightarrow> batch_put R b cf k v s = (Inr (b @ [Put cf k v]), s)"
  by (simp add: batch_put_def and_then_Inr [OF cf_handle_ok])

lemma batch_delete_ok:
  "cf \<in> set ALL_CFS \<Longrightarrow> batch_delete R b cf k s = (Inr (b @ [Delete cf k]), s)"
  by (simp add: batch_delete_def and_then_Inr [OF cf_handle_ok])

lemma prefix_collect_eq:
  "prefix_collect p (map Inr xs) result = Inr (result @ takeWhile (\<lambda>(k, _). prefix p k) xs)"
  by (induction xs arbitrary: result) auto

lemma prefix_scan_ok:
  assumes "cf \<in> set ALL_CFS"
  shows "prefix_scan R cf p s = (Inr (scan_entries (view (db s) cf) p), s)"
proof -
  have "filter (\<lambda>(k, _). p \<le> k) (scan_entries (view (db s) cf) p) = scan_entries (view (db s) cf) p"
    by (rule filter_True) (auto simp: scan_entries_def dest: prefix_le)
  with assms show ?thesis
    using scan_entries_from [of "\<lambda>k. p \<le> k" p "view (db s) cf"]
    by (simp add: prefix_scan_def and_then_Inr [OF cf_handle_ok] prefix_iter prefix_collect_eq)
qed

lemma full_scan_ok:
  assumes "cf \<in> set ALL_CFS"
  shows "full_scan R cf s = (Inr (entries (view (db s) cf)), s)"
proof -
  have "collect_items (map Inr xs) = Inr xs" for xs by (induction xs) simp_all
  with assms show ?thesis
    by (simp add: full_scan_def and_then_Inr [OF cf_handle_ok] iter_start)
qed

lemma prefix_scan_page_first:
  "cf \<in> set ALL_CFS \<Longrightarrow> with_capacity_ok limit \<Longrightarrow> prefix_scan_page R cf p [] limit s
     = (Inr (page_of limit (scan_entries (view (db s) cf) p)), s)"
  by (simp add: prefix_scan_page_def and_then_Inr [OF cf_handle_ok] prefix_iter page_from_prefix)

lemma prefix_scan_page_Panic:
  "cf \<in> set ALL_CFS \<Longrightarrow> \<not> with_capacity_ok limit \<Longrightarrow> prefix_scan_page R cf p start limit s = (Inl Panic, s)"
  by (simp add: prefix_scan_page_def and_then_Inr [OF cf_handle_ok])

lemma prefix_scan_page_next:
  "cf \<in> set ALL_CFS \<Longrightarrow> with_capacity_ok limit \<Longrightarrow> p \<le> start \<Longrightarrow> start \<noteq> [] \<Longrightarrow> prefix_scan_page R cf p start limit s
     = (Inr (page_of limit (filter (\<lambda>(k, _). start < k) (scan_entries (view (db s) cf) p))), s)"
  by (simp add: prefix_scan_page_def and_then_Inr [OF cf_handle_ok] iter_forward page_from_start)

end

text \<open>
  Paged prefix scans as a paged source. The empty byte string marks the start of a scan, so
  it must not itself be a key under the prefix; the program never writes an empty key.
\<close>

definition scan_state :: "('db \<Rightarrow> string \<Rightarrow> bytes \<rightharpoonup> bytes) \<Rightarrow> string \<Rightarrow> bytes \<Rightarrow> nat \<Rightarrow> (bytes \<rightharpoonup> bytes)
    \<Rightarrow> ('db, 'x) world_scheme \<Rightarrow> bool" where
  "scan_state view cf p limit m s \<longleftrightarrow> cf \<in> set ALL_CFS \<and> with_capacity_ok limit \<and> view (db s) cf = m \<and> (p \<noteq> [] \<or> m [] = None)"

sublocale rocksdb_contract \<subseteq> pages: paged_source "\<lambda>start. prefix_scan_page R cf p start limit"
    "scan_cursor (scan_entries m p)" "scan_entries m p" "max 1 limit"
    "scan_state view cf p limit m" for cf p limit m
proof
  show "0 < max 1 limit" by simp
next
  fix s :: "('db, 'x) world_scheme" and i
  assume st: "scan_state view cf p limit m s" and i: "i \<le> length (scan_entries m p)"
  let ?xs = "scan_entries m p"
  from st have cf: "cf \<in> set ALL_CFS" "with_capacity_ok limit" and m: "m = view (db s) cf" by (auto simp: scan_state_def)
  show "prefix_scan_page R cf p (scan_cursor ?xs i) limit s =
    (Inr (take (max 1 limit) (drop i ?xs),
      if i + max 1 limit < length ?xs then Some (scan_cursor ?xs (i + max 1 limit)) else None), s)"
  proof (cases i)
    case 0
    then show ?thesis
      using prefix_scan_page_first [OF cf, of p s] page_of_drop [of limit 0 ?xs]
      by (simp add: scan_cursor_def m)
  next
    case (Suc j)
    let ?k = "fst (?xs ! j)"
    have "?xs ! j \<in> set ?xs" using i Suc by simp
    then have k: "m ?k \<noteq> None" "prefix p ?k"
      using set_scan_entries [of m ?k "snd (?xs ! j)" p] finite_view [of "db s" cf] by (auto simp: m)
    then have "?k \<noteq> []" "p \<le> ?k" using st by (auto simp: scan_state_def prefix_le)
    then show ?thesis
      using prefix_scan_page_next [OF cf, of p ?k s] page_of_drop [of limit i ?xs]
        filter_after_nth [OF strict_sorted_scan_entries, of j m p] i Suc
      by (simp add: scan_cursor_def m)
  qed
qed

context rocksdb_contract
begin

lemma scan_all_pages:
  fixes f :: "entry \<Rightarrow> 'a \<Rightarrow> (('db, 'x) world_scheme, ('a, 'r) control_flow) kv"
  assumes "cf \<in> set ALL_CFS" and "p \<noteq> [] \<or> view (db s) cf [] = None" and "with_capacity_ok limit"
    and "\<And>x acc t. x \<in> set (scan_entries (view (db s) cf) p) \<Longrightarrow> db t = db s \<Longrightarrow> db (snd (f x acc t)) = db s"
  shows "scan_pages (\<lambda>start. prefix_scan_page R cf p start limit) [] (for_each f) acc s
    = for_each f (scan_entries (view (db s) cf) p) acc s"
proof -
  have src: "paged_source (\<lambda>start. prefix_scan_page R cf p start limit)
      (scan_cursor (scan_entries (view (db s) cf) p)) (scan_entries (view (db s) cf) p) (max 1 limit)
      (\<lambda>t :: ('db, 'x) world_scheme. db t = db s)"
  proof
    fix t :: "('db, 'x) world_scheme" and i
    assume "db t = db s" "i \<le> length (scan_entries (view (db s) cf) p)"
    with assms(1-3) show "prefix_scan_page R cf p (scan_cursor (scan_entries (view (db s) cf) p) i) limit t =
        (Inr (take (max 1 limit) (drop i (scan_entries (view (db s) cf) p)),
          if i + max 1 limit < length (scan_entries (view (db s) cf) p)
          then Some (scan_cursor (scan_entries (view (db s) cf) p) (i + max 1 limit)) else None), t)"
      by (intro pages.fetch_page) (auto simp: scan_state_def)
  qed simp
  show ?thesis
    using paged_source.scan_pages_eq [OF src, of f s acc] assms(4) by (simp add: scan_cursor_def)
qed

end

section \<open>Scans backwards and from a key\<close>

lemma takeWhile_prefix_rev:
  assumes "sorted_wrt (<) ks" and "\<forall>k \<in> set ks. k < start" and "prefix p (start :: bytes)"
  shows "takeWhile (prefix p) (rev ks) = rev (filter (prefix p) ks)"
  using assms(1,2)
proof (induction ks rule: rev_induct)
  case (snoc k ks)
  have ih: "takeWhile (prefix p) (rev ks) = rev (filter (prefix p) ks)"
    using snoc by (auto simp: sorted_wrt_append)
  show ?case
  proof (cases "prefix p k")
    case True
    with ih show ?thesis by simp
  next
    case False
    have "k < p"
    proof (rule ccontr)
      assume "\<not> k < p"
      then have "p \<le> k" "k \<le> start" using snoc.prems(2) by auto
      with assms(3) False show False by (meson prefix_convex prefix_order.refl)
    qed
    then have "\<forall>x \<in> set ks. \<not> prefix p x"
      using snoc.prems(1) by (force simp: sorted_wrt_append dest: prefix_le)
    then have "filter (prefix p) ks = []" by (simp add: filter_empty_conv)
    with False show ?thesis by simp
  qed
qed simp

lemma filter_before_nth:
  assumes "sorted_wrt (>) (map fst xs)" and "i < length xs"
  shows "filter (\<lambda>(k, _). (k :: bytes) < fst (xs ! i)) xs = drop (Suc i) xs"
  using assms
proof (induction xs arbitrary: i)
  case (Cons x xs)
  show ?case
  proof (cases i)
    case 0
    with Cons.prems(1) show ?thesis by (auto simp: filter_id_conv case_prod_unfold)
  next
    case (Suc j)
    with Cons.prems have "fst (xs ! j) < fst x" by auto
    then have "\<not> fst x < fst (xs ! j)" by (rule less_not_sym)
    with Suc Cons.IH [of j] Cons.prems show ?thesis by (auto simp: case_prod_unfold)
  qed
qed simp

text \<open>A page of a reverse scan from a start key with the prefix: the entries before that key, from the last one.\<close>

lemma scan_entries_before:
  assumes "prefix p start"
  shows "takeWhile (\<lambda>(k, _). prefix p k) (rev (filter (\<lambda>(k, _). k < start) (entries m)))
    = rev (filter (\<lambda>(k, _). k < start) (scan_entries m p))"
proof -
  let ?f = "\<lambda>k. (k, the (m k))" and ?ks = "filter (\<lambda>k. k < start) (sorted_list_of_set (dom m))"
  have "takeWhile (prefix p) (rev ?ks) = rev (filter (prefix p) ?ks)"
    by (rule takeWhile_prefix_rev [OF _ _ assms]) (auto simp: sorted_wrt_filter)
  then have "map ?f (takeWhile (prefix p) (rev ?ks)) = map ?f (rev (filter (prefix p) ?ks))" by simp
  then show ?thesis
    by (simp add: entries_def scan_entries_def filter_map takeWhile_map comp_def filter_filter conj_commute rev_map)
qed

lemma filter_le_eq_snoc:
  assumes "sorted_wrt (<) (map fst xs)"
  shows "filter (\<lambda>(k, _). k \<le> start) xs = filter (\<lambda>(k, _). k < start) xs
     \<or> (\<exists>v. filter (\<lambda>(k, _). k \<le> start) xs = filter (\<lambda>(k, _). k < (start :: bytes)) xs @ [(start, v)])"
  using assms
proof (induction xs)
  case (Cons x xs)
  obtain k v where x: "x = (k, v)" by (cases x)
  from Cons.prems have ih: "sorted_wrt (<) (map fst xs)" and lt: "\<forall>y \<in> set xs. k < fst y" by (auto simp: x)
  show ?case
  proof (cases "k < start")
    case True
    with Cons.IH [OF ih] x show ?thesis by auto
  next
    case False
    then have "\<forall>y \<in> set xs. start < fst y" using lt by (meson le_less_trans not_le)
    then have none: "filter (\<lambda>(k, _). k \<le> start) xs = []" "filter (\<lambda>(k, _). k < start) xs = []"
      by (auto simp: filter_empty_conv case_prod_unfold)
    show ?thesis
    proof (cases "k = start")
      case True
      with none x show ?thesis by simp
    next
      case False
      with \<open>\<not> k < start\<close> none x show ?thesis by auto
    qed
  qed
qed simp

lemma page_before:
  assumes "prefix p start"
  shows "finish_page p limit (page_loop p start limit (map Inr (rev (filter (\<lambda>(k, _). k \<le> start) (entries m)))) [] None True)
    = Inr (page_of limit (rev (filter (\<lambda>(k, _). k < start) (scan_entries m p))))"
proof -
  let ?le = "filter (\<lambda>(k, _). k \<le> start) (entries m)" and ?lt = "filter (\<lambda>(k, _). k < start) (entries m)"
  have loop: "page_loop p start limit (map Inr (rev ?le)) [] None True = page_loop p start limit (map Inr (rev ?lt)) [] None False"
    using filter_le_eq_snoc [OF strict_sorted_entries, of start m]
  proof (elim disjE exE)
    assume eq: "?le = ?lt"
    have "start \<notin> fst ` set (rev ?lt)" by auto
    then show ?thesis unfolding eq by (rule page_loop_first)
  next
    fix v assume "?le = ?lt @ [(start, v)]"
    then show ?thesis by (simp add: page_loop_skip)
  qed
  show ?thesis
    unfolding loop using scan_entries_before [OF assms, of m] by (simp add: finish_page_loop page_of_def Let_def)
qed

lemma page_before_upper:
  assumes "p \<noteq> []" and "sorted_wrt (>) (map fst xs)"
  shows "finish_page p limit (page_loop p [] limit (map Inr xs) [] None True)
    = finish_page p limit (page_loop p [] limit (map Inr xs) [] None False)"
proof (cases xs)
  case (Cons x ys)
  obtain k v where x: "x = (k, v)" by (cases x)
  show ?thesis
  proof (cases "k = []")
    case True
    then have "ys = []" using assms(2) Cons x by (cases ys) auto
    with True Cons x assms(1) show ?thesis by (simp add: finish_page_def)
  next
    case False
    with Cons x show ?thesis by simp
  qed
qed simp

text \<open>A reverse scan without a start key begins at the prefix followed by eight bytes 255: it visits every
  entry if all keys with the prefix are below that.\<close>

definition reverse_bounded :: "(bytes \<rightharpoonup> bytes) \<Rightarrow> bytes \<Rightarrow> bool" where
  "reverse_bounded m p \<longleftrightarrow> (\<forall>k. m k \<noteq> None \<and> prefix p k \<longrightarrow> k < p @ replicate 8 0xFF)"

context rocksdb_contract
begin

lemma prefix_scan_page_reverse_next:
  "cf \<in> set ALL_CFS \<Longrightarrow> with_capacity_ok limit \<Longrightarrow> prefix p start \<Longrightarrow> start \<noteq> [] \<Longrightarrow> prefix_scan_page_reverse R cf p start limit s
     = (Inr (page_of limit (rev (filter (\<lambda>(k, _). k < start) (scan_entries (view (db s) cf) p)))), s)"
  by (simp add: prefix_scan_page_reverse_def and_then_Inr [OF cf_handle_ok] iter_reverse page_before)

lemma reverse_bounded_all:
  assumes "reverse_bounded (view d cf) p"
  shows "filter (\<lambda>(k, _). k < p @ replicate 8 0xFF) (scan_entries (view d cf) p) = scan_entries (view d cf) p"
  using assms by (intro filter_True) (auto simp: reverse_bounded_def set_scan_entries [OF finite_view])

lemma prefix_scan_page_reverse_upper:
  assumes "cf \<in> set ALL_CFS" and "with_capacity_ok limit" and "reverse_bounded (view (db s) cf) p"
  shows "prefix_scan_page_reverse R cf p (p @ replicate 8 0xFF) limit s = (Inr (page_of limit (rev (scan_entries (view (db s) cf) p))), s)"
  using prefix_scan_page_reverse_next [OF assms(1,2), of p "p @ replicate 8 0xFF" s] reverse_bounded_all [OF assms(3)] by simp

lemma prefix_scan_page_reverse_first:
  assumes "cf \<in> set ALL_CFS" and "with_capacity_ok limit" and "reverse_bounded (view (db s) cf) p" and "p \<noteq> []"
  shows "prefix_scan_page_reverse R cf p [] limit s = (Inr (page_of limit (rev (scan_entries (view (db s) cf) p))), s)"
proof -
  let ?m = "view (db s) cf" and ?u = "p @ replicate 8 0xFF"
  let ?le = "filter (\<lambda>(k, _). k \<le> ?u) (entries ?m)" and ?lt = "filter (\<lambda>(k, _). k < ?u) (entries ?m)"
  have "?m ?u = None" using assms(3) by (auto simp: reverse_bounded_def)
  then have "?le = ?lt" by (intro filter_cong) (auto simp: set_entries [OF finite_view] order_le_less)
  moreover have "sorted_wrt (>) (map fst (rev ?lt))"
  proof -
    have "map fst ?lt = filter (\<lambda>k. k < ?u) (map fst (entries ?m))" by (simp add: filter_map comp_def case_prod_unfold)
    then show ?thesis using strict_sorted_entries [of ?m] by (simp add: rev_map [symmetric] sorted_wrt_rev sorted_wrt_filter)
  qed
  note upper = page_before_upper [OF assms(4) this, of limit]
  ultimately show ?thesis
    using assms(1,2) scan_entries_before [of p ?u ?m] reverse_bounded_all [OF assms(3)]
    by (simp add: prefix_scan_page_reverse_def and_then_Inr [OF cf_handle_ok] iter_reverse upper finish_page_loop page_of_def Let_def)
qed

text \<open>Reading all pages backwards. The first page may be fetched with the upper bound itself as the start key.\<close>

lemma reverse_source:
  fixes s :: "('db, 'x) world_scheme"
  assumes "cf \<in> set ALL_CFS" and "p \<noteq> []" and "reverse_bounded (view (db s) cf) p"
    and "\<And>start. start \<noteq> [] \<Longrightarrow> fetch start = prefix_scan_page_reverse R cf p start limit"
    and "fetch [] = prefix_scan_page_reverse R cf p start0 limit" and "start0 = [] \<or> start0 = p @ replicate 8 0xFF"
    and "with_capacity_ok limit"
  shows "paged_source fetch (scan_cursor (rev (scan_entries (view (db s) cf) p))) (rev (scan_entries (view (db s) cf) p)) (max 1 limit)
    (\<lambda>t :: ('db, 'x) world_scheme. db t = db s)"
proof -
  let ?xs = "scan_entries (view (db s) cf) p"
  have desc: "sorted_wrt (>) (map fst (rev ?xs))"
    using strict_sorted_scan_entries [of "view (db s) cf" p] by (simp add: rev_map [symmetric] sorted_wrt_rev)
  show ?thesis
  proof
    fix t :: "('db, 'x) world_scheme" and i
    assume t: "db t = db s" and i: "i \<le> length (rev ?xs)"
    have "fetch (scan_cursor (rev ?xs) i) t = (Inr (page_of limit (drop i (rev ?xs))), t)"
    proof (cases i)
      case 0
      then show ?thesis
        using prefix_scan_page_reverse_upper [of cf limit t p] prefix_scan_page_reverse_first [of cf limit t p] assms(1-3,5-7) t
        by (auto simp: scan_cursor_def)
    next
      case (Suc j)
      let ?k = "fst (rev ?xs ! j)"
      have "rev ?xs ! j \<in> set (rev ?xs)" using i Suc by (intro nth_mem) simp
      then have "(?k, snd (rev ?xs ! j)) \<in> set ?xs" by simp
      then have k: "prefix p ?k" using set_scan_entries [OF finite_view] by blast
      then have "?k \<noteq> []" using assms(2) by auto
      moreover have "rev (filter (\<lambda>(x, _). x < ?k) ?xs) = drop i (rev ?xs)"
        using filter_before_nth [OF desc, of j] i Suc by (simp add: rev_filter [symmetric])
      ultimately show ?thesis
        using prefix_scan_page_reverse_next [OF assms(1,7) k, of t] assms(4) [of ?k] t Suc by (simp add: scan_cursor_def)
    qed
    then show "fetch (scan_cursor (rev ?xs) i) t = (Inr (take (max 1 limit) (drop i (rev ?xs)),
        if i + max 1 limit < length (rev ?xs) then Some (scan_cursor (rev ?xs) (i + max 1 limit)) else None), t)"
      by (simp only: page_of_drop)
  qed simp
qed

text \<open>Reading all pages from a start key: the entries behind that key.\<close>

lemma from_key_source:
  fixes s :: "('db, 'x) world_scheme"
  assumes "cf \<in> set ALL_CFS" and "prefix p start" and "p \<noteq> []" and "xs = filter (\<lambda>(k, _). start < k) (scan_entries (view (db s) cf) p)"
    and "with_capacity_ok limit"
  shows "paged_source (\<lambda>start. prefix_scan_page R cf p start limit) (\<lambda>i. if i = 0 then start else fst (xs ! (i - 1))) xs (max 1 limit)
    (\<lambda>t :: ('db, 'x) world_scheme. db t = db s)"
proof -
  let ?all = "scan_entries (view (db s) cf) p"
  let ?xs = "filter (\<lambda>(k, _). start < k) ?all"
  let ?cursor = "\<lambda>i. if i = 0 then start else fst (?xs ! (i - 1))"
  have "map fst ?xs = filter (\<lambda>k. start < k) (map fst ?all)" by (simp add: filter_map comp_def case_prod_unfold)
  then have asc: "sorted_wrt (<) (map fst ?xs)" using strict_sorted_scan_entries [of "view (db s) cf" p] by (simp add: sorted_wrt_filter)
  have start: "p \<le> start" "start \<noteq> []" using assms(2,3) by (auto dest: prefix_le)
  show ?thesis
    unfolding assms(4)
  proof
    fix t :: "('db, 'x) world_scheme" and i
    assume t: "db t = db s" and i: "i \<le> length ?xs"
    have "prefix_scan_page R cf p (?cursor i) limit t = (Inr (page_of limit (drop i ?xs)), t)"
    proof (cases i)
      case 0
      then show ?thesis using prefix_scan_page_next [OF assms(1,5) start, of t] t by simp
    next
      case (Suc j)
      let ?k = "fst (?xs ! j)"
      have "?xs ! j \<in> set ?xs" using i Suc by (intro nth_mem) simp
      then have "(?k, snd (?xs ! j)) \<in> set ?all" "start < ?k" by auto
      then have k: "p \<le> ?k" "?k \<noteq> []" "start < ?k" using start by auto
      have "filter (\<lambda>(x, _). ?k < x) ?all = filter (\<lambda>(x, _). ?k < x) ?xs"
        using k(3) by (auto simp: filter_filter intro!: filter_cong)
      also have "\<dots> = drop i ?xs" using filter_after_nth [OF asc, of j] i Suc by simp
      finally show ?thesis using prefix_scan_page_next [OF assms(1,5) k(1,2), of t] t Suc by simp
    qed
    then show "prefix_scan_page R cf p (?cursor i) limit t = (Inr (take (max 1 limit) (drop i ?xs),
        if i + max 1 limit < length ?xs then Some (?cursor (i + max 1 limit)) else None), t)"
      unfolding page_of_drop by (simp add: scan_cursor_def)
  qed simp
qed

end

section \<open>Counting and deleting by prefix\<close>

lemma fold_apply_Delete:
  "fold apply_op (map (\<lambda>(k, _). Delete cf k) xs) m = m(cf := (m cf) |` (- fst ` set xs))"
proof (induction xs arbitrary: m)
  case Nil
  show ?case by (simp add: restrict_map_def)
next
  case (Cons x xs)
  then show ?case by (cases x) (auto simp: fun_eq_iff restrict_map_def)
qed

lemma entries_restrict:
  assumes "finite (dom m)"
  shows "entries (m |` A) = filter (\<lambda>(k, _). k \<in> A) (entries m)"
proof -
  have "sorted_list_of_set (dom m \<inter> A) = filter (\<lambda>k. k \<in> A) (sorted_list_of_set (dom m))"
    using assms by (intro sorted_distinct_set_unique) (auto simp: sorted_wrt_filter)
  then show ?thesis
    by (auto simp: entries_def filter_map comp_def)
qed

lemma scan_entries_restrict:
  "finite (dom m) \<Longrightarrow> scan_entries (m |` A) p = filter (\<lambda>(k, _). k \<in> A) (scan_entries m p)"
  by (simp add: scan_entries_def entries_restrict filter_filter case_prod_unfold conj_commute)

text \<open>The entries under a prefix that a scan has still to visit after a start key.\<close>

definition remaining :: "(bytes \<rightharpoonup> bytes) \<Rightarrow> bytes \<Rightarrow> bytes \<Rightarrow> entry list" where
  "remaining m p start = (if start = [] then scan_entries m p
     else filter (\<lambda>(k, _). start < k) (scan_entries m p))"

lemma remaining_sorted: "sorted_wrt (<) (map fst (remaining m p start))"
proof -
  have "map fst (filter (\<lambda>(k, _). q k) xs) = filter q (map fst xs)" for q and xs :: "entry list"
    by (simp add: filter_map comp_def case_prod_unfold)
  then show ?thesis
    using strict_sorted_scan_entries [of m p] by (simp add: remaining_def sorted_wrt_filter)
qed

lemma set_remaining: "finite (dom m) \<Longrightarrow> (k, v) \<in> set (remaining m p start)
    \<longleftrightarrow> m k = Some v \<and> prefix p k \<and> (start = [] \<or> start < k)"
  by (auto simp: remaining_def set_scan_entries)

lemma remaining_after_delete:
  assumes "finite (dom m)" and "i < length (remaining m p start)" and "p \<noteq> [] \<or> m [] = None"
  defines "k \<equiv> fst (remaining m p start ! i)"
  shows "remaining (m |` (- fst ` set (take (Suc i) (remaining m p start)))) p k
    = drop (Suc i) (remaining m p start)" (is "remaining (m |` (- ?K)) p k = _")
proof -
  let ?G = "remaining m p start"
  have k: "(k, snd (?G ! i)) \<in> set ?G" using assms(2) by (simp add: k_def)
  then have in_m: "m k \<noteq> None" "prefix p k" and after: "start = [] \<or> start < k"
    using assms(1) by (auto simp: set_remaining)
  then have ne: "k \<noteq> []" using assms(3) by (auto simp: k_def)
  have K: "x \<le> k" if "x \<in> ?K" for x
  proof -
    from that obtain y where "y \<in> set (take (Suc i) ?G)" "x = fst y" by blast
    then obtain j where j: "j \<le> i" "x = fst (?G ! j)"
      using assms(2) by (auto simp: in_set_conv_nth less_Suc_eq_le)
    then show ?thesis
      using remaining_sorted [of m p start] assms(2)
      by (cases "j = i") (auto simp: k_def sorted_wrt_iff_nth_less less_le)
  qed
  have "k < x \<Longrightarrow> x \<in> - ?K" for x using K [of x] by (simp only: Compl_iff) (meson leD)
  then have "remaining (m |` (- ?K)) p k = filter (\<lambda>(x, _). k < x) (scan_entries m p)"
    using assms(1) ne unfolding remaining_def [of _ p k]
    by (auto simp: scan_entries_restrict intro!: filter_cong)
  also have "\<dots> = filter (\<lambda>(x, _). k < x) ?G"
    using after by (auto simp: remaining_def intro!: filter_cong)
  also have "\<dots> = drop (Suc i) ?G"
    unfolding k_def by (rule filter_after_nth [OF remaining_sorted assms(2)])
  finally show ?thesis .
qed

context rocksdb_contract
begin

lemma prefix_scan_page_remaining:
  assumes "cf \<in> set ALL_CFS" and "with_capacity_ok limit" and "start = [] \<or> prefix p start"
  shows "prefix_scan_page R cf p start limit s = (Inr (page_of limit (remaining (view (db s) cf) p start)), s)"
  using assms prefix_scan_page_first [of cf limit p s] prefix_scan_page_next [of cf limit p start s]
  by (auto simp: remaining_def dest: prefix_le)

lemma delete_prefix_loop:
  fixes s :: "('db, 'x) world_scheme"
  assumes cf: "cf \<in> set ALL_CFS" "with_capacity_ok limit" and "p \<noteq> [] \<or> view (db s) cf [] = None" and "start = [] \<or> prefix p start"
  shows "\<exists>d. loop_run (\<lambda>start_key. and_then (prefix_scan_page R cf p start_key limit) (\<lambda>(items, next_key).
       if items = [] then ret (Break ())
       else and_then (storage_write R (map (\<lambda>(k, _). Delete cf k) items)) (\<lambda>_.
         case next_key of Some k \<Rightarrow> ret (Continue k) | None \<Rightarrow> ret (Break ())))) start s
       = Some (Inr (), s\<lparr>db := d\<rparr>)
    \<and> view d = (view (db s))(cf := (view (db s) cf) |` (- fst ` set (remaining (view (db s) cf) p start)))"
    (is "\<exists>d. loop_run ?body start s = _ \<and> _")
  using assms(3,4)
proof (induction "length (remaining (view (db s) cf) p start)" arbitrary: start s rule: less_induct)
  case less
  let ?m = "view (db s) cf"
  let ?G = "remaining ?m p start" and ?n = "max 1 limit"
  note page = and_then_Inr [where m = "prefix_scan_page R cf p start limit",
      OF prefix_scan_page_remaining [OF cf less.prems(2), of s]]
  show ?case
  proof (cases "?G = []")
    case True
    then have "?body start s = (Inr (Break ()), s)" by (simp add: page page_of_def)
    moreover have "(view (db s))(cf := ?m |` (- fst ` set ?G)) = view (db s)"
      using True by (auto simp: restrict_map_def)
    ultimately show ?thesis by (intro exI [of _ "db s"]) (simp add: loop_run_break)
  next
    case False
    let ?items = "take ?n ?G"
    have ops: "\<forall>op \<in> set (map (\<lambda>(k, _). Delete cf k) ?items). op_cf op \<in> set ALL_CFS"
      using cf by auto
    obtain d where w: "storage_write R (map (\<lambda>(k, _). Delete cf k) ?items) s = (Inr (), s\<lparr>db := d\<rparr>)"
      and d: "view d = (view (db s))(cf := ?m |` (- fst ` set ?items))"
      using storage_write_ok [OF ops, of s] by (auto simp: fold_apply_Delete)
    have ne: "fst (page_of limit ?G) \<noteq> []" and items: "fst (page_of limit ?G) = ?items"
      using False by (auto simp: page_of_def Let_def)
    have body: "?body start s = (case snd (page_of limit ?G) of
        Some k \<Rightarrow> (Inr (Continue k), s\<lparr>db := d\<rparr>) | None \<Rightarrow> (Inr (Break ()), s\<lparr>db := d\<rparr>))"
      by (simp only: page case_prod_unfold if_not_P [OF ne], simp only: items
          and_then_Inr [where m = "storage_write R (map (\<lambda>x. Delete cf (fst x)) ?items)",
            OF w [unfolded case_prod_unfold]])
        (simp split: option.split)
    show ?thesis
    proof (cases "?n < length ?G")
      case False
      then have "?body start s = (Inr (Break ()), s\<lparr>db := d\<rparr>)" unfolding body by (simp add: page_of_def Let_def)
      with d False show ?thesis by (intro exI [of _ d]) (simp add: loop_run_break)
    next
      case True
      let ?k = "fst (?G ! (?n - 1))" and ?s = "s\<lparr>db := d\<rparr>"
      have Suc: "Suc (?n - 1) = ?n" by simp
      have step: "?body start s = (Inr (Continue ?k), ?s)" unfolding body using True by (simp add: page_of_def Let_def)
      have lt_n: "?n - 1 < length ?G" using True by linarith
      then have "?G ! (?n - 1) \<in> set ?G" by (rule nth_mem)
      then have pk: "prefix p ?k" using set_remaining [of ?m ?k "snd (?G ! (?n - 1))" p start] finite_view by simp
      have dcf: "view (db ?s) cf = ?m |` (- fst ` set ?items)" by (simp add: d)
      have rem: "remaining (view (db ?s) cf) p ?k = drop ?n ?G"
        using remaining_after_delete [OF finite_view lt_n less.prems(1)] unfolding dcf Suc .
      have ne: "p \<noteq> [] \<or> view (db ?s) cf [] = None"
        unfolding dcf using less.prems(1) by (auto simp: restrict_map_def)
      have lt: "length (remaining (view (db ?s) cf) p ?k) < length ?G" unfolding rem using lt_n by (auto simp: max_def)
      obtain d' where run: "loop_run ?body ?k ?s = Some (Inr (), ?s\<lparr>db := d'\<rparr>)"
        and d': "view d' = (view (db ?s))(cf := view (db ?s) cf |` (- fst ` set (drop ?n ?G)))"
        using less.hyps [OF lt ne disjI2 [OF pk]] unfolding rem by blast
      have "set ?G = set ?items \<union> set (drop ?n ?G)" by (metis append_take_drop_id set_append)
      then have "view d' = (view (db s))(cf := ?m |` (- fst ` set ?G))"
        unfolding d' by (simp add: d image_Un Int_commute)
      moreover have "loop_run ?body start s = loop_run ?body ?k ?s"
        using step by (rule loop_run_continue [where body = ?body])
      ultimately show ?thesis using run by (intro exI [of _ d']) simp
    qed
  qed
qed

lemma delete_prefix_ok:
  fixes s :: "('db, 'x) world_scheme"
  assumes cf: "cf \<in> set ALL_CFS" and "with_capacity_ok limit" and "p \<noteq> [] \<or> view (db s) cf [] = None"
  obtains d where "delete_prefix R cf p limit s = (Inr (), s\<lparr>db := d\<rparr>)"
    and "view d = (view (db s))(cf := (view (db s) cf) |` {k. \<not> prefix p k})"
proof -
  let ?m = "view (db s) cf"
  obtain d where run: "delete_prefix R cf p limit s = (Inr (), s\<lparr>db := d\<rparr>)"
    and d: "view d = (view (db s))(cf := ?m |` (- fst ` set (remaining ?m p [])))"
    using delete_prefix_loop [OF assms, of "[]"]
    by (auto simp: delete_prefix_def and_then_Inr [OF cf_handle_ok [OF cf]] intro: kv_loop_Some)
  have "?m |` (- fst ` set (remaining ?m p [])) = ?m |` {k. \<not> prefix p k}"
  proof
    fix k
    show "(?m |` (- fst ` set (remaining ?m p []))) k = (?m |` {k. \<not> prefix p k}) k"
      using set_remaining [OF finite_view [of "db s" cf], of k _ p "[]"]
      by (cases "?m k") (auto simp: restrict_map_def image_iff Bex_def)
  qed
  with d run that show ?thesis by simp
qed

lemma delete_prefix_Panic:
  assumes "cf \<in> set ALL_CFS" and "\<not> with_capacity_ok limit"
  shows "delete_prefix R cf p limit s = (Inl Panic, s)"
  unfolding delete_prefix_def and_then_Inr [where m = "cf_handle R cf", OF cf_handle_ok [OF assms(1)]]
  by (rule kv_loop_Inl) (simp add: and_then_Inl [where m = "prefix_scan_page R cf p [] limit", OF prefix_scan_page_Panic [OF assms]])

lemma scan_pages_Panic:
  assumes "cf \<in> set ALL_CFS" and "\<not> with_capacity_ok limit"
  shows "scan_pages (\<lambda>start. prefix_scan_page R cf p start limit) start body acc s = (Inl Panic, s)"
  unfolding scan_pages_def
  by (rule kv_loop_Inl) (simp add: and_then_Inl [where m = "prefix_scan_page R cf p start limit", OF prefix_scan_page_Panic [OF assms]])

lemma count_prefix_ok:
  assumes "cf \<in> set ALL_CFS"
  shows "count_prefix R cf p s = (Inr (word_of_nat (length (scan_entries (view (db s) cf) p))), s)"
proof -
  have count: "prefix_count p (map Inr xs) c = Inr (c + word_of_nat (length (takeWhile (\<lambda>(k, _). prefix p k) xs)))"
    for xs c by (induction xs arbitrary: c) auto
  have "filter (\<lambda>(k, _). p \<le> k) (scan_entries (view (db s) cf) p) = scan_entries (view (db s) cf) p"
    by (rule filter_True) (auto simp: scan_entries_def dest: prefix_le)
  with assms show ?thesis
    using scan_entries_from [of "\<lambda>k. p \<le> k" p "view (db s) cf"]
    by (simp add: count_prefix_def and_then_Inr [OF cf_handle_ok] prefix_iter count)
qed

end

section \<open>Symbolic execution\<close>

text \<open>
  The worlds the writing operations lead to, and one rule per operation that replaces it by
  its effect. With these rules a handler is evaluated by rewriting.
\<close>

definition put_world :: "'db rocksdb \<Rightarrow> string \<Rightarrow> bytes \<Rightarrow> bytes \<Rightarrow> ('db, 'x) world_scheme \<Rightarrow> ('db, 'x) world_scheme" where
  "put_world R cf k v s = snd (storage_put R cf k v s)"

definition delete_world :: "'db rocksdb \<Rightarrow> string \<Rightarrow> bytes \<Rightarrow> ('db, 'x) world_scheme \<Rightarrow> ('db, 'x) world_scheme" where
  "delete_world R cf k s = snd (storage_delete R cf k s)"

definition write_world :: "'db rocksdb \<Rightarrow> batch_op list \<Rightarrow> ('db, 'x) world_scheme \<Rightarrow> ('db, 'x) world_scheme" where
  "write_world R ops s = snd (storage_write R ops s)"

definition purge_world :: "'db rocksdb \<Rightarrow> string \<Rightarrow> bytes \<Rightarrow> nat \<Rightarrow> ('db, 'x) world_scheme \<Rightarrow> ('db, 'x) world_scheme" where
  "purge_world R cf p n s = snd (delete_prefix R cf p n s)"

lemma ALL_CFS_simps [simp]: "CF_DEFAULT \<in> set ALL_CFS" "CF_METADATA \<in> set ALL_CFS"
    "CF_SUBKEY \<in> set ALL_CFS" "CF_ZSET_SCORE \<in> set ALL_CFS" "CF_PUBSUB \<in> set ALL_CFS"
  by (simp_all add: ALL_CFS_def)

lemma CF_distinct [simp]:
  "CF_METADATA \<noteq> CF_SUBKEY" "CF_SUBKEY \<noteq> CF_METADATA" "CF_METADATA \<noteq> CF_ZSET_SCORE"
  "CF_ZSET_SCORE \<noteq> CF_METADATA" "CF_SUBKEY \<noteq> CF_ZSET_SCORE" "CF_ZSET_SCORE \<noteq> CF_SUBKEY"
  by (simp_all add: CF_METADATA_def CF_SUBKEY_def CF_ZSET_SCORE_def)

context rocksdb_contract
begin

lemma put_world_db:
  assumes "cf \<in> set ALL_CFS"
  shows "storage_put R cf k v s = (Inr (), put_world R cf k v s)"
    and "view (db (put_world R cf k v s)) = (view (db s))(cf := (view (db s) cf)(k \<mapsto> v))"
    and "clock (put_world R cf k v s) = clock s" and "rng (put_world R cf k v s) = rng s"
    and "world.more (put_world R cf k v s) = world.more s"
  by (rule storage_put_ok [OF assms, of k v s]; simp add: put_world_def)+

lemma delete_world_db:
  assumes "cf \<in> set ALL_CFS"
  shows "storage_delete R cf k s = (Inr (), delete_world R cf k s)"
    and "view (db (delete_world R cf k s)) = (view (db s))(cf := (view (db s) cf)(k := None))"
    and "clock (delete_world R cf k s) = clock s" and "rng (delete_world R cf k s) = rng s"
    and "world.more (delete_world R cf k s) = world.more s"
  by (rule storage_delete_ok [OF assms, of k s]; simp add: delete_world_def)+

lemma write_world_db:
  assumes "\<forall>op \<in> set ops. op_cf op \<in> set ALL_CFS"
  shows "storage_write R ops s = (Inr (), write_world R ops s)"
    and "view (db (write_world R ops s)) = fold apply_op ops (view (db s))"
    and "clock (write_world R ops s) = clock s" and "rng (write_world R ops s) = rng s"
    and "world.more (write_world R ops s) = world.more s"
  by (rule storage_write_ok [OF assms, of s]; simp add: write_world_def)+

lemma purge_world_db:
  assumes "cf \<in> set ALL_CFS" and "p \<noteq> []" and "with_capacity_ok n"
  shows "delete_prefix R cf p n s = (Inr (), purge_world R cf p n s)"
    and "view (db (purge_world R cf p n s)) = (view (db s))(cf := view (db s) cf |` {k. \<not> prefix p k})"
    and "clock (purge_world R cf p n s) = clock s" and "rng (purge_world R cf p n s) = rng s"
    and "world.more (purge_world R cf p n s) = world.more s"
  by (rule delete_prefix_ok [where s = s and limit = n, OF assms(1,3) disjI1 [OF assms(2)]]; simp add: purge_world_def)+

lemmas world_db = put_world_db(2-) delete_world_db(2-) write_world_db(2-) purge_world_db(2-)

lemma run_get [kv_run]:
  "cf \<in> set ALL_CFS \<Longrightarrow> and_then (storage_get R cf k) f s = f (view (db s) cf k) s"
  by (simp add: and_then_def storage_get_ok)

lemma run_put [kv_run]:
  "cf \<in> set ALL_CFS \<Longrightarrow> and_then (storage_put R cf k v) f s = f () (put_world R cf k v s)"
  by (simp add: and_then_def put_world_db)

lemma run_delete [kv_run]:
  "cf \<in> set ALL_CFS \<Longrightarrow> and_then (storage_delete R cf k) f s = f () (delete_world R cf k s)"
  by (simp add: and_then_def delete_world_db)

lemma run_write [kv_run]:
  "\<forall>op \<in> set ops. op_cf op \<in> set ALL_CFS \<Longrightarrow>
   and_then (storage_write R ops) f s = f () (write_world R ops s)"
  by (simp add: and_then_def write_world_db)

lemma run_batch_put [kv_run]:
  "cf \<in> set ALL_CFS \<Longrightarrow> and_then (batch_put R b cf k v) f s = f (b @ [Put cf k v]) s"
  by (simp add: and_then_def batch_put_ok)

lemma run_batch_delete [kv_run]:
  "cf \<in> set ALL_CFS \<Longrightarrow> and_then (batch_delete R b cf k) f s = f (b @ [Delete cf k]) s"
  by (simp add: and_then_def batch_delete_ok)

lemma run_delete_prefix [kv_run]:
  "cf \<in> set ALL_CFS \<Longrightarrow> p \<noteq> [] \<Longrightarrow> with_capacity_ok n \<Longrightarrow>
   and_then (delete_prefix R cf p n) f s = f () (purge_world R cf p n s)"
  by (simp add: and_then_def purge_world_db)

end

end
