(* ===== verification/Mem_Store.thy ===== *)
theory Mem_Store
  imports Kv_Storage
begin

text \<open>
  An in-memory store that meets the RocksDB contract. It shows that the contract can hold and
  is the concrete database on which the theorems about the storage and command layers are
  instantiated. A state is an association list keyed by column family and key.
\<close>

type_synonym mem = "((string \<times> bytes) \<times> bytes) list"

definition mem_view :: "mem \<Rightarrow> string \<Rightarrow> bytes \<rightharpoonup> bytes" where
  "mem_view d cf k = map_of d (cf, k)"

definition mem_delete :: "mem \<Rightarrow> string \<Rightarrow> bytes \<Rightarrow> mem" where
  "mem_delete d cf k = filter (\<lambda>x. fst x \<noteq> (cf, k)) d"

definition mem_put :: "mem \<Rightarrow> string \<Rightarrow> bytes \<Rightarrow> bytes \<Rightarrow> mem" where
  "mem_put d cf k v = ((cf, k), v) # mem_delete d cf k"

fun mem_apply :: "batch_op \<Rightarrow> mem \<Rightarrow> mem" where
  "mem_apply (Put cf k v) d = mem_put d cf k v"
| "mem_apply (Delete cf k) d = mem_delete d cf k"

definition mem_entries :: "mem \<Rightarrow> string \<Rightarrow> entry list" where
  "mem_entries d cf = map (\<lambda>k. (k, the (map_of d (cf, k))))
     (sort (remdups (map (snd \<circ> fst) (filter (\<lambda>x. fst (fst x) = cf) d))))"

fun mem_iter :: "mem \<Rightarrow> string \<Rightarrow> iterator_mode \<Rightarrow> (string + entry) list" where
  "mem_iter d cf Start = map Inr (mem_entries d cf)"
| "mem_iter d cf (From k Forward) = map Inr (filter (\<lambda>(x, _). k \<le> x) (mem_entries d cf))"
| "mem_iter d cf (From k Reverse) = map Inr (rev (filter (\<lambda>(x, _). x \<le> k) (mem_entries d cf)))"

definition mem_store :: "mem rocksdb" where
  "mem_store = \<lparr>
     r_has_cf = (\<lambda>d cf. cf \<in> set ALL_CFS),
     r_get = (\<lambda>d cf k. Inr (mem_view d cf k)),
     r_put = (\<lambda>d cf k v. Inr (mem_put d cf k v)),
     r_delete = (\<lambda>d cf k. Inr (mem_delete d cf k)),
     r_write = (\<lambda>d ops. Inr (fold mem_apply ops d)),
     r_iter = mem_iter,
     r_prefix_iter = (\<lambda>d cf p. mem_iter d cf (From p Forward))\<rparr>"

lemma mem_view_delete: "mem_view (mem_delete d cf k) = (mem_view d)(cf := (mem_view d cf)(k := None))"
proof (rule ext, rule ext)
  fix cf' k'
  show "mem_view (mem_delete d cf k) cf' k' = ((mem_view d)(cf := (mem_view d cf)(k := None))) cf' k'"
    by (induction d) (auto simp: mem_view_def mem_delete_def)
qed

lemma mem_view_put: "mem_view (mem_put d cf k v) = (mem_view d)(cf := (mem_view d cf)(k \<mapsto> v))"
proof -
  have "mem_view (((cf, k), v) # e) = (mem_view e)(cf := (mem_view e cf)(k \<mapsto> v))" for e
    by (auto simp: mem_view_def fun_eq_iff)
  then show ?thesis by (simp add: mem_put_def mem_view_delete)
qed

lemma mem_view_write: "mem_view (fold mem_apply ops d) = fold apply_op ops (mem_view d)"
proof (induction ops arbitrary: d)
  case (Cons x ops)
  have "mem_view (mem_apply x d) = apply_op x (mem_view d)"
    by (cases x) (simp_all only: mem_apply.simps apply_op.simps mem_view_put mem_view_delete)
  with Cons.IH [of "mem_apply x d"] show ?case by simp
qed simp

lemma dom_mem_view: "dom (mem_view d cf) = set (map (snd \<circ> fst) (filter (\<lambda>x. fst (fst x) = cf) d))"
proof -
  have "dom (mem_view d cf) = {k. (cf, k) \<in> fst ` set d}"
    by (auto simp: mem_view_def dom_def map_of_eq_None_iff simp flip: not_None_eq)
  also have "\<dots> = set (map (snd \<circ> fst) (filter (\<lambda>x. fst (fst x) = cf) d))"
    by (force simp: image_iff)
  finally show ?thesis .
qed

lemma entries_mem_view: "entries (mem_view d cf) = mem_entries d cf"
  unfolding entries_def mem_entries_def dom_mem_view sorted_list_of_set_sort_remdups
  by (simp add: mem_view_def)

interpretation mem: rocksdb_contract mem_store mem_view
  by unfold_locales
    (simp_all add: mem_store_def mem_view_put mem_view_delete mem_view_write entries_mem_view,
     simp add: dom_mem_view)

section \<open>Properties of the storage engine\<close>

text \<open>C4: Paged scans. Reading a non-empty prefix page by page, with any page size whose page fits into
  \<open>isize::MAX\<close> bytes (48 bytes an entry) and going on from the last key of each page, terminates and
  processes exactly the entries that one unpaged prefix scan returns, each once and in key order,
  whatever the loop body does with the rest of the world and also when it returns early. With a larger
  page size the scan panics on its first page, before it has read an entry.\<close>

theorem paged_scan_eq_scan:
  fixes s :: "('db, 'x) world_scheme"
    and f :: "entry \<Rightarrow> 'a \<Rightarrow> (('db, 'x) world_scheme, ('a, 'r) control_flow) kv"
  assumes "rocksdb_contract R view" and "cf \<in> set ALL_CFS" and "p \<noteq> []"
    and "\<And>x acc t. db t = db s \<Longrightarrow> db (snd (f x acc t)) = db s"
  shows "scan_pages (\<lambda>start. prefix_scan_page R cf p start limit) [] (for_each f) acc s
    = (if limit * 48 < 2 ^ 63 then and_then (prefix_scan R cf p) (\<lambda>items. for_each f items acc) s else (Inl Panic, s))"
  unfolding and_then_Inr [where m = "prefix_scan R cf p" and s = s, OF rocksdb_contract.prefix_scan_ok [OF assms(1,2)]]
  using rocksdb_contract.scan_all_pages [OF assms(1,2), of p s limit f acc]
    rocksdb_contract.scan_pages_Panic [OF assms(1,2), of limit p "[]" "for_each f" acc s] assms(3,4) by (simp add: with_capacity_ok_def)

theorem paged_scan_eq_scan_witness:
  "scan_pages (\<lambda>start. prefix_scan_page mem_store CF_SUBKEY [1] start 1) []
      (for_each (\<lambda>(k, v) acc. ret (Continue (acc @ [v])))) []
      \<lparr>db = [((CF_SUBKEY, [1, 2]), [20]), ((CF_SUBKEY, [1]), [10]), ((CF_SUBKEY, [2]), [30])],
        clock = \<lambda>_. 0, rng = \<lambda>_. 0\<rparr>
   = (Inr (Continue [[10], [20]]) :: failure + (bytes list, unit) control_flow,
      \<lparr>db = [((CF_SUBKEY, [1, 2]), [20]), ((CF_SUBKEY, [1]), [10]), ((CF_SUBKEY, [2]), [30])],
        clock = \<lambda>_. 0, rng = \<lambda>_. 0\<rparr>)"
proof -
  let ?d = "[((CF_SUBKEY, [1, 2]), [20]), ((CF_SUBKEY, [1]), [10]), ((CF_SUBKEY, [2]), [30])] :: mem"
  have "scan_entries (mem_view ?d CF_SUBKEY) [1] = [([1], [10]), ([1, 2], [20])]"
    by (simp add: scan_entries_def entries_mem_view mem_entries_def)
  then show ?thesis
    using paged_scan_eq_scan [OF mem.rocksdb_contract_axioms, of CF_SUBKEY "[1]" "\<lparr>db = ?d, clock = \<lambda>_. 0, rng = \<lambda>_. 0\<rparr>"
        "\<lambda>(k, v) acc. ret (Continue (acc @ [v]))" 1 "[]"]
    by (simp add: and_then_Inr [where m = "prefix_scan mem_store CF_SUBKEY [1]", OF mem.prefix_scan_ok] split_beta)
qed

text \<open>C5: Prefix deletion. For every batch size whose page fits into \<open>isize::MAX\<close> bytes (48 bytes an
  entry), \<open>delete_prefix\<close> on a non-empty prefix terminates without an error, removes exactly the keys
  with the prefix from the column family, and changes nothing else in the database. With a larger batch
  size it panics and leaves the database as it was.\<close>

theorem delete_prefix_exact:
  fixes s :: "('db, 'x) world_scheme"
  assumes "rocksdb_contract R view" and "cf \<in> set ALL_CFS" and "p \<noteq> []"
  shows "fst (delete_prefix R cf p batch_size s) = (if batch_size * 48 < 2 ^ 63 then Inr () else Inl Panic)
    \<and> (\<forall>cf' k. view (db (snd (delete_prefix R cf p batch_size s))) cf' k
         = (if batch_size * 48 < 2 ^ 63 \<and> cf' = cf \<and> prefix p k then None else view (db s) cf' k))"
proof (cases "with_capacity_ok batch_size")
  case True
  with rocksdb_contract.purge_world_db [OF assms True, of s] show ?thesis
    by (simp add: restrict_map_def with_capacity_ok_def)
next
  case False
  with rocksdb_contract.delete_prefix_Panic [OF assms(1,2) False, of p s] show ?thesis
    by (simp add: with_capacity_ok_def)
qed

theorem delete_prefix_exact_witness:
  "mem_view (db (snd (delete_prefix mem_store CF_SUBKEY [1] 1
     \<lparr>db = [((CF_SUBKEY, [1, 2]), [20]), ((CF_SUBKEY, [2]), [30])], clock = \<lambda>_. 0, rng = \<lambda>_. 0\<rparr>))) CF_SUBKEY [1, 2] = None
   \<and> mem_view (db (snd (delete_prefix mem_store CF_SUBKEY [1] 1
     \<lparr>db = [((CF_SUBKEY, [1, 2]), [20]), ((CF_SUBKEY, [2]), [30])], clock = \<lambda>_. 0, rng = \<lambda>_. 0\<rparr>))) CF_SUBKEY [2] = Some [30]"
  using delete_prefix_exact [OF mem.rocksdb_contract_axioms, of CF_SUBKEY "[1]" 1
      "\<lparr>db = [((CF_SUBKEY, [1, 2]), [20]), ((CF_SUBKEY, [2]), [30])], clock = \<lambda>_. 0, rng = \<lambda>_. 0\<rparr>"]
  by (simp add: mem_view_def)

end
