(* ===== verification/Rust_Std.thy ===== *)
theory Rust_Std
  imports Kv_Prelude "HOL-Library.Signed_Division"
begin

text \<open>
  The parts of Rust's standard library that the command layer relies on: \<open>str::parse\<close> and
  \<open>to_string\<close> on integers, ASCII case conversion, and UTF-8 validation with the replacement
  rule of \<open>String::from_utf8_lossy\<close>. The integer parsers work on bytes: every call site maps a
  UTF-8 error and a number error to the same value, and no string that is not UTF-8 parses.
\<close>

section \<open>ASCII\<close>

definition ascii_upper :: "u8 \<Rightarrow> u8" where
  "ascii_upper b = (if 97 \<le> b \<and> b \<le> 122 then b - 32 else b)"

definition to_ascii_uppercase :: "bytes \<Rightarrow> bytes" where
  "to_ascii_uppercase bs = map ascii_upper bs"

definition eq_ignore_ascii_case :: "bytes \<Rightarrow> bytes \<Rightarrow> bool" where
  "eq_ignore_ascii_case xs ys \<longleftrightarrow> to_ascii_uppercase xs = to_ascii_uppercase ys"

lemma ascii_upper_idem [simp]: "ascii_upper (ascii_upper b) = ascii_upper b"
proof (cases "97 \<le> b \<and> b \<le> 122")
  case True
  then have "97 \<le> unat b" and "unat b \<le> 122" by (simp_all add: word_le_nat_alt)
  moreover from this have "unat (b - 32) = unat b - 32"
    by (subst unat_sub) (simp_all add: word_le_nat_alt)
  ultimately have "\<not> 97 \<le> b - 32" by (simp add: word_le_nat_alt)
  with True show ?thesis by (simp add: ascii_upper_def)
next
  case False
  then have "ascii_upper b = b" by (auto simp: ascii_upper_def)
  then show ?thesis by simp
qed

lemma to_ascii_uppercase_idem [simp]: "to_ascii_uppercase (to_ascii_uppercase bs) = to_ascii_uppercase bs"
  by (simp add: to_ascii_uppercase_def)

section \<open>Integers as text\<close>

fun dec_digits :: "nat \<Rightarrow> bytes" where
  "dec_digits n = (if n < 10 then [of_nat (48 + n)]
     else dec_digits (n div 10) @ [of_nat (48 + n mod 10)])"

declare dec_digits.simps [simp del]

fun digits_value :: "nat \<Rightarrow> bytes \<Rightarrow> nat option" where
  "digits_value acc [] = Some acc"
| "digits_value acc (b # bs) =
     (if 48 \<le> b \<and> b \<le> 57 then digits_value (acc * 10 + (unat b - 48)) bs else None)"

definition parse_nat :: "bytes \<Rightarrow> nat option" where
  "parse_nat bs = (if bs = [] then None else digits_value 0 bs)"

definition parse_unsigned :: "nat \<Rightarrow> bytes \<Rightarrow> nat option" where
  "parse_unsigned bound bs =
     (case parse_nat (if bs \<noteq> [] \<and> hd bs = 43 then tl bs else bs) of
        None \<Rightarrow> None
      | Some n \<Rightarrow> if n < bound then Some n else None)"

definition str_parse_u64 :: "bytes \<Rightarrow> u64 option" where
  "str_parse_u64 bs = map_option of_nat (parse_unsigned (2 ^ 64) bs)"

definition str_parse_usize :: "bytes \<Rightarrow> nat option" where
  "str_parse_usize bs = parse_unsigned (2 ^ 64) bs"

definition str_parse_u16 :: "bytes \<Rightarrow> u16 option" where
  "str_parse_u16 bs = map_option of_nat (parse_unsigned (2 ^ 16) bs)"

definition str_parse_i64 :: "bytes \<Rightarrow> i64 option" where
  "str_parse_i64 bs =
     (if bs \<noteq> [] \<and> hd bs = 45
      then (case parse_nat (tl bs) of None \<Rightarrow> None
            | Some n \<Rightarrow> if n \<le> 2 ^ 63 then Some (- of_nat n) else None)
      else map_option of_nat (parse_unsigned (2 ^ 63) bs))"

definition u64_to_string :: "u64 \<Rightarrow> bytes" where
  "u64_to_string w = dec_digits (unat w)"

definition i64_to_string :: "i64 \<Rightarrow> bytes" where
  "i64_to_string w = (if sint w < 0 then 45 # dec_digits (nat (- sint w))
     else dec_digits (nat (sint w)))"

lemma digits_value_append:
  "digits_value acc (xs @ ys) =
     (case digits_value acc xs of None \<Rightarrow> None | Some a \<Rightarrow> digits_value a ys)"
  by (induction xs arbitrary: acc) auto

lemma digit_byte:
  assumes "d < 10"
  shows "48 \<le> (of_nat (48 + d) :: u8) \<and> (of_nat (48 + d) :: u8) \<le> 57 \<and> unat (of_nat (48 + d) :: u8) = 48 + d"
proof -
  have "unat (of_nat (48 + d) :: u8) = 48 + d"
    using assms by (simp only: unat_of_nat) simp
  with assms show ?thesis by (simp add: word_le_nat_alt del: of_nat_add)
qed

lemma digits_value_dec_digits: "digits_value 0 (dec_digits n) = Some n"
proof (induction n rule: dec_digits.induct)
  case (1 n)
  show ?case
  proof (cases "n < 10")
    case True
    with digit_byte [OF True] show ?thesis
      by (subst dec_digits.simps) (simp del: of_nat_add)
  next
    case False
    with 1 have ih: "digits_value 0 (dec_digits (n div 10)) = Some (n div 10)" by simp
    have d: "n mod 10 < 10" by simp
    from False ih digit_byte [OF d] show ?thesis
      by (subst dec_digits.simps) (simp add: digits_value_append del: of_nat_add)
  qed
qed

lemma dec_digits_nonempty [simp]: "dec_digits n \<noteq> []"
  by (subst dec_digits.simps) simp

lemma dec_digits_digit: "b \<in> set (dec_digits n) \<Longrightarrow> 48 \<le> b \<and> b \<le> 57"
proof (induction n rule: dec_digits.induct)
  case (1 n)
  show ?case
  proof (cases "n < 10")
    case True
    with 1 digit_byte [OF True] show ?thesis by (simp add: dec_digits.simps [of n] del: of_nat_add)
  next
    case False
    have d: "n mod 10 < 10" by simp
    from False 1 digit_byte [OF d] show ?thesis
      by (auto simp add: dec_digits.simps [of n] simp del: of_nat_add)
  qed
qed

lemma hd_dec_digits: "48 \<le> hd (dec_digits n) \<and> hd (dec_digits n) \<le> 57"
  by (rule dec_digits_digit [of _ n]) simp

lemma hd_dec_digits_sign: "hd (dec_digits n) \<noteq> 43" "hd (dec_digits n) \<noteq> 45"
  using hd_dec_digits [of n] by (auto simp: word_le_nat_alt)

lemma parse_nat_dec_digits [simp]: "parse_nat (dec_digits n) = Some n"
  by (simp add: parse_nat_def digits_value_dec_digits)

lemma parse_unsigned_dec_digits [simp]: "n < bound \<Longrightarrow> parse_unsigned bound (dec_digits n) = Some n"
  by (simp add: parse_unsigned_def hd_dec_digits_sign)

lemma str_parse_u64_to_string [codec_simps, simp]: "str_parse_u64 (u64_to_string w) = Some w"
  using unat_u64_less [of w] by (simp add: str_parse_u64_def u64_to_string_def)

lemma sint_u64_range: "- (2 ^ 63) \<le> sint (w :: u64) \<and> sint w < 2 ^ 63"
  using sint_greater_eq [of w] sint_less [of w] by simp

lemma str_parse_i64_to_string [codec_simps, simp]: "str_parse_i64 (i64_to_string w) = Some w"
proof (cases "sint w < 0")
  case True
  let ?n = "nat (- sint w)"
  have "?n \<le> 2 ^ 63" using sint_u64_range [of w] by (simp add: nat_le_iff)
  moreover have "- of_nat ?n = w"
    using True by (simp add: of_nat_nat)
  ultimately show ?thesis
    using True by (simp add: str_parse_i64_def i64_to_string_def)
next
  case False
  let ?n = "nat (sint w)"
  have "?n < 2 ^ 63" using sint_u64_range [of w] False by simp
  moreover have "of_nat ?n = w"
    using False by (simp add: of_nat_nat)
  ultimately show ?thesis
    using False by (simp add: str_parse_i64_def i64_to_string_def hd_dec_digits_sign)
qed

section \<open>Slices\<close>

fun chunks_exact2 :: "'a list \<Rightarrow> ('a \<times> 'a) list" where
  "chunks_exact2 (x # y # zs) = (x, y) # chunks_exact2 zs"
| "chunks_exact2 zs = []"

section \<open>Signed arithmetic\<close>

text \<open>Addition, subtraction and multiplication on words wrap; these are the operations that do not.\<close>

definition i64_div :: "i64 \<Rightarrow> i64 \<Rightarrow> i64" where
  "i64_div a b = word_of_int (sint a sdiv sint b)"

definition i64_of_int :: "int \<Rightarrow> i64 option" where
  "i64_of_int n = (if - (2 ^ 63) \<le> n \<and> n < 2 ^ 63 then Some (word_of_int n) else None)"

definition checked_add :: "i64 \<Rightarrow> i64 \<Rightarrow> i64 option" where
  "checked_add a b = i64_of_int (sint a + sint b)"

definition checked_sub :: "i64 \<Rightarrow> i64 \<Rightarrow> i64 option" where
  "checked_sub a b = i64_of_int (sint a - sint b)"

definition saturating_sub :: "u64 \<Rightarrow> u64 \<Rightarrow> u64" where
  "saturating_sub a b = (if b \<le> a then a - b else 0)"

definition saturating_add :: "u64 \<Rightarrow> u64 \<Rightarrow> u64" where
  "saturating_add a b = (if unat a + unat b < 2 ^ 64 then a + b else - 1)"

lemma sint_word_of_int_i64: "- (2 ^ 63) \<le> n \<Longrightarrow> n < 2 ^ 63 \<Longrightarrow> sint (word_of_int n :: i64) = n"
  by (simp add: signed_of_int signed_take_bit_int_eq_self)

lemma i64_of_int_eq_Some: "i64_of_int n = Some w \<longleftrightarrow> sint w = n"
  using sint_u64_range [of w] sint_word_of_int_i64 [of n] by (auto simp: i64_of_int_def)

lemma i64_of_int_eq_None: "i64_of_int n = None \<longleftrightarrow> n < - (2 ^ 63) \<or> 2 ^ 63 \<le> n"
  by (auto simp: i64_of_int_def)

lemma i64_of_int_sint_add: "i64_of_int (sint a + sint b) =
    (if - (2 ^ 63) \<le> sint a + sint b \<and> sint a + sint b < 2 ^ 63 then Some (a + b) else None)"
proof -
  have "word_of_int (sint a + sint b) = a + b" by simp
  then show ?thesis by (simp only: i64_of_int_def)
qed

lemma i64_of_int_sint_diff: "i64_of_int (sint a - sint b) =
    (if - (2 ^ 63) \<le> sint a - sint b \<and> sint a - sint b < 2 ^ 63 then Some (a - b) else None)"
proof -
  have "word_of_int (sint a - sint b) = a - b" by simp
  then show ?thesis by (simp only: i64_of_int_def)
qed

text \<open>Flipping the sign bit turns the signed order into the unsigned one.\<close>

lemma sint_i64_uint: "sint (w :: i64) = uint w - of_bool (bit w 63) * 2 ^ 64"
proof -
  have "sint w = signed_take_bit 63 (uint w)" by (simp add: sint_uint)
  also have "\<dots> = take_bit 64 (uint w) - 2 ^ 64 * of_bool (bit (uint w) 63)"
    using signed_take_bit_eq_take_bit_minus [of 63 "uint w"] by simp
  also have "take_bit 64 (uint w) = uint w" using take_bit_int_eq_self_iff [of 64 "uint w"] uint_bounded [of w] by simp
  finally show ?thesis by (simp add: bit_uint_iff)
qed

lemma uint_flip_sign: "uint (w XOR push_bit 63 1 :: i64) = sint w + 2 ^ 63"
proof -
  have "uint (w XOR push_bit 63 1) = flip_bit 63 (uint w)"
    by (simp add: uint_xor flip_bit_eq_xor)
  also have "\<dots> = uint w + (if bit w 63 then - (2 ^ 63) else 2 ^ 63)"
    by (simp add: flip_bit_eq_if set_bit_eq unset_bit_eq bit_uint_iff)
  finally show ?thesis by (simp add: sint_i64_uint)
qed

lemma sint_1_i64 [simp]: "sint (1 :: i64) = 1"
  by (simp add: sint_word_of_int_i64 [of 1, simplified])

lemma checked_add_1: "checked_add n 1 = (if sint n = 2 ^ 63 - 1 then None else Some (n + 1))"
  using sint_u64_range [of n] unfolding checked_add_def i64_of_int_sint_add by auto

lemma checked_sub_1: "checked_sub n 1 = (if sint n = - (2 ^ 63) then None else Some (n - 1))"
  using sint_u64_range [of n] unfolding checked_sub_def i64_of_int_sint_diff by auto

lemma sint_add_1: "sint n \<noteq> 2 ^ 63 - 1 \<Longrightarrow> sint (n + 1 :: i64) = sint n + 1"
  using checked_add_1 [of n] i64_of_int_eq_Some [of "sint n + 1" "n + 1"] by (simp add: checked_add_def)

lemma sint_sub_1: "sint n \<noteq> - (2 ^ 63) \<Longrightarrow> sint (n - 1 :: i64) = sint n - 1"
  using checked_sub_1 [of n] i64_of_int_eq_Some [of "sint n - 1" "n - 1"] by (simp add: checked_sub_def)

lemma i64_eq_iff: "v = w \<longleftrightarrow> sint v = sint (w :: i64)"
  by (auto intro: signed_word_eqI)

lemma unat_saturating_sub: "unat (saturating_sub w 1) = unat w - 1"
  by (auto simp: saturating_sub_def word_le_nat_alt unat_sub not_le)

lemma saturating_sub_1: "Suc n \<le> unat w \<Longrightarrow> saturating_sub w 1 = w - 1 \<and> n \<le> unat (w - 1)"
  by (simp add: saturating_sub_def word_le_nat_alt unat_sub)

lemma sint_add_range: "- (2 ^ 63) \<le> sint a + sint b \<Longrightarrow> sint a + sint b < 2 ^ 63 \<Longrightarrow> sint (a + b :: i64) = sint a + sint b"
  using i64_of_int_sint_add [of a b] i64_of_int_eq_Some [of "sint a + sint b" "a + b"] by (simp split: if_splits)

lemma sint_diff_range: "- (2 ^ 63) \<le> sint a - sint b \<Longrightarrow> sint a - sint b < 2 ^ 63 \<Longrightarrow> sint (a - b :: i64) = sint a - sint b"
  using i64_of_int_sint_diff [of a b] i64_of_int_eq_Some [of "sint a - sint b" "a - b"] by (simp split: if_splits)

lemma unat_sint: "0 \<le> sint w \<Longrightarrow> unat (w :: i64) = nat (sint w)"
proof -
  assume nonneg: "0 \<le> sint w"
  have "uint w < 2 ^ 64" using uint_bounded [of w] by simp
  with nonneg have "\<not> bit w 63" using sint_i64_uint [of w] by (cases "bit w 63") simp_all
  then have "sint w = uint w" using sint_i64_uint [of w] by simp
  then show ?thesis by simp
qed

lemma sint_of_nat_i64: "n < 2 ^ 63 \<Longrightarrow> sint (of_nat n :: i64) = int n"
  using sint_word_of_int_i64 [of "int n"] by simp

section \<open>UTF-8\<close>

text \<open>
  One step of the UTF-8 decoder of the standard library at the head of a byte string: whether
  a valid sequence starts there and its length, or else how many bytes the maximal invalid
  part has. A byte past the end reads as 0, which continues no sequence.
\<close>

definition byte_at :: "bytes \<Rightarrow> nat \<Rightarrow> u8" where
  "byte_at bs i = (if i < length bs then bs ! i else 0)"

definition is_cont :: "u8 \<Rightarrow> bool" where
  "is_cont b \<longleftrightarrow> 0x80 \<le> b \<and> b \<le> 0xBF"

definition second_ok :: "u8 \<Rightarrow> u8 \<Rightarrow> bool" where
  "second_ok b c \<longleftrightarrow>
     (if b = 0xE0 then 0xA0 \<le> c \<and> c \<le> 0xBF
      else if b = 0xED then 0x80 \<le> c \<and> c \<le> 0x9F
      else if b = 0xF0 then 0x90 \<le> c \<and> c \<le> 0xBF
      else if b = 0xF4 then 0x80 \<le> c \<and> c \<le> 0x8F
      else is_cont c)"

definition utf8_step :: "bytes \<Rightarrow> bool \<times> nat" where
  "utf8_step bs = (let b = byte_at bs 0 in
     if b < 0x80 then (True, 1)
     else if 0xC2 \<le> b \<and> b \<le> 0xDF then
       (if is_cont (byte_at bs 1) then (True, 2) else (False, 1))
     else if 0xE0 \<le> b \<and> b \<le> 0xEF then
       (if \<not> second_ok b (byte_at bs 1) then (False, 1)
        else if \<not> is_cont (byte_at bs 2) then (False, 2)
        else (True, 3))
     else if 0xF0 \<le> b \<and> b \<le> 0xF4 then
       (if \<not> second_ok b (byte_at bs 1) then (False, 1)
        else if \<not> is_cont (byte_at bs 2) then (False, 2)
        else if \<not> is_cont (byte_at bs 3) then (False, 3)
        else (True, 4))
     else (False, 1))"

lemma utf8_step_pos: "(ok, n) = utf8_step bs \<Longrightarrow> 0 < n"
  by (auto simp: utf8_step_def Let_def split: if_splits)

function from_utf8_lossy :: "bytes \<Rightarrow> bytes" where
  "from_utf8_lossy bs = (if bs = [] then []
     else let (ok, n) = utf8_step bs
          in (if ok then take n bs else [0xEF, 0xBF, 0xBD]) @ from_utf8_lossy (drop n bs))"
  by auto
termination
  by (relation "measure length") (auto dest: utf8_step_pos)

function utf8_valid :: "bytes \<Rightarrow> bool" where
  "utf8_valid bs = (if bs = [] then True
     else let (ok, n) = utf8_step bs in ok \<and> utf8_valid (drop n bs))"
  by auto
termination
  by (relation "measure length") (auto dest: utf8_step_pos)

declare from_utf8_lossy.simps [simp del] utf8_valid.simps [simp del]

lemma from_utf8_lossy_valid: "utf8_valid bs \<Longrightarrow> from_utf8_lossy bs = bs"
proof (induction bs rule: utf8_valid.induct)
  case (1 bs)
  show ?case
  proof (cases "bs = []")
    case False
    obtain ok n where step: "utf8_step bs = (ok, n)" by (cases "utf8_step bs")
    with False 1 have "ok" "from_utf8_lossy (drop n bs) = drop n bs"
      by (auto simp: utf8_valid.simps [of bs])
    with False step show ?thesis by (simp add: from_utf8_lossy.simps [of bs])
  qed (simp add: from_utf8_lossy.simps)
qed

lemma utf8_valid_ascii: "\<forall>b \<in> set bs. b < 0x80 \<Longrightarrow> utf8_valid bs"
proof (induction bs)
  case Nil
  show ?case by (simp add: utf8_valid.simps)
next
  case (Cons b bs)
  then have "utf8_step (b # bs) = (True, 1)" by (simp add: utf8_step_def byte_at_def)
  with Cons show ?case by (simp add: utf8_valid.simps [of "b # bs"])
qed

end
