(* ===== verification/Rust_F64.thy ===== *)
theory Rust_F64
  imports Rust_Std
begin

text \<open>
  Rust's \<open>f64\<close> as its 64 bits (\<open>to_bits\<close>), with the operations the program uses: comparison,
  addition, \<open>str::parse\<close> and \<open>Display\<close>.

  The finite numbers are the multiples of the smallest one, \<open>2 ^ - 1074\<close>: \<open>units\<close> is that multiple
  for the 63 bits without the sign. IEEE rounding (to nearest, ties to even) of a fraction of
  units is then integer arithmetic, and because the bits of larger numbers are larger, the bits
  of the rounded number are the shift \<open>k\<close> times \<open>2 ^ 52\<close> plus the rounded mantissa, also when
  the mantissa is carried over to the next power of two.
\<close>

unbundle bit_operations_syntax

type_synonym f64 = "64 word"

section \<open>Definitions\<close>

definition f64_mag :: "f64 \<Rightarrow> nat" where
  "f64_mag b = unat b mod 2 ^ 63"

definition f64_neg :: "f64 \<Rightarrow> bool" where
  "f64_neg b \<longleftrightarrow> 2 ^ 63 \<le> unat b"

definition f64_make :: "bool \<Rightarrow> nat \<Rightarrow> f64" where
  "f64_make neg mag = of_nat ((if neg then 2 ^ 63 else 0) + mag)"

definition F64_INF :: nat where "F64_INF = 0x7FF0000000000000"
definition F64_NAN :: nat where "F64_NAN = 0x7FF8000000000000"

text \<open>The smallest number is \<open>2 ^ - F64_MIN_EXP\<close>.\<close>

definition F64_MIN_EXP :: nat where "F64_MIN_EXP = 1074"

definition is_nan :: "f64 \<Rightarrow> bool" where
  "is_nan b \<longleftrightarrow> F64_INF < f64_mag b"

definition is_finite :: "f64 \<Rightarrow> bool" where
  "is_finite b \<longleftrightarrow> f64_mag b < F64_INF"

text \<open>The order of the numbers: that of the 63 bits, mirrored for the negative ones. Both zeros are 0.\<close>

definition f64_rank :: "f64 \<Rightarrow> int" where
  "f64_rank b = (if f64_neg b then - int (f64_mag b) else int (f64_mag b))"

definition f64_lt :: "f64 \<Rightarrow> f64 \<Rightarrow> bool" where
  "f64_lt a b \<longleftrightarrow> \<not> is_nan a \<and> \<not> is_nan b \<and> f64_rank a < f64_rank b"

definition f64_le :: "f64 \<Rightarrow> f64 \<Rightarrow> bool" where
  "f64_le a b \<longleftrightarrow> \<not> is_nan a \<and> \<not> is_nan b \<and> f64_rank a \<le> f64_rank b"

definition f64_eq :: "f64 \<Rightarrow> f64 \<Rightarrow> bool" where
  "f64_eq a b \<longleftrightarrow> \<not> is_nan a \<and> \<not> is_nan b \<and> f64_rank a = f64_rank b"

definition units :: "nat \<Rightarrow> nat" where
  "units m = (if m < 2 ^ 52 then m else (2 ^ 52 + m mod 2 ^ 52) * 2 ^ (m div 2 ^ 52 - 1))"

definition round_half_even :: "nat \<Rightarrow> nat \<Rightarrow> nat" where
  "round_half_even num den = (let q = num div den; r = num mod den in
     if 2 * r < den \<or> 2 * r = den \<and> even q then q else q + 1)"

fun bit_length :: "nat \<Rightarrow> nat" where
  "bit_length n = (if n = 0 then 0 else Suc (bit_length (n div 2)))"

declare bit_length.simps [simp del]

text \<open>The 63 bits of the number nearest to \<open>num / den\<close> units.\<close>

definition f64_round :: "nat \<Rightarrow> nat \<Rightarrow> nat" where
  "f64_round num den = (let k = bit_length (num div den) - 53 in
     min F64_INF (k * 2 ^ 52 + round_half_even num (den * 2 ^ k)))"

text \<open>The sum: exact in units, then rounded. A sum of zero is positive, except for two negative zeros.\<close>

definition f64_add :: "f64 \<Rightarrow> f64 \<Rightarrow> f64" where
  "f64_add a b =
     (if is_nan a \<or> is_nan b then f64_make False F64_NAN
      else if \<not> is_finite a \<and> \<not> is_finite b \<and> f64_neg a \<noteq> f64_neg b then f64_make False F64_NAN
      else if \<not> is_finite a then a
      else if \<not> is_finite b then b
      else let sa = (if f64_neg a then - int (units (f64_mag a)) else int (units (f64_mag a)));
               sb = (if f64_neg b then - int (units (f64_mag b)) else int (units (f64_mag b)));
               s = sa + sb
           in f64_make (s < 0 \<or> s = 0 \<and> f64_neg a \<and> f64_neg b) (f64_round (nat \<bar>s\<bar>) 1))"

subsection \<open>Text to number\<close>

definition is_digit :: "u8 \<Rightarrow> bool" where
  "is_digit b \<longleftrightarrow> 48 \<le> b \<and> b \<le> 57"

definition dec_value :: "bytes \<Rightarrow> nat" where
  "dec_value ds = foldl (\<lambda>n d. n * 10 + (unat d - 48)) 0 ds"

text \<open>The value \<open>D * 10 ^ x\<close>, rounded.\<close>

definition f64_of_decimal :: "nat \<Rightarrow> int \<Rightarrow> nat" where
  "f64_of_decimal D x = f64_round (D * 10 ^ nat x * 2 ^ F64_MIN_EXP) (10 ^ nat (- x))"

text \<open>The exponent stops growing beyond \<open>0x10000\<close>, as in the library.\<close>

definition exp_value :: "bytes \<Rightarrow> nat" where
  "exp_value ds = foldl (\<lambda>e d. if e < 0x10000 then e * 10 + (unat d - 48) else e) 0 ds"

definition split_sign :: "bytes \<Rightarrow> bool \<times> bytes" where
  "split_sign s = (case s of
      [] \<Rightarrow> (False, [])
    | b # t \<Rightarrow> if b = 45 then (True, t) else if b = 43 then (False, t) else (False, s))"

definition parse_exponent :: "bytes \<Rightarrow> int option" where
  "parse_exponent s = (case split_sign s of (neg, ds) \<Rightarrow>
     if ds = [] \<or> \<not> list_all is_digit ds then None
     else Some (if neg then - int (exp_value ds) else int (exp_value ds)))"

definition parse_decimal :: "bytes \<Rightarrow> (nat \<times> int) option" where
  "parse_decimal s =
     (let a = takeWhile is_digit s; r = dropWhile is_digit s;
          b = (if r \<noteq> [] \<and> hd r = 46 then takeWhile is_digit (tl r) else []);
          r = (if r \<noteq> [] \<and> hd r = 46 then dropWhile is_digit (tl r) else r)
      in if a = [] \<and> b = [] then None
         else if r = [] then Some (dec_value (a @ b), - int (length b))
         else if hd r = 101 \<or> hd r = 69
              then map_option (\<lambda>e. (dec_value (a @ b), e - int (length b))) (parse_exponent (tl r))
         else None)"

definition str_parse_f64 :: "bytes \<Rightarrow> f64 option" where
  "str_parse_f64 s = (case split_sign s of (neg, t) \<Rightarrow>
     if t = [] then None
     else case parse_decimal t of
        Some (D, x) \<Rightarrow> Some (f64_make neg (f64_of_decimal D x))
      | None \<Rightarrow>
          if eq_ignore_ascii_case t (bytes_of ''nan'') then Some (f64_make neg F64_NAN)
          else if eq_ignore_ascii_case t (bytes_of ''inf'') \<or> eq_ignore_ascii_case t (bytes_of ''infinity'')
               then Some (f64_make neg F64_INF)
          else None)"

subsection \<open>Number to text\<close>

text \<open>The \<open>k\<close> with \<open>10 ^ (k - 1) \<le> v < 10 ^ k\<close>, for the value \<open>v\<close> of \<open>u\<close> units.\<close>

definition dec_exponent :: "nat \<Rightarrow> int" where
  "dec_exponent u = (if 2 ^ F64_MIN_EXP \<le> u then int (length (dec_digits (u div 2 ^ F64_MIN_EXP)))
     else case find (\<lambda>j. 2 ^ F64_MIN_EXP \<le> u * 10 ^ (j + 1)) [0..<400] of Some j \<Rightarrow> - int j | None \<Rightarrow> 0)"

text \<open>
  The shortest decimal with \<open>n\<close> digits that is read back as the number: the two neighbours with
  \<open>n\<close> digits are tried, and the closer one is taken if both are read back.
\<close>

definition decimal_with :: "nat \<Rightarrow> nat \<Rightarrow> (nat \<times> int) option" where
  "decimal_with m n =
     (let u = units m; x = dec_exponent u - int n;
          num = u * 10 ^ nat (- x); den = 2 ^ F64_MIN_EXP * 10 ^ nat x;
          d = num div den;
          lo = (f64_of_decimal d x = m); hi = (f64_of_decimal (d + 1) x = m)
      in if hi \<and> (\<not> lo \<or> den \<le> 2 * (num mod den)) then Some (d + 1, x)
         else if lo then Some (d, x) else None)"

text \<open>Seventeen digits always suffice; the exact value stands for the case that cannot occur.\<close>

definition shortest_decimal :: "nat \<Rightarrow> nat \<times> int" where
  "shortest_decimal m = (if m = 0 then (0, 0)
     else case List.map_filter (decimal_with m) [1..<18] of
        p # _ \<Rightarrow> p
      | [] \<Rightarrow> (units m * 5 ^ F64_MIN_EXP, - int F64_MIN_EXP))"

definition pad_digits :: "nat \<Rightarrow> nat \<Rightarrow> bytes" where
  "pad_digits n v = replicate (n - length (dec_digits v)) 48 @ dec_digits v"

definition strip_zeros :: "bytes \<Rightarrow> bytes" where
  "strip_zeros ds = rev (dropWhile ((=) 48) (rev ds))"

definition decimal_string :: "nat \<Rightarrow> int \<Rightarrow> bytes" where
  "decimal_string D x =
     (if 0 \<le> x then dec_digits (D * 10 ^ nat x)
      else let n = nat (- x); fr = strip_zeros (pad_digits n (D mod 10 ^ n))
        in dec_digits (D div 10 ^ n) @ (if fr = [] then [] else 46 # fr))"

definition f64_to_string :: "f64 \<Rightarrow> bytes" where
  "f64_to_string b =
     (if is_nan b then bytes_of ''NaN''
      else (if f64_neg b then [45] else []) @
        (if \<not> is_finite b then bytes_of ''inf''
         else case shortest_decimal (f64_mag b) of (D, x) \<Rightarrow> decimal_string D x))"

text \<open>\<open>fract() == 0.0\<close> for a finite number, and \<open>format!("{:.0}", ...)\<close> for such a number.\<close>

definition is_integral :: "f64 \<Rightarrow> bool" where
  "is_integral b \<longleftrightarrow> is_finite b \<and> units (f64_mag b) mod 2 ^ F64_MIN_EXP = 0"

definition f64_to_string0 :: "f64 \<Rightarrow> bytes" where
  "f64_to_string0 b = (if f64_neg b then [45] else []) @ dec_digits (units (f64_mag b) div 2 ^ F64_MIN_EXP)"

section \<open>Bits\<close>

lemma f64_mag_less: "f64_mag b < 2 ^ 63"
  by (simp add: f64_mag_def)

lemma unat_f64: "unat (b :: f64) = (if f64_neg b then 2 ^ 63 else 0) + f64_mag b"
  using unat_u64_less [of b] by (auto simp: f64_mag_def f64_neg_def le_mod_geq)

lemma unat_f64_make: "m < 2 ^ 63 \<Longrightarrow> unat (f64_make neg m) = (if neg then 2 ^ 63 else 0) + m"
  unfolding f64_make_def by (subst unat_of_nat) auto

lemma f64_make_mag [simp]: "m < 2 ^ 63 \<Longrightarrow> f64_mag (f64_make neg m) = m"
  by (simp add: f64_mag_def unat_f64_make)

lemma f64_make_neg [simp]: "m < 2 ^ 63 \<Longrightarrow> f64_neg (f64_make neg m) = neg"
  by (simp add: f64_neg_def unat_f64_make)

lemma f64_make_parts [simp]: "f64_make (f64_neg b) (f64_mag b) = b"
  unfolding f64_make_def unat_f64 [symmetric] by simp

lemma f64_eqI: "f64_neg a = f64_neg b \<Longrightarrow> f64_mag a = f64_mag b \<Longrightarrow> a = b"
  by (rule box_equals [OF _ f64_make_parts f64_make_parts]) simp

section \<open>Rounding\<close>

lemma bit_length_eq: "2 ^ n \<le> q \<Longrightarrow> q < 2 ^ Suc n \<Longrightarrow> bit_length q = Suc n"
proof (induction n arbitrary: q)
  case 0
  then have "q = 1" by simp
  then show ?case by (simp add: bit_length.simps)
next
  case (Suc n)
  then have "bit_length (q div 2) = Suc n" by (intro Suc.IH) auto
  then show ?case using Suc.prems by (subst bit_length.simps) auto
qed

lemma bit_length_le: "q < 2 ^ n \<Longrightarrow> bit_length q \<le> n"
proof (induction n arbitrary: q)
  case (Suc n)
  then have "bit_length (q div 2) \<le> n" by (intro Suc.IH) auto
  then show ?case by (subst bit_length.simps) auto
qed (simp add: bit_length.simps)

lemma round_half_even_exact [simp]: "0 < d \<Longrightarrow> round_half_even (q * d) d = q"
  by (simp add: round_half_even_def)

lemma round_half_even_scale: "0 < c \<Longrightarrow> round_half_even (c * num) (c * den) = round_half_even num den"
  by (auto simp: round_half_even_def Let_def mult_mod_right [symmetric] mult.left_commute [of 2])

lemma f64_round_scale: "0 < c \<Longrightarrow> f64_round (c * num) (c * den) = f64_round num den"
  by (simp add: f64_round_def round_half_even_scale mult.assoc)

text \<open>A number is its own rounding.\<close>

lemma f64_round_units:
  assumes "m < F64_INF" and "0 < c"
  shows "f64_round (units m * c) c = m"
proof (cases "m < 2 ^ 52")
  case True
  then have "bit_length m - 53 = 0" using bit_length_le [of m 52] by simp
  with True assms show ?thesis by (simp add: f64_round_def units_def)
next
  case False
  let ?e = "m div 2 ^ 52" and ?f = "m mod 2 ^ 52"
  have e: "0 < ?e" using False by (simp add: div_greater_zero_iff)
  have u: "units m = (2 ^ 52 + ?f) * 2 ^ (?e - 1)" using False by (simp add: units_def)
  have "bit_length (units m) = Suc (52 + (?e - 1))"
  proof (rule bit_length_eq)
    show "2 ^ (52 + (?e - 1)) \<le> units m" unfolding u by (simp add: power_add)
    have "2 ^ 52 + ?f < 2 ^ 53" by simp
    then show "units m < 2 ^ Suc (52 + (?e - 1))" unfolding u by (simp add: power_add)
  qed
  then have k: "bit_length (units m * c div c) - 53 = ?e - 1" using assms(2) by simp
  have "round_half_even (units m * c) (c * 2 ^ (?e - 1)) = 2 ^ 52 + ?f"
    using assms(2) round_half_even_exact [of "c * 2 ^ (?e - 1)" "2 ^ 52 + ?f"] by (simp add: u mult_ac)
  moreover have "(?e - 1) * 2 ^ 52 + (2 ^ 52 + ?f) = m"
    using e by (metis Suc_diff_1 add.assoc add.commute div_mult_mod_eq mult_Suc)
  ultimately show ?thesis
    using assms(1) unfolding f64_round_def Let_def k by (simp del: power_eq_if)
qed

section \<open>Printing and reading back\<close>

lemma F64_INF_less [simp]: "F64_INF < 2 ^ 63"
  by (simp add: F64_INF_def)

lemma f64_round_le: "f64_round num den \<le> F64_INF"
  by (simp add: f64_round_def Let_def)

lemma f64_of_decimal_less [simp]: "f64_of_decimal D x < 2 ^ 63"
  unfolding f64_of_decimal_def by (rule le_less_trans [OF f64_round_le F64_INF_less])

text \<open>Two decimals of the same value are read as the same number.\<close>

lemma f64_of_decimal_scale: "f64_of_decimal (D * 10 ^ j) (- int (n + j)) = f64_of_decimal D (- int n)"
proof -
  have "f64_round (10 ^ j * (D * 2 ^ F64_MIN_EXP)) (10 ^ j * 10 ^ n) = f64_round (D * 2 ^ F64_MIN_EXP) (10 ^ n)"
    by (rule f64_round_scale) simp
  then show ?thesis by (simp only: f64_of_decimal_def) (simp add: power_add mult_ac del: of_nat_add)
qed

lemma f64_of_decimal_shift: "f64_of_decimal (D * 10 ^ j) 0 = f64_of_decimal D (int j)"
  by (simp only: f64_of_decimal_def) simp

lemma decimal_with_ok: "decimal_with m n = Some (D, x) \<Longrightarrow> f64_of_decimal D x = m"
  by (auto simp add: decimal_with_def Let_def split: if_splits)

lemma shortest_decimal_ok:
  assumes "m < F64_INF" and "shortest_decimal m = (D, x)"
  shows "f64_of_decimal D x = m"
proof (cases "m = 0")
  case True
  with assms(2) have "D = 0" "x = 0" by (simp_all add: shortest_decimal_def)
  with True show ?thesis
    by (simp add: f64_of_decimal_def f64_round_def round_half_even_def bit_length.simps)
next
  case False
  show ?thesis
  proof (cases "List.map_filter (decimal_with m) [1..<18]")
    case Nil
    with False assms(2) have D: "D = units m * 5 ^ F64_MIN_EXP" and x: "x = - int F64_MIN_EXP"
      by (simp_all add: shortest_decimal_def)
    have "D * 2 ^ F64_MIN_EXP = units m * 10 ^ F64_MIN_EXP"
      unfolding D mult.assoc power_mult_distrib [symmetric] by simp
    then have "f64_of_decimal D x = f64_round (units m * 10 ^ F64_MIN_EXP) (10 ^ F64_MIN_EXP)"
      unfolding x f64_of_decimal_def by (simp only: minus_minus nat_int) simp
    also have "\<dots> = m" using assms(1) by (rule f64_round_units) simp
    finally show ?thesis .
  next
    case (Cons p ps)
    with False assms(2) have "p = (D, x)" by (simp add: shortest_decimal_def)
    moreover have "p \<in> set (List.map_filter (decimal_with m) [1..<18])" using Cons by simp
    ultimately have "\<exists>n. decimal_with m n = Some (D, x)" by (auto simp: List.map_filter_def)
    then show ?thesis using decimal_with_ok by blast
  qed
qed

lemma dec_value_append: "dec_value (xs @ ys) = dec_value xs * 10 ^ length ys + dec_value ys"
proof -
  let ?f = "\<lambda>n d. n * 10 + (unat (d :: u8) - 48)"
  have gen: "foldl ?f a ys = a * 10 ^ length ys + foldl ?f 0 ys" for a and ys :: bytes
  proof (induction ys arbitrary: a)
    case (Cons y ys)
    show ?case using Cons.IH [of "a * 10 + (unat y - 48)"] Cons.IH [of "unat y - 48"]
      by (simp add: algebra_simps)
  qed simp
  show ?thesis using gen [of "foldl ?f 0 xs" ys] by (simp add: dec_value_def)
qed

lemma digits_value_dec_value: "digits_value a ds = Some v \<Longrightarrow> v = a * 10 ^ length ds + dec_value ds"
proof (induction ds arbitrary: a)
  case (Cons d ds)
  have "dec_value (d # ds) = (unat d - 48) * 10 ^ length ds + dec_value ds"
    using dec_value_append [of "[d]" ds] by (simp add: dec_value_def)
  moreover have "v = (a * 10 + (unat d - 48)) * 10 ^ length ds + dec_value ds"
    using Cons.prems by (intro Cons.IH) (simp split: if_splits)
  moreover have "(a * 10 + c) * 10 ^ length ds + w = a * 10 ^ length (d # ds) + (c * 10 ^ length ds + w)" for c w :: nat
    by (simp add: algebra_simps)
  ultimately show ?case by simp
qed (simp add: dec_value_def)

lemma dec_value_dec_digits [simp]: "dec_value (dec_digits n) = n"
  using digits_value_dec_value [OF digits_value_dec_digits [of n]] by simp

lemma dec_value_zeros [simp]: "dec_value (replicate n 48) = 0"
proof (induction n)
  case (Suc n)
  have "dec_value (replicate (Suc n) 48) = dec_value (replicate n 48) * 10 ^ 1 + dec_value [48]"
    using dec_value_append [of "replicate n 48" "[48]"] by (simp add: replicate_append_same)
  with Suc show ?case by (simp add: dec_value_def)
qed (simp add: dec_value_def)

lemma length_dec_digits: "v < 10 ^ n \<Longrightarrow> 0 < n \<Longrightarrow> length (dec_digits v) \<le> n"
proof (induction v arbitrary: n rule: dec_digits.induct)
  case (1 v)
  show ?case
  proof (cases "v < 10")
    case False
    then obtain k where k: "n = Suc k" "0 < k" using 1(2,3) by (cases n; cases "n - 1") auto
    then have "v div 10 < 10 ^ k" using 1(2) by auto
    then show ?thesis using 1(1) [OF False, of k] False k by (simp add: dec_digits.simps [of v])
  qed (use 1 in \<open>simp add: dec_digits.simps [of v]\<close>)
qed

lemma pad_digits: "v < 10 ^ n \<Longrightarrow> 0 < n \<Longrightarrow> length (pad_digits n v) = n \<and> dec_value (pad_digits n v) = v"
  using length_dec_digits [of v n] by (simp add: pad_digits_def dec_value_append)

lemma strip_zeros: "\<exists>j. ds = strip_zeros ds @ replicate j 48"
proof -
  let ?z = "takeWhile ((=) 48) (rev ds)"
  have "?z = replicate (length ?z) 48" by (rule replicate_eqI) (auto dest: set_takeWhileD)
  moreover have "ds = strip_zeros ds @ rev ?z"
    by (metis rev_append rev_rev_ident strip_zeros_def takeWhile_dropWhile_id)
  ultimately show ?thesis by (metis rev_replicate)
qed

lemma is_digit_dec_digits: "d \<in> set (dec_digits n) \<Longrightarrow> is_digit d"
  using dec_digits_digit by (simp add: is_digit_def)

lemma not_digit [simp]: "\<not> is_digit 46" "\<not> is_digit 45" "\<not> is_digit 43" "\<not> is_digit 101" "\<not> is_digit 69" "\<not> is_digit 105" "is_digit 48"
  by (simp_all add: is_digit_def)

lemma parse_decimal_plain:
  assumes "ds \<noteq> []" and "\<forall>d \<in> set ds. is_digit d"
  shows "parse_decimal ds = Some (dec_value ds, 0)"
proof -
  have "takeWhile is_digit ds = ds" "dropWhile is_digit ds = []" using assms(2) by simp_all
  with assms(1) show ?thesis
    by (simp add: parse_decimal_def Let_def del: takeWhile_eq_all_conv dropWhile_eq_Nil_conv)
qed

lemma parse_decimal_point:
  assumes "ds \<noteq> []" and "\<forall>d \<in> set ds. is_digit d" and "\<forall>d \<in> set fs. is_digit d"
  shows "parse_decimal (ds @ 46 # fs) = Some (dec_value (ds @ fs), - int (length fs))"
proof -
  have "takeWhile is_digit (ds @ 46 # fs) = ds" "dropWhile is_digit (ds @ 46 # fs) = 46 # fs"
    "takeWhile is_digit fs = fs" "dropWhile is_digit fs = []"
    using assms(2,3) by (simp_all add: takeWhile_append dropWhile_append)
  with assms(1) show ?thesis
    by (simp add: parse_decimal_def Let_def del: takeWhile_eq_all_conv dropWhile_eq_Nil_conv)
qed

text \<open>The printed decimal, read back, has the same value.\<close>

lemma parse_decimal_string: "\<exists>E y. parse_decimal (decimal_string D x) = Some (E, y) \<and> f64_of_decimal E y = f64_of_decimal D x"
proof (cases "0 \<le> x")
  case True
  then have "decimal_string D x = dec_digits (D * 10 ^ nat x)" by (simp add: decimal_string_def)
  then have "parse_decimal (decimal_string D x) = Some (D * 10 ^ nat x, 0)"
    using parse_decimal_plain [of "dec_digits (D * 10 ^ nat x)"] is_digit_dec_digits by simp
  moreover have "f64_of_decimal (D * 10 ^ nat x) 0 = f64_of_decimal D x"
    using f64_of_decimal_shift [of D "nat x"] True by simp
  ultimately show ?thesis by blast
next
  case False
  define n where "n = nat (- x)"
  have n: "0 < n" "x = - int n" using False by (simp_all add: n_def)
  let ?pad = "pad_digits n (D mod 10 ^ n)"
  let ?fr = "strip_zeros ?pad" and ?ip = "dec_digits (D div 10 ^ n)"
  have pad: "length ?pad = n" "dec_value ?pad = D mod 10 ^ n" using pad_digits [of "D mod 10 ^ n" n] n(1) by simp_all
  obtain j where j: "?pad = ?fr @ replicate j 48" using strip_zeros by blast
  have len: "length ?fr + j = n" using pad(1) j by (metis length_append length_replicate)
  have val: "dec_value (?ip @ ?fr) * 10 ^ j = D"
  proof -
    have "dec_value (?ip @ ?fr) * 10 ^ j = dec_value (?ip @ ?pad)"
      using j dec_value_append [of "?ip @ ?fr" "replicate j 48"] by simp
    also have "\<dots> = D div 10 ^ n * 10 ^ n + D mod 10 ^ n" by (simp add: dec_value_append pad)
    finally show ?thesis by (simp only: div_mult_mod_eq)
  qed
  have "\<forall>d \<in> set ?pad. is_digit d" using is_digit_dec_digits by (auto simp: pad_digits_def)
  then have fr: "\<forall>d \<in> set ?fr. is_digit d" using j by (metis Un_iff set_append)
  have "parse_decimal (?ip @ (if ?fr = [] then [] else 46 # ?fr)) = Some (dec_value (?ip @ ?fr), - int (length ?fr))"
    using parse_decimal_plain [of ?ip] parse_decimal_point [of ?ip ?fr] is_digit_dec_digits fr by simp
  moreover have "decimal_string D x = ?ip @ (if ?fr = [] then [] else 46 # ?fr)"
    using False by (simp add: decimal_string_def n_def Let_def)
  moreover have "f64_of_decimal (dec_value (?ip @ ?fr)) (- int (length ?fr)) = f64_of_decimal D x"
    using f64_of_decimal_scale [of "dec_value (?ip @ ?fr)" j "length ?fr"] len val n(2) by simp
  ultimately show ?thesis by auto
qed

lemma hd_decimal_string: "decimal_string D x \<noteq> [] \<and> is_digit (hd (decimal_string D x))"
  using hd_dec_digits by (simp add: decimal_string_def Let_def is_digit_def hd_append)

lemma split_sign_digit: "s \<noteq> [] \<Longrightarrow> is_digit (hd s) \<Longrightarrow> split_sign ((if neg then [45] else []) @ s) = (neg, s)"
  by (cases s) (auto simp: split_sign_def)

lemma parse_signed_decimal:
  assumes "s \<noteq> []" and "is_digit (hd s)" and "parse_decimal s = Some (D, x)"
  shows "str_parse_f64 ((if neg then [45] else []) @ s) = Some (f64_make neg (f64_of_decimal D x))"
  using split_sign_digit [OF assms(1,2), of neg] assms(1,3) by (simp add: str_parse_f64_def)

lemma parse_inf: "str_parse_f64 ((if neg then [45] else []) @ bytes_of ''inf'') = Some (f64_make neg F64_INF)"
  by (simp add: str_parse_f64_def split_sign_def bytes_of_def parse_decimal_def Let_def is_digit_def
      eq_ignore_ascii_case_def to_ascii_uppercase_def ascii_upper_def)

lemma parse_f64_to_string:
  assumes "\<not> is_nan b"
  shows "str_parse_f64 (f64_to_string b) = Some b"
proof (cases "is_finite b")
  case True
  obtain D x where Dx: "shortest_decimal (f64_mag b) = (D, x)" by (cases "shortest_decimal (f64_mag b)")
  then have mag: "f64_of_decimal D x = f64_mag b"
    using shortest_decimal_ok True by (simp add: is_finite_def)
  obtain E y where "parse_decimal (decimal_string D x) = Some (E, y)" "f64_of_decimal E y = f64_of_decimal D x"
    using parse_decimal_string by blast
  then have "str_parse_f64 ((if f64_neg b then [45] else []) @ decimal_string D x) = Some (f64_make (f64_neg b) (f64_mag b))"
    using parse_signed_decimal hd_decimal_string mag by metis
  with assms True Dx show ?thesis by (simp add: f64_to_string_def)
next
  case False
  then have "f64_mag b = F64_INF" using assms by (simp add: is_finite_def is_nan_def)
  then have "f64_make (f64_neg b) F64_INF = b" by (metis f64_make_parts)
  with assms False parse_inf [of "f64_neg b"] show ?thesis by (simp add: f64_to_string_def)
qed

lemma parse_f64_to_string0:
  assumes "is_integral b"
  shows "str_parse_f64 (f64_to_string0 b) = Some b"
proof -
  let ?n = "units (f64_mag b) div 2 ^ F64_MIN_EXP"
  have n: "?n * 2 ^ F64_MIN_EXP = units (f64_mag b)" using assms by (simp add: is_integral_def div_mult_mod_eq mod_0_imp_dvd dvd_div_mult_self)
  have "parse_decimal (dec_digits ?n) = Some (?n, 0)"
    using parse_decimal_plain [of "dec_digits ?n"] is_digit_dec_digits by simp
  moreover have "f64_of_decimal ?n 0 = f64_mag b"
    using f64_round_units [of "f64_mag b" 1] assms n by (simp add: f64_of_decimal_def is_integral_def is_finite_def)
  ultimately show ?thesis
    using parse_signed_decimal [of "dec_digits ?n" ?n 0 "f64_neg b"] hd_dec_digits [of ?n]
    by (simp add: f64_to_string0_def is_digit_def)
qed

end
