(* ===== verification/Cmd_Context.thy ===== *)
theory Cmd_Context
  imports Mem_Store Rust_F64
begin

text \<open>
  The command layer's common part: the reply type \<open>RespValue\<close> of \<open>src/src/protocol.rs\<close> and
  \<open>src/src/cmd/mod.rs\<close> with the command context, the metadata lookup with its fallback to keys
  written without a namespace, the command table, the dispatcher and the formatting of errors.

  Of \<open>CommandContext\<close> the record keeps the fields that are values (the namespace and the
  client); the shared services are the world the handlers run in.
\<close>

section \<open>Replies\<close>

datatype resp_value =
    SimpleString string
  | Error string
  | Integer i64
  | BulkString "bytes option"
  | Array "resp_value list"
  | Null
  | Boolean bool
  | Double f64
  | Map "(resp_value \<times> resp_value) list"
  | Set "resp_value list"

abbreviation bulk :: "bytes \<Rightarrow> resp_value" where
  "bulk b \<equiv> BulkString (Some b)"

section \<open>The context\<close>

definition WRONGTYPE :: string where
  "WRONGTYPE = ''WRONGTYPE Operation against a key holding the wrong kind of value''"

definition wrong_type_error :: kvdb_error where
  "wrong_type_error = Command WRONGTYPE"

record command_context =
  namespace :: bytes
  client_id :: u64

definition meta_key :: "command_context \<Rightarrow> bytes \<Rightarrow> bytes" where
  "meta_key ctx user_key = metadata_key user_key (namespace ctx)"

definition sub_key :: "command_context \<Rightarrow> bytes \<Rightarrow> u64 \<Rightarrow> bytes \<Rightarrow> bytes" where
  "sub_key ctx user_key version sub = subkey user_key version sub (namespace ctx)"

definition parse_meta_key :: "command_context \<Rightarrow> bytes \<Rightarrow> bytes option" where
  "parse_meta_key ctx data = parse_metadata_key data (namespace ctx)"

definition ctx_parse_subkey :: "command_context \<Rightarrow> bytes \<Rightarrow> (bytes \<times> u64 \<times> bytes) option" where
  "ctx_parse_subkey ctx data = parse_subkey data (namespace ctx)"

definition get_meta :: "'db rocksdb \<Rightarrow> command_context \<Rightarrow> bytes
    \<Rightarrow> (('db, 'x) world_scheme, bytes option) kv" where
  "get_meta R ctx user_key =
     and_then (storage_get R CF_METADATA (meta_key ctx user_key)) (\<lambda>r. case r of
         Some v \<Rightarrow> ret (Some v)
       | None \<Rightarrow> if namespace ctx = [] then ret None
                 else storage_get R CF_METADATA (metadata_key user_key []))"

definition expect_arg_count :: "string \<Rightarrow> bytes list \<Rightarrow> nat \<Rightarrow> ('s, unit) kv" where
  "expect_arg_count name args expected =
     (if length args \<noteq> expected then raise (WrongArgCount name) else ret ())"

definition expect_min_arg_count :: "string \<Rightarrow> bytes list \<Rightarrow> nat \<Rightarrow> ('s, unit) kv" where
  "expect_min_arg_count name args least =
     (if length args < least then raise (WrongArgCount name) else ret ())"

section \<open>The command table\<close>

type_synonym 's command_fn = "command_context \<Rightarrow> bytes list \<Rightarrow> ('s, resp_value) kv"

type_synonym 's command_table = "string \<rightharpoonup> 's command_fn"

definition str_to_ascii_uppercase :: "string \<Rightarrow> string" where
  "str_to_ascii_uppercase s = string_of (to_ascii_uppercase (bytes_of s))"

definition register :: "'s command_table \<Rightarrow> string \<Rightarrow> 's command_fn \<Rightarrow> 's command_table" where
  "register table name func = table(str_to_ascii_uppercase name \<mapsto> func)"

definition is_ascii_uppercase :: "char \<Rightarrow> bool" where
  "is_ascii_uppercase c \<longleftrightarrow> 65 \<le> (of_char c :: nat) \<and> (of_char c :: nat) \<le> 90"

fun error_code_loop :: "string \<Rightarrow> nat \<Rightarrow> bool" where
  "error_code_loop [] upper_count = False"
| "error_code_loop (c # cs) upper_count =
     (if is_ascii_uppercase c then error_code_loop cs (upper_count + 1)
      else c = CHR '' '' \<and> 2 \<le> upper_count)"

definition has_redis_error_code :: "string \<Rightarrow> bool" where
  "has_redis_error_code msg = error_code_loop msg 0"

definition format_error :: "kvdb_error \<Rightarrow> string" where
  "format_error e = (let msg = error_to_string e
     in if has_redis_error_code msg then msg else ''ERR '' @ msg)"

definition dispatch :: "'s command_table \<Rightarrow> command_context \<Rightarrow> bytes \<Rightarrow> bytes list \<Rightarrow> ('s, resp_value) kv" where
  "dispatch table ctx cmd args = (\<lambda>s.
     let name = string_of (to_ascii_uppercase (from_utf8_lossy cmd)) in
     case table name of
       Some func \<Rightarrow> (case func ctx args s of
           (Inr v, s') \<Rightarrow> (Inr v, s')
         | (Inl (Err e), s') \<Rightarrow> (Inr (Error (format_error e)), s')
         | (Inl Panic, s') \<Rightarrow> (Inl Panic, s')
         | (Inl Diverge, s') \<Rightarrow> (Inl Diverge, s'))
     | None \<Rightarrow> (Inr (Error (''ERR unknown command '' @ [CHR 0x27] @ name @ [CHR 0x27])), s))"

section \<open>The metadata of a user key\<close>

text \<open>
  What \<open>get_meta\<close> finds: the value under the key of the namespace, else the value under the
  key without namespace.
\<close>

definition lookup_meta :: "(string \<Rightarrow> bytes \<rightharpoonup> bytes) \<Rightarrow> bytes \<Rightarrow> bytes \<Rightarrow> bytes option" where
  "lookup_meta m ns k = (case m CF_METADATA (metadata_key k ns) of
      Some v \<Rightarrow> Some v
    | None \<Rightarrow> if ns = [] then None else m CF_METADATA (metadata_key k []))"

lemma ns_wf_Nil [simp]: "ns_wf []"
  by (simp add: ns_wf_def)

lemma metadata_key_eq_iff:
  "key_wf k \<Longrightarrow> key_wf k' \<Longrightarrow> ns_wf ns \<Longrightarrow> ns_wf ns' \<Longrightarrow>
   metadata_key k ns = metadata_key k' ns' \<longleftrightarrow> k = k' \<and> ns = ns'"
  using metadata_key_prefix_code [of k k' ns ns' "[]" "[]"] by auto

lemma lookup_meta_cong: "m CF_METADATA = m' CF_METADATA \<Longrightarrow> lookup_meta m ns k = lookup_meta m' ns k"
  by (simp add: lookup_meta_def cong: option.case_cong)

lemma lookup_meta_put:
  assumes "ns_wf ns" and "key_wf k" and "key_wf k'"
  shows "lookup_meta (m(CF_METADATA := (m CF_METADATA)(metadata_key k ns \<mapsto> v))) ns k'
    = (if k' = k then Some v else lookup_meta m ns k')"
  using assms by (auto simp: lookup_meta_def metadata_key_eq_iff split: option.splits)

lemma lookup_meta_delete:
  assumes "ns_wf ns" and "key_wf k" and "key_wf k'"
  shows "lookup_meta (m(CF_METADATA := (m CF_METADATA)(metadata_key k ns := None))) ns k'
    = (if k' = k then (if ns = [] then None else m CF_METADATA (metadata_key k [])) else lookup_meta m ns k')"
  using assms by (auto simp: lookup_meta_def metadata_key_eq_iff split: option.splits)

text \<open>The handlers that only read keep the world but for the clock.\<close>

definition same_world :: "('db, 'x) world_scheme \<Rightarrow> ('db, 'x) world_scheme \<Rightarrow> bool" where
  "same_world s t \<longleftrightarrow> db t = db s \<and> rng t = rng s \<and> world.more t = world.more s"

lemma same_world_refl [simp]: "same_world s s"
  by (simp add: same_world_def)

lemma same_world_clock [simp]: "same_world s (t\<lparr>clock := c\<rparr>) = same_world s t"
  by (simp add: same_world_def)

lemma same_world_db: "same_world s t \<Longrightarrow> db t = db s"
  by (simp add: same_world_def)

text \<open>
  The environment of a command: a store that meets the contract and a namespace that
  fits its length byte. The lemmas about commands are proved here once, for every store.
\<close>

locale command_env = rocksdb_contract R view
  for R :: "'db rocksdb" and view :: "'db \<Rightarrow> string \<Rightarrow> bytes \<rightharpoonup> bytes" +
  fixes ctx :: command_context
  assumes namespace_wf: "ns_wf (namespace ctx)"
begin

abbreviation meta_of :: "('db, 'x) world_scheme \<Rightarrow> bytes \<Rightarrow> bytes option" where
  "meta_of s k \<equiv> lookup_meta (view (db s)) (namespace ctx) k"

lemma get_meta_ok: "get_meta R ctx k s = (Inr (meta_of s k), s)"
  by (auto simp: get_meta_def kv_run lookup_meta_def meta_key_def storage_get_ok split: option.split)

lemma run_get_meta [kv_run]: "and_then (get_meta R ctx k) f s = f (meta_of s k) s"
  by (simp add: and_then_def get_meta_ok)

lemma meta_of_put:
  "key_wf k \<Longrightarrow> key_wf k' \<Longrightarrow>
   meta_of (put_world R CF_METADATA (meta_key ctx k) v s) k' = (if k' = k then Some v else meta_of s k')"
  by (simp add: world_db meta_key_def lookup_meta_put [OF namespace_wf])

end

definition tenant_context :: "bytes \<Rightarrow> command_context" where
  "tenant_context ns = \<lparr>namespace = take 255 ns, client_id = 0\<rparr>"

lemma namespace_tenant [simp]: "namespace (tenant_context []) = []"
  by (simp add: tenant_context_def)

text \<open>A world over the in-memory store, with a clock that stands still.\<close>

definition mem_world :: "mem \<Rightarrow> mem world" where
  "mem_world d = \<lparr>db = d, clock = \<lambda>_. 1000, rng = \<lambda>_. 7\<rparr>"

interpretation mem_env: command_env mem_store mem_view "tenant_context ns" for ns
  by unfold_locales (simp add: tenant_context_def ns_wf_def)

lemma run_expect_arg_count [kv_run]:
  "and_then (expect_arg_count name args n) f =
     (if length args = n then f () else raise (WrongArgCount name))"
  by (simp add: expect_arg_count_def)

lemma run_expect_min_arg_count [kv_run]:
  "and_then (expect_min_arg_count name args n) f =
     (if n \<le> length args then f () else raise (WrongArgCount name))"
  by (simp add: expect_min_arg_count_def)

section \<open>Dispatch\<close>

text \<open>A reply is always produced; an error of the handler becomes an error reply.\<close>

lemma dispatch_unknown:
  "table (string_of (to_ascii_uppercase (from_utf8_lossy cmd))) = None \<Longrightarrow>
   dispatch table ctx cmd args s = (Inr (Error (''ERR unknown command '' @ [CHR 0x27]
     @ string_of (to_ascii_uppercase (from_utf8_lossy cmd)) @ [CHR 0x27])), s)"
  by (simp add: dispatch_def)

lemma ascii_upper_ascii: "b < 0x80 \<Longrightarrow> ascii_upper b < 0x80"
proof -
  assume "b < 0x80"
  then show ?thesis
    by (cases "97 \<le> b \<and> b \<le> 122")
      (auto simp: ascii_upper_def word_le_nat_alt word_less_nat_alt unat_sub)
qed

text \<open>Command names are case insensitive.\<close>

lemma dispatch_case_insensitive:
  assumes "\<forall>b \<in> set cmd. b < 0x80"
  shows "dispatch table ctx (to_ascii_uppercase cmd) args = dispatch table ctx cmd args"
proof -
  have "\<forall>b \<in> set (to_ascii_uppercase cmd). b < 0x80"
    using assms by (auto simp: to_ascii_uppercase_def ascii_upper_ascii)
  with assms show ?thesis
    by (simp add: dispatch_def from_utf8_lossy_valid utf8_valid_ascii)
qed

lemma dispatch_register:
  assumes "\<forall>b \<in> set cmd. b < 0x80" and "eq_ignore_ascii_case cmd (bytes_of name)"
  shows "dispatch (register table name func) ctx cmd args s = (case func ctx args s of
      (Inl (Err e), s') \<Rightarrow> (Inr (Error (format_error e)), s') | r \<Rightarrow> r)"
  using assms
  by (auto simp: dispatch_def register_def str_to_ascii_uppercase_def eq_ignore_ascii_case_def
      from_utf8_lossy_valid utf8_valid_ascii split: prod.split sum.split failure.split)

end
