(* ===== verification/Cmd_String.thy ===== *)
theory Cmd_String
  imports Cmd_Context
begin

text \<open>
  The string and generic key commands of \<open>src/src/cmd/string.rs\<close>: GET, SET with its options,
  MGET, MSET, DEL, EXISTS, INCR, DECR, APPEND and the expiry commands. A string lives in the
  metadata column family as a flags byte, an expiry time and the payload.

  The handlers of INCR, DECR and APPEND hold the lock of their key while they run; the model
  runs each handler in one step.
\<close>

section \<open>Definitions\<close>

definition STRING_FLAGS :: u8 where "STRING_FLAGS = build_flags DT_String"
definition DEL_BATCH_SIZE :: nat where "DEL_BATCH_SIZE = 1024"

abbreviation syntax_error :: kvdb_error where
  "syntax_error \<equiv> Command ''syntax error''"

text \<open>\<open>expire > 0 && expire <= now_ms()\<close>: the clock is read only when the key can expire.\<close>

definition expired_now :: "i64 \<Rightarrow> (('db, 'x) world_scheme, bool) kv" where
  "expired_now expire = (if 0 < sint expire
     then and_then now_ms (\<lambda>now. ret (sint expire \<le> sint now)) else ret False)"

definition parse_i64 :: "bytes \<Rightarrow> failure + i64" where
  "parse_i64 data = ok_or (str_parse_i64 data) NotInteger"

definition parse_integer :: "bytes \<Rightarrow> failure + i64" where
  "parse_integer data = parse_i64 data"

definition read_string :: "'db rocksdb \<Rightarrow> command_context \<Rightarrow> bytes
    \<Rightarrow> (('db, 'x) world_scheme, bytes option) kv" where
  "read_string R ctx user_key = and_then (get_meta R ctx user_key) (\<lambda>r. case r of
      Some v \<Rightarrow>
        and_then (lift (ok_or (decode_string v) (Protocol ''invalid string encoding''))) (\<lambda>(flags, expire, payload).
          if flags AND 0x0F \<noteq> code DT_String then raise wrong_type_error
          else and_then (expired_now expire) (\<lambda>expired.
            if expired then ret None else ret (Some payload)))
    | None \<Rightarrow> ret None)"

definition write_string :: "'db rocksdb \<Rightarrow> command_context \<Rightarrow> bytes \<Rightarrow> bytes
    \<Rightarrow> (('db, 'x) world_scheme, unit) kv" where
  "write_string R ctx user_key payload =
     storage_put R CF_METADATA (meta_key ctx user_key) (encode_string STRING_FLAGS 0 payload)"

definition string_get :: "'db rocksdb \<Rightarrow> ('db, 'x) world_scheme command_fn" where
  "string_get R ctx args = and_then (expect_arg_count ''GET'' args 1) (\<lambda>_.
     and_then (read_string R ctx (args ! 0)) (\<lambda>r. ret (BulkString r)))"

text \<open>The option loop of SET over the arguments from index 2: expiry time, NX and XX.\<close>

fun set_options :: "bytes list \<Rightarrow> i64 \<times> bool \<times> bool \<Rightarrow> (('db, 'x) world_scheme, i64 \<times> bool \<times> bool) kv" where
  "set_options [] opts = ret opts"
| "set_options (arg # rest) (expire_ms, nx, xx) = (let opt = to_ascii_uppercase arg in
     if opt = bytes_of ''EX'' then
       (case rest of
          [] \<Rightarrow> raise syntax_error
        | v # rest' \<Rightarrow> and_then (lift (parse_i64 v)) (\<lambda>secs.
            if sint secs \<le> 0 then raise (Command ''invalid expire time'')
            else and_then now_ms (\<lambda>now. set_options rest' (now + secs * 1000, nx, xx))))
     else if opt = bytes_of ''PX'' then
       (case rest of
          [] \<Rightarrow> raise syntax_error
        | v # rest' \<Rightarrow> and_then (lift (parse_i64 v)) (\<lambda>ms.
            if sint ms \<le> 0 then raise (Command ''invalid expire time'')
            else and_then now_ms (\<lambda>now. set_options rest' (now + ms, nx, xx))))
     else if opt = bytes_of ''NX'' then set_options rest (expire_ms, True, xx)
     else if opt = bytes_of ''XX'' then set_options rest (expire_ms, nx, True)
     else raise syntax_error)"

definition is_expired_value :: "bytes \<Rightarrow> (('db, 'x) world_scheme, bool) kv" where
  "is_expired_value v =
     (if v = [] then ret False
      else if v ! 0 AND FLAGS_TYPE_MASK = code DT_String
      then (case decode_string v of Some (_, exp, _) \<Rightarrow> expired_now exp | None \<Rightarrow> ret False)
      else (case decode_metadata v of Some m \<Rightarrow> expired_now (m_expire m) | None \<Rightarrow> ret False))"

definition key_exists :: "'db rocksdb \<Rightarrow> command_context \<Rightarrow> bytes \<Rightarrow> (('db, 'x) world_scheme, bool) kv" where
  "key_exists R ctx user_key = and_then (get_meta R ctx user_key) (\<lambda>r. case r of
      Some v \<Rightarrow> and_then (is_expired_value v) (\<lambda>e. ret (\<not> e))
    | None \<Rightarrow> ret False)"

definition string_set :: "'db rocksdb \<Rightarrow> ('db, 'x) world_scheme command_fn" where
  "string_set R ctx args = and_then (expect_min_arg_count ''SET'' args 2) (\<lambda>_.
     and_then (set_options (drop 2 args) (0, False, False)) (\<lambda>(expire_ms, nx, xx).
       if nx \<and> xx then raise syntax_error
       else and_then (key_exists R ctx (args ! 0)) (\<lambda>found.
         if nx \<and> found then ret (BulkString None)
         else if xx \<and> \<not> found then ret (BulkString None)
         else and_then (storage_put R CF_METADATA (meta_key ctx (args ! 0))
                (encode_string STRING_FLAGS expire_ms (args ! 1))) (\<lambda>_.
           ret (SimpleString ''OK'')))))"

definition read_expire :: "'db rocksdb \<Rightarrow> command_context \<Rightarrow> bytes
    \<Rightarrow> (('db, 'x) world_scheme, i64 option option) kv" where
  "read_expire R ctx user_key = and_then (get_meta R ctx user_key) (\<lambda>r. case r of
      None \<Rightarrow> ret None
    | Some v \<Rightarrow>
        if v = [] then ret None
        else and_then
          (if v ! 0 AND FLAGS_TYPE_MASK = code DT_String
           then and_then (lift (ok_or (decode_string v) (Protocol ''invalid string encoding'')))
                  (\<lambda>(_, exp, _). ret exp)
           else and_then (lift (ok_or (decode_metadata v) (Protocol ''invalid metadata encoding'')))
                  (\<lambda>m. ret (m_expire m)))
          (\<lambda>expire. ret (Some (if 0 < sint expire then Some expire else None))))"

definition set_expire_ms :: "'db rocksdb \<Rightarrow> command_context \<Rightarrow> bytes \<Rightarrow> i64
    \<Rightarrow> (('db, 'x) world_scheme, bool) kv" where
  "set_expire_ms R ctx user_key expire_ms = and_then (get_meta R ctx user_key) (\<lambda>r. case r of
      None \<Rightarrow> ret False
    | Some v \<Rightarrow>
        if v = [] then ret False
        else and_then
          (if v ! 0 AND FLAGS_TYPE_MASK = code DT_String
           then and_then (lift (ok_or (decode_string v) (Protocol ''invalid string encoding'')))
                  (\<lambda>(flags, _, payload). ret (encode_string flags expire_ms payload))
           else and_then (lift (ok_or (decode_metadata v) (Protocol ''invalid metadata encoding'')))
                  (\<lambda>m. ret (encode_metadata (m\<lparr>m_expire := expire_ms\<rparr>))))
          (\<lambda>encoded. and_then (storage_put R CF_METADATA (meta_key ctx user_key) encoded) (\<lambda>_. ret True)))"

definition clear_expire :: "'db rocksdb \<Rightarrow> command_context \<Rightarrow> bytes \<Rightarrow> (('db, 'x) world_scheme, bool) kv" where
  "clear_expire R ctx user_key = set_expire_ms R ctx user_key 0"

definition string_expire :: "'db rocksdb \<Rightarrow> ('db, 'x) world_scheme command_fn" where
  "string_expire R ctx args = and_then (expect_arg_count ''EXPIRE'' args 2) (\<lambda>_.
     and_then (lift (parse_i64 (args ! 1))) (\<lambda>secs.
     and_then now_ms (\<lambda>now.
     and_then (set_expire_ms R ctx (args ! 0) (now + secs * 1000)) (\<lambda>ok.
       ret (Integer (if ok then 1 else 0))))))"

definition pexpire :: "'db rocksdb \<Rightarrow> ('db, 'x) world_scheme command_fn" where
  "pexpire R ctx args = and_then (expect_arg_count ''PEXPIRE'' args 2) (\<lambda>_.
     and_then (lift (parse_i64 (args ! 1))) (\<lambda>ms.
     and_then now_ms (\<lambda>now.
     and_then (set_expire_ms R ctx (args ! 0) (now + ms)) (\<lambda>ok.
       ret (Integer (if ok then 1 else 0))))))"

definition ttl :: "'db rocksdb \<Rightarrow> ('db, 'x) world_scheme command_fn" where
  "ttl R ctx args = and_then (expect_arg_count ''TTL'' args 1) (\<lambda>_.
     and_then (read_expire R ctx (args ! 0)) (\<lambda>r. case r of
         None \<Rightarrow> ret (Integer (-2))
       | Some None \<Rightarrow> ret (Integer (-1))
       | Some (Some expire_ms) \<Rightarrow> and_then now_ms (\<lambda>now.
           if sint expire_ms \<le> sint now then ret (Integer (-2))
           else ret (Integer (i64_div (expire_ms - now + 999) 1000)))))"

definition pttl :: "'db rocksdb \<Rightarrow> ('db, 'x) world_scheme command_fn" where
  "pttl R ctx args = and_then (expect_arg_count ''PTTL'' args 1) (\<lambda>_.
     and_then (read_expire R ctx (args ! 0)) (\<lambda>r. case r of
         None \<Rightarrow> ret (Integer (-2))
       | Some None \<Rightarrow> ret (Integer (-1))
       | Some (Some expire_ms) \<Rightarrow> and_then now_ms (\<lambda>now.
           if sint expire_ms \<le> sint now then ret (Integer (-2))
           else ret (Integer (expire_ms - now)))))"

definition persist :: "'db rocksdb \<Rightarrow> ('db, 'x) world_scheme command_fn" where
  "persist R ctx args = and_then (expect_arg_count ''PERSIST'' args 1) (\<lambda>_.
     and_then (read_expire R ctx (args ! 0)) (\<lambda>r. case r of
         None \<Rightarrow> ret (Integer 0)
       | Some None \<Rightarrow> ret (Integer 0)
       | Some (Some _) \<Rightarrow> and_then (clear_expire R ctx (args ! 0)) (\<lambda>_. ret (Integer 1))))"

definition mget :: "'db rocksdb \<Rightarrow> ('db, 'x) world_scheme command_fn" where
  "mget R ctx args = and_then (expect_min_arg_count ''MGET'' args 1) (\<lambda>_.
     and_then (for_loop (\<lambda>key result. and_then (read_string R ctx key) (\<lambda>v.
       ret (result @ [BulkString v]))) args []) (\<lambda>result. ret (Array result)))"

definition mset :: "'db rocksdb \<Rightarrow> ('db, 'x) world_scheme command_fn" where
  "mset R ctx args = (if length args mod 2 \<noteq> 0 then raise (WrongArgCount ''MSET'')
     else and_then (for_loop (\<lambda>(k, v) batch.
         batch_put R batch CF_METADATA (meta_key ctx k) (encode_string STRING_FLAGS 0 v))
         (chunks_exact2 args) []) (\<lambda>batch.
       and_then (storage_write R batch) (\<lambda>_. ret (SimpleString ''OK''))))"

definition purge_subkeys :: "'db rocksdb \<Rightarrow> command_context \<Rightarrow> bytes \<Rightarrow> u64 \<Rightarrow> bool
    \<Rightarrow> (('db, 'x) world_scheme, unit) kv" where
  "purge_subkeys R ctx user_key version is_zset = (let p = sub_key ctx user_key version [] in
     and_then (delete_prefix R CF_SUBKEY p DEL_BATCH_SIZE) (\<lambda>_.
       if is_zset then delete_prefix R CF_ZSET_SCORE p DEL_BATCH_SIZE else ret ()))"

text \<open>One iteration of the loop of DEL.\<close>

definition del_key :: "'db rocksdb \<Rightarrow> command_context \<Rightarrow> bytes \<Rightarrow> i64 \<Rightarrow> (('db, 'x) world_scheme, i64) kv" where
  "del_key R ctx key count = and_then (get_meta R ctx key) (\<lambda>r. case r of
      None \<Rightarrow> ret count
    | Some meta_val \<Rightarrow>
        and_then
          (if meta_val \<noteq> [] \<and> meta_val ! 0 AND FLAGS_TYPE_MASK \<noteq> code DT_String
           then (case decode_metadata meta_val of
               Some meta \<Rightarrow> purge_subkeys R ctx key (m_version meta) (metadata_data_type meta = Some DT_ZSet)
             | None \<Rightarrow> ret ())
           else ret ())
          (\<lambda>_. and_then (storage_delete R CF_METADATA (meta_key ctx key)) (\<lambda>_. ret (count + 1))))"

definition del :: "'db rocksdb \<Rightarrow> ('db, 'x) world_scheme command_fn" where
  "del R ctx args = and_then (expect_min_arg_count ''DEL'' args 1) (\<lambda>_.
     and_then (for_loop (del_key R ctx) args 0) (\<lambda>count. ret (Integer count)))"

definition string_exists :: "'db rocksdb \<Rightarrow> ('db, 'x) world_scheme command_fn" where
  "string_exists R ctx args = and_then (expect_min_arg_count ''EXISTS'' args 1) (\<lambda>_.
     and_then (for_loop (\<lambda>key count. and_then (get_meta R ctx key) (\<lambda>r.
       ret (if r \<noteq> None then count + 1 else count))) args 0) (\<lambda>count. ret (Integer count)))"

definition incr :: "'db rocksdb \<Rightarrow> ('db, 'x) world_scheme command_fn" where
  "incr R ctx args = and_then (expect_arg_count ''INCR'' args 1) (\<lambda>_.
     and_then (read_string R ctx (args ! 0)) (\<lambda>r.
     and_then (lift (case r of Some v \<Rightarrow> parse_integer v | None \<Rightarrow> Inr 0)) (\<lambda>current.
     and_then (lift (ok_or (checked_add current 1) OutOfRange)) (\<lambda>new.
     and_then (write_string R ctx (args ! 0) (i64_to_string new)) (\<lambda>_.
       ret (Integer new))))))"

definition decr :: "'db rocksdb \<Rightarrow> ('db, 'x) world_scheme command_fn" where
  "decr R ctx args = and_then (expect_arg_count ''DECR'' args 1) (\<lambda>_.
     and_then (read_string R ctx (args ! 0)) (\<lambda>r.
     and_then (lift (case r of Some v \<Rightarrow> parse_integer v | None \<Rightarrow> Inr 0)) (\<lambda>current.
     and_then (lift (ok_or (checked_sub current 1) OutOfRange)) (\<lambda>new.
     and_then (write_string R ctx (args ! 0) (i64_to_string new)) (\<lambda>_.
       ret (Integer new))))))"

definition string_append :: "'db rocksdb \<Rightarrow> ('db, 'x) world_scheme command_fn" where
  "string_append R ctx args = and_then (expect_arg_count ''APPEND'' args 2) (\<lambda>_.
     and_then (read_string R ctx (args ! 0)) (\<lambda>r.
       let current = (case r of Some v \<Rightarrow> v | None \<Rightarrow> []) @ args ! 1 in
       and_then (write_string R ctx (args ! 0) current) (\<lambda>_.
         ret (Integer (of_nat (length current))))))"

section \<open>What a string key holds\<close>

text \<open>The value \<open>read_string\<close> finds in a metadata entry at a time.\<close>

definition string_value :: "bytes option \<Rightarrow> i64 \<Rightarrow> failure + bytes option" where
  "string_value r now = (case r of
      None \<Rightarrow> Inr None
    | Some v \<Rightarrow> (case decode_string v of
        None \<Rightarrow> Inl (Err (Protocol ''invalid string encoding''))
      | Some (flags, expire, payload) \<Rightarrow>
          if flags AND 0x0F \<noteq> code DT_String then Inl (Err wrong_type_error)
          else Inr (if expired_at expire now then None else Some payload)))"

text \<open>Whether a key exists for SET NX and SET XX: there is an entry and it has not expired.\<close>

definition string_entry :: "bytes \<Rightarrow> bool" where
  "string_entry v \<longleftrightarrow> v ! 0 AND FLAGS_TYPE_MASK = code DT_String"

definition meta_expire :: "bytes \<Rightarrow> i64" where
  "meta_expire v =
     (if v = [] then 0
      else if string_entry v
      then (case decode_string v of Some (_, e, _) \<Rightarrow> e | None \<Rightarrow> 0)
      else (case decode_metadata v of Some m \<Rightarrow> m_expire m | None \<Rightarrow> 0))"

definition live_at :: "bytes option \<Rightarrow> i64 \<Rightarrow> bool" where
  "live_at r now = (case r of None \<Rightarrow> False | Some v \<Rightarrow> \<not> expired_at (meta_expire v) now)"

lemma not_expired_0 [simp]: "\<not> expired_at 0 now"
  by (simp add: expired_at_def)

lemma STRING_FLAGS_type [simp]: "STRING_FLAGS AND 0x0F = code DT_String" "STRING_FLAGS AND 15 = 1"
  "STRING_FLAGS AND FLAGS_TYPE_MASK = 1"
  using build_flags_type [of DT_String] by (simp_all add: STRING_FLAGS_def FLAGS_TYPE_MASK_def)

lemma encode_string_nonempty [simp]: "encode_string f e p \<noteq> []"
  by (simp add: encode_string_def)

lemma nth_encode_string [simp]: "encode_string f e p ! 0 = f"
  by (simp add: encode_string_def)

lemma string_value_encode [simp]:
  "string_value (Some (encode_string STRING_FLAGS e p)) now = Inr (if expired_at e now then None else Some p)"
  by (simp add: string_value_def)

lemma meta_expire_encode_string [simp]: "meta_expire (encode_string STRING_FLAGS e p) = e"
  by (simp add: meta_expire_def string_entry_def)

lemma expired_now_fst [simp]: "fst (expired_now e s) = Inr (expired_at e (clock s 0))"
  by (simp add: expired_now_def expired_at_def kv_run)

lemma expired_now_snd [simp]: "same_world s (snd (expired_now e s))"
  by (simp add: expired_now_def kv_run)

lemma run_expired_now [kv_run]:
  "and_then (expired_now e) f s = f (expired_at e (clock s 0)) (snd (expired_now e s))"
  using expired_now_fst [of e s] by (cases "expired_now e s") (simp add: and_then_def)

lemma is_expired_value_eq: "is_expired_value v = expired_now (meta_expire v)"
  by (auto simp: is_expired_value_def meta_expire_def string_entry_def expired_now_def split: option.splits)

context command_env
begin

lemma read_string_fst: "fst (read_string R ctx k s) = string_value (meta_of s k) (clock s 0)"
  by (simp add: read_string_def kv_run string_value_def split: option.split prod.split)

lemma read_string_snd: "same_world s (snd (read_string R ctx k s))"
  by (simp add: read_string_def kv_run split: option.split prod.split)

lemma run_read_string [kv_run]:
  "and_then (read_string R ctx k) f s = (case string_value (meta_of s k) (clock s 0) of
     Inl e \<Rightarrow> (Inl e, snd (read_string R ctx k s)) | Inr v \<Rightarrow> f v (snd (read_string R ctx k s)))"
  using read_string_fst [of k s] by (cases "read_string R ctx k s") (auto simp: and_then_def split: sum.split)

lemma db_read_string [simp]: "db (snd (read_string R ctx k s)) = db s"
  using read_string_snd by (rule same_world_db)

lemma key_exists_fst: "fst (key_exists R ctx k s) = Inr (live_at (meta_of s k) (clock s 0))"
  by (simp add: key_exists_def kv_run live_at_def is_expired_value_eq split: option.split)

lemma key_exists_snd: "same_world s (snd (key_exists R ctx k s))"
  by (simp add: key_exists_def kv_run is_expired_value_eq split: option.split)

lemma run_key_exists [kv_run]:
  "and_then (key_exists R ctx k) f s = f (live_at (meta_of s k) (clock s 0)) (snd (key_exists R ctx k s))"
  using key_exists_fst [of k s] by (cases "key_exists R ctx k s") (simp add: and_then_def)

lemma db_key_exists [simp]: "db (snd (key_exists R ctx k s)) = db s"
  using key_exists_snd by (rule same_world_db)

lemma string_get_fst: "fst (string_get R ctx [k] s) = (case string_value (meta_of s k) (clock s 0) of
    Inl e \<Rightarrow> Inl e | Inr v \<Rightarrow> Inr (BulkString v))"
  by (simp add: string_get_def kv_run split: sum.split)

end

section \<open>Writing strings\<close>

text \<open>
  The options of SET as the command documents them, apart from how they are read: \<open>spells o ws\<close> says that
  the arguments \<open>ws\<close> are the option \<open>o\<close>, a keyword in any case and for EX and PX a positive decimal number.
  An expiry option takes one reading of the clock, and the last one given decides.
\<close>

datatype set_opt = Opt_EX i64 | Opt_PX i64 | Opt_NX | Opt_XX

fun spells :: "set_opt \<Rightarrow> bytes list \<Rightarrow> bool" where
  "spells (Opt_EX secs) ws \<longleftrightarrow> (\<exists>w a. ws = [w, a] \<and> eq_ignore_ascii_case w (bytes_of ''EX'') \<and> str_parse_i64 a = Some secs \<and> 0 < sint secs)"
| "spells (Opt_PX ms) ws \<longleftrightarrow> (\<exists>w a. ws = [w, a] \<and> eq_ignore_ascii_case w (bytes_of ''PX'') \<and> str_parse_i64 a = Some ms \<and> 0 < sint ms)"
| "spells Opt_NX ws \<longleftrightarrow> (\<exists>w. ws = [w] \<and> eq_ignore_ascii_case w (bytes_of ''NX''))"
| "spells Opt_XX ws \<longleftrightarrow> (\<exists>w. ws = [w] \<and> eq_ignore_ascii_case w (bytes_of ''XX''))"

fun lifetimes :: "set_opt list \<Rightarrow> i64 list" where
  "lifetimes [] = []"
| "lifetimes (Opt_EX secs # os) = 1000 * secs # lifetimes os"
| "lifetimes (Opt_PX ms # os) = ms # lifetimes os"
| "lifetimes (Opt_NX # os) = lifetimes os"
| "lifetimes (Opt_XX # os) = lifetimes os"

definition set_deadline :: "(nat \<Rightarrow> i64) \<Rightarrow> set_opt list \<Rightarrow> i64" where
  "set_deadline readings os = (let ls = lifetimes os in if ls = [] then 0 else readings (length ls - 1) + last ls)"

lemma set_options_spells:
  assumes "list_all2 spells os wss"
  shows "set_options (concat wss) (e, nx, xx) s =
    (Inr (if lifetimes os = [] then e else clock s (length (lifetimes os) - 1) + last (lifetimes os), nx \<or> Opt_NX \<in> set os, xx \<or> Opt_XX \<in> set os),
     s\<lparr>clock := \<lambda>i. clock s (i + length (lifetimes os))\<rparr>)"
  using assms
proof (induction os arbitrary: wss e nx xx s)
  case (Cons opt os)
  then obtain ws wss' where ws: "wss = ws # wss'" "spells opt ws" and rest: "list_all2 spells os wss'"
    by (auto simp: list_all2_Cons1)
  note ih = Cons.IH [OF rest]
  show ?case
  proof (cases opt)
    case (Opt_EX secs)
    with ws obtain w a where "ws = [w, a]" "to_ascii_uppercase w = bytes_of ''EX''" "parse_i64 a = Inr secs" "0 < sint secs"
      by (auto simp: eq_ignore_ascii_case_def parse_i64_def to_ascii_uppercase_def ascii_upper_def bytes_of_def)
    with Opt_EX ws ih show ?thesis by (auto simp: Let_def kv_run mult.commute)
  next
    case (Opt_PX ms)
    with ws obtain w a where "ws = [w, a]" "to_ascii_uppercase w = bytes_of ''PX''" "parse_i64 a = Inr ms" "0 < sint ms"
      by (auto simp: eq_ignore_ascii_case_def parse_i64_def to_ascii_uppercase_def ascii_upper_def bytes_of_def)
    with Opt_PX ws ih show ?thesis by (auto simp: Let_def kv_run bytes_of_def)
  next
    case Opt_NX
    with ws obtain w where "ws = [w]" "to_ascii_uppercase w = bytes_of ''NX''"
      by (auto simp: eq_ignore_ascii_case_def to_ascii_uppercase_def ascii_upper_def bytes_of_def)
    with Opt_NX ws ih show ?thesis by (auto simp: Let_def bytes_of_def)
  next
    case Opt_XX
    with ws obtain w where "ws = [w]" "to_ascii_uppercase w = bytes_of ''XX''"
      by (auto simp: eq_ignore_ascii_case_def to_ascii_uppercase_def ascii_upper_def bytes_of_def)
    with Opt_XX ws ih show ?thesis by (auto simp: Let_def bytes_of_def)
  qed
qed simp

lemma set_options_snd: "same_world s (snd (set_options args opts s))"
proof (induction args opts arbitrary: s rule: set_options.induct)
  case (2 arg rest expire_ms nx xx)
  show ?case
  proof (cases rest)
    case Nil
    with "2.IH"(3,4) show ?thesis by (simp add: Let_def)
  next
    case (Cons v rest')
    with 2 show ?thesis
      by (cases "parse_i64 v") (auto simp add: Let_def kv_run same_world_def)
  qed
qed simp

context command_env
begin

lemma db_set_options [simp]: "db (snd (set_options args opts s)) = db s"
  using set_options_snd by (rule same_world_db)

lemma string_set_run:
  assumes "set_options opts (0, False, False) s = (Inr (e, nx, xx), t)"
  shows "string_set R ctx (k # v # opts) s =
    (if nx \<and> xx then (Inl (Err syntax_error), t)
     else let found = live_at (meta_of s k) (clock t 0); u = snd (key_exists R ctx k t)
          in if nx \<and> found \<or> xx \<and> \<not> found then (Inr (BulkString None), u)
             else (Inr (SimpleString ''OK''),
               put_world R CF_METADATA (meta_key ctx k) (encode_string STRING_FLAGS e v) u))"
proof -
  have "db t = db s" using db_set_options [of opts "(0, False, False)" s] assms by simp
  then show ?thesis
    by (auto simp: string_set_def kv_run and_then_Inr [where m = "set_options opts (0, False, False)", OF assms])
qed

lemma string_set_effect:
  fixes s :: "('db, 'x) world_scheme" and v :: bytes
  assumes "key_wf k" and "fst (set_options opts (0, False, False) s) = Inr (e, nx, xx)" and "\<not> (nx \<and> xx)"
  defines "t \<equiv> snd (set_options opts (0, False, False) s)" and "r \<equiv> string_set R ctx (k # v # opts) s"
  shows "if (nx \<longrightarrow> \<not> live_at (meta_of s k) (clock t 0)) \<and> (xx \<longrightarrow> live_at (meta_of s k) (clock t 0))
    then fst r = Inr (SimpleString ''OK'')
      \<and> view (db (snd r)) = (view (db s))(CF_METADATA := (view (db s) CF_METADATA)
          (meta_key ctx k \<mapsto> encode_string STRING_FLAGS e v))
    else fst r = Inr (BulkString None) \<and> db (snd r) = db s"
proof -
  have run: "set_options opts (0, False, False) s = (Inr (e, nx, xx), t)"
    using assms(2) by (simp add: t_def prod_eq_iff)
  have "db t = db s" by (simp add: t_def)
  with assms(3) show ?thesis
    unfolding r_def string_set_run [OF run] by (auto simp: Let_def world_db)
qed

text \<open>A metadata entry of a key is replaced; every other key keeps its own.\<close>

lemma lookup_meta_upd:
  assumes "key_wf k" and "key_wf k'"
  shows "lookup_meta (m(CF_METADATA := (m CF_METADATA)(meta_key ctx k \<mapsto> x))) (namespace ctx) k' =
    (if k' = k then Some x else lookup_meta m (namespace ctx) k')"
  using assms by (simp add: meta_key_def lookup_meta_put [OF namespace_wf])

lemma write_string_run [kv_run]:
  "and_then (write_string R ctx k p) f s =
   f () (put_world R CF_METADATA (meta_key ctx k) (encode_string STRING_FLAGS 0 p) s)"
  by (simp add: write_string_def kv_run)

lemma incr_run: "string_value (meta_of s k) (clock s 0) = Inr cur \<Longrightarrow>
   incr R ctx [k] s = (case (case cur of None \<Rightarrow> Some 0 | Some b \<Rightarrow> str_parse_i64 b) of
      None \<Rightarrow> (Inl (Err NotInteger), snd (read_string R ctx k s))
    | Some n \<Rightarrow> (case checked_add n 1 of
        None \<Rightarrow> (Inl (Err OutOfRange), snd (read_string R ctx k s))
      | Some n' \<Rightarrow> (Inr (Integer n'), put_world R CF_METADATA (meta_key ctx k)
          (encode_string STRING_FLAGS 0 (i64_to_string n')) (snd (read_string R ctx k s)))))"
  by (auto simp: incr_def kv_run parse_integer_def parse_i64_def split: option.split)

lemma decr_run: "string_value (meta_of s k) (clock s 0) = Inr cur \<Longrightarrow>
   decr R ctx [k] s = (case (case cur of None \<Rightarrow> Some 0 | Some b \<Rightarrow> str_parse_i64 b) of
      None \<Rightarrow> (Inl (Err NotInteger), snd (read_string R ctx k s))
    | Some n \<Rightarrow> (case checked_sub n 1 of
        None \<Rightarrow> (Inl (Err OutOfRange), snd (read_string R ctx k s))
      | Some n' \<Rightarrow> (Inr (Integer n'), put_world R CF_METADATA (meta_key ctx k)
          (encode_string STRING_FLAGS 0 (i64_to_string n')) (snd (read_string R ctx k s)))))"
  by (auto simp: decr_def kv_run parse_integer_def parse_i64_def split: option.split)

lemma append_run: "string_value (meta_of s k) (clock s 0) = Inr cur \<Longrightarrow>
   string_append R ctx [k, x] s = (let p = (case cur of None \<Rightarrow> [] | Some b \<Rightarrow> b) @ x in
     (Inr (Integer (of_nat (length p))), put_world R CF_METADATA (meta_key ctx k)
          (encode_string STRING_FLAGS 0 p) (snd (read_string R ctx k s))))"
  by (simp add: string_append_def kv_run Let_def)

text \<open>After a string of a key was written without expiry, every later read returns it.\<close>

lemma value_after_put:
  assumes "key_wf k"
  shows "string_value (meta_of (put_world R CF_METADATA (meta_key ctx k) (encode_string STRING_FLAGS 0 p) u) k) now
    = Inr (Some p)"
  using assms by (simp add: world_db lookup_meta_upd)

end

section \<open>Several keys and repeated commands\<close>

context command_env
begin

lemma incr_loop:
  fixes s :: "('db, 'x) world_scheme"
  assumes "key_wf k" and "m + n < 2 ^ 63"
    and "string_value (meta_of s k) (clock s 0) = Inr cur"
    and "(case cur of None \<Rightarrow> Some 0 | Some b \<Rightarrow> str_parse_i64 b) = Some (of_nat m)"
  shows "fst (for_loop (\<lambda>_ replies. and_then (incr R ctx [k]) (\<lambda>r. ret (replies @ [r]))) (replicate n ()) acc s)
    = Inr (acc @ map (\<lambda>i. Integer (of_nat i)) [Suc m..<Suc (m + n)])"
  using assms(2-4)
proof (induction n arbitrary: m s acc cur)
  case (Suc n)
  let ?w = "of_nat m :: i64" and ?f = "\<lambda>_ replies. and_then (incr R ctx [k]) (\<lambda>r. ret (replies @ [r]))"
  let ?s = "put_world R CF_METADATA (meta_key ctx k)
      (encode_string STRING_FLAGS 0 (i64_to_string (?w + 1))) (snd (read_string R ctx k s))"
  have m: "int m < 2 ^ 63 - 1" using Suc.prems(1) by simp
  then have "sint ?w = int m"
    using sint_word_of_int_i64 [of "int m"] by simp
  with m have "checked_add ?w 1 = Some (?w + 1)" by (simp add: checked_add_1)
  then have step: "incr R ctx [k] s = (Inr (Integer (?w + 1)), ?s)"
    using Suc.prems(3) by (simp add: incr_run [OF Suc.prems(2)])
  have "?f () acc s = (Inr (acc @ [Integer (of_nat (Suc m))]), ?s)"
    using and_then_Inr [where m = "incr R ctx [k]", OF step] by (simp add: add.commute)
  note run = for_loop_step [where f = ?f, OF this]
  have "fst (for_loop ?f (replicate n ()) (acc @ [Integer (of_nat (Suc m))]) ?s)
      = Inr ((acc @ [Integer (of_nat (Suc m))]) @ map (\<lambda>i. Integer (of_nat i)) [Suc (Suc m)..<Suc (Suc m + n)])"
    using Suc.prems(1) by (intro Suc.IH [OF _ value_after_put [OF assms(1)]]) (simp_all add: add.commute)
  moreover have "[Suc m..<Suc (m + Suc n)] = Suc m # [Suc (Suc m)..<Suc (Suc m + n)]"
    by (subst upt_conv_Cons) simp_all
  ultimately show ?case
    unfolding replicate.simps run by (simp del: upt_Suc)
qed simp

lemma mset_batch:
  "for_loop (\<lambda>(k, v) batch. batch_put R batch CF_METADATA (meta_key ctx k) (encode_string STRING_FLAGS 0 v)) ps b s
   = (Inr (b @ map (\<lambda>(k, v). Put CF_METADATA (meta_key ctx k) (encode_string STRING_FLAGS 0 v)) ps), s)"
  by (induction ps arbitrary: b) (auto simp: kv_run)

lemma lookup_meta_batch:
  assumes "key_wf k'" and "\<forall>(k, v) \<in> set ps. key_wf k"
  shows "lookup_meta (fold apply_op (map (\<lambda>(k, v). Put CF_METADATA (meta_key ctx k) (encode_string STRING_FLAGS 0 v)) ps) m)
      (namespace ctx) k' = (case map_of (rev ps) k' of
        Some v \<Rightarrow> Some (encode_string STRING_FLAGS 0 v) | None \<Rightarrow> lookup_meta m (namespace ctx) k')"
  using assms(2)
proof (induction ps arbitrary: m)
  case (Cons p ps)
  obtain k v where p: "p = (k, v)" by (cases p)
  with Cons show ?case
    by (auto simp: lookup_meta_upd [OF _ assms(1)] map_add_def split: option.split)
qed simp

lemma mset_run:
  assumes "even (length args)"
  shows "mset R ctx args s = (Inr (SimpleString ''OK''), write_world R
    (map (\<lambda>(k, v). Put CF_METADATA (meta_key ctx k) (encode_string STRING_FLAGS 0 v)) (chunks_exact2 args)) s)"
proof -
  have "\<forall>op \<in> set (map (\<lambda>(k, v). Put CF_METADATA (meta_key ctx k) (encode_string STRING_FLAGS 0 v))
      (chunks_exact2 args)). op_cf op \<in> set ALL_CFS" by auto
  note run = run_write [OF this]
  from assms have "length args mod 2 = 0" by presburger
  then show ?thesis
    unfolding mset_def by (simp add: and_then_Inr [OF mset_batch] run)
qed

lemma mget_loop:
  fixes s :: "('db, 'x) world_scheme"
  assumes "\<forall>k \<in> set ks. \<forall>now. string_value (meta_of s k) now = Inr (g k)"
  shows "fst (for_loop (\<lambda>key result. and_then (read_string R ctx key) (\<lambda>v. ret (result @ [BulkString v]))) ks acc s)
    = Inr (acc @ map (\<lambda>k. BulkString (g k)) ks)"
  using assms
proof (induction ks arbitrary: s acc)
  case (Cons k ks)
  let ?f = "\<lambda>key result. and_then (read_string R ctx key) (\<lambda>v. ret (result @ [BulkString v]))"
  have step: "?f k acc s = (Inr (acc @ [BulkString (g k)]), snd (read_string R ctx k s))"
    using Cons.prems by (simp add: run_read_string)
  have "\<forall>k' \<in> set ks. \<forall>now. string_value (meta_of (snd (read_string R ctx k s)) k') now = Inr (g k')"
    using Cons.prems by simp
  then show ?case
    unfolding for_loop_step [where f = ?f, OF step] by (subst Cons.IH) simp_all
qed simp

lemma mget_fst:
  assumes "ks \<noteq> []" and "\<forall>k \<in> set ks. \<forall>now. string_value (meta_of s k) now = Inr (g k)"
  shows "fst (mget R ctx ks s) = Inr (Array (map (\<lambda>k. BulkString (g k)) ks))"
proof -
  have "Suc 0 \<le> length ks" using assms(1) by (simp add: Suc_le_eq)
  moreover have "fst (and_then m (\<lambda>r. ret (Array r)) s) = Inr (Array x)" if "fst (m s) = Inr x" for m x
    using that by (cases "m s") (simp add: and_then_def)
  ultimately show ?thesis
    using mget_loop [OF assms(2), of "[]"] by (simp add: mget_def run_expect_min_arg_count)
qed

end

section \<open>Expiry\<close>

text \<open>
  An entry any command can have written decodes as a string or as the metadata of a composite
  object; \<open>with_expire\<close> is that entry with another expiry time.
\<close>

definition entry_ok :: "bytes \<Rightarrow> bool" where
  "entry_ok v \<longleftrightarrow> v \<noteq> [] \<and> (if string_entry v then decode_string v \<noteq> None else decode_metadata v \<noteq> None)"

definition with_expire :: "bytes \<Rightarrow> i64 \<Rightarrow> bytes" where
  "with_expire v e = (if string_entry v
     then (case decode_string v of Some (f, _, p) \<Rightarrow> encode_string f e p | None \<Rightarrow> v)
     else (case decode_metadata v of Some m \<Rightarrow> encode_metadata (m\<lparr>m_expire := e\<rparr>) | None \<Rightarrow> v))"

lemma decode_metadata_wf: "decode_metadata v = Some m \<Longrightarrow> meta_wf m"
  by (auto simp: decode_metadata_def meta_wf_def metadata_data_type_def data_type_from_flags_def
      split: if_splits option.splits)

lemma decode_metadata_flags: "decode_metadata v = Some m \<Longrightarrow> m_flags m = v ! 0"
  by (auto simp: decode_metadata_def split: if_splits option.splits)

lemma nth_encode_metadata [simp]: "encode_metadata m ! 0 = m_flags m" "encode_metadata m \<noteq> []"
  by (simp_all add: encode_metadata_def)

lemma decode_string_flags: "decode_string v = Some (f, e, p) \<Longrightarrow> f = v ! 0"
  by (auto simp: decode_string_def split: if_splits)

lemma string_entry_with_expire [simp]: "string_entry (with_expire v e) = string_entry v"
  by (auto simp: with_expire_def string_entry_def dest: decode_metadata_flags decode_string_flags
      split: option.splits)

lemma decode_string_with_expire:
  "string_entry v \<Longrightarrow> decode_string (with_expire v e) = map_option (\<lambda>(f, _, p). (f, e, p)) (decode_string v)"
  by (auto simp: with_expire_def split: option.splits)

lemma decode_metadata_with_expire:
  assumes "\<not> string_entry v"
  shows "decode_metadata (with_expire v e) = map_option (m_expire_update (\<lambda>_. e)) (decode_metadata v)"
proof (cases "decode_metadata v")
  case (Some m)
  then have "meta_wf (m\<lparr>m_expire := e\<rparr>)"
    using decode_metadata_wf [OF Some] by (simp add: meta_wf_def metadata_data_type_def)
  with assms Some show ?thesis by (simp add: with_expire_def decode_encode_metadata)
qed (use assms in \<open>simp add: with_expire_def\<close>)

lemma with_expire_nonempty: "v \<noteq> [] \<Longrightarrow> with_expire v e \<noteq> []"
  by (auto simp: with_expire_def split: option.splits)

lemma entry_ok_with_expire: "entry_ok v \<Longrightarrow> entry_ok (with_expire v e)"
  by (auto simp: entry_ok_def with_expire_nonempty decode_string_with_expire decode_metadata_with_expire)

lemma meta_expire_with_expire: "entry_ok v \<Longrightarrow> meta_expire (with_expire v e) = e"
  by (auto simp: meta_expire_def entry_ok_def with_expire_nonempty decode_string_with_expire
      decode_metadata_with_expire)

lemma entry_ok_string [simp]: "entry_ok (encode_string STRING_FLAGS e p)"
  by (simp add: entry_ok_def string_entry_def)

lemma string_value_with_expire:
  assumes "string_value (Some v) now = Inr (Some p)" and "entry_ok v"
  shows "string_value (Some (with_expire v e)) now' = Inr (if expired_at e now' then None else Some p)"
proof -
  obtain f e0 where d: "decode_string v = Some (f, e0, p)" and f: "f AND 0x0F = code DT_String"
    using assms(1) by (auto simp: string_value_def split: option.splits if_splits)
  then have "string_entry v"
    using decode_string_flags [OF d] by (simp add: string_entry_def FLAGS_TYPE_MASK_def)
  with d f show ?thesis by (simp add: string_value_def decode_string_with_expire)
qed

context command_env
begin

lemma read_expire_run:
  assumes "meta_of s k = Some v" and "entry_ok v"
  shows "read_expire R ctx k s =
    (Inr (Some (if 0 < sint (meta_expire v) then Some (meta_expire v) else None)), s)"
  using assms
  by (auto simp: read_expire_def kv_run entry_ok_def string_entry_def meta_expire_def and_then_assoc)

lemma set_expire_ms_run:
  assumes "meta_of s k = Some v" and "entry_ok v"
  shows "set_expire_ms R ctx k e s = (Inr True, put_world R CF_METADATA (meta_key ctx k) (with_expire v e) s)"
  using assms
  by (auto simp: set_expire_ms_def kv_run entry_ok_def string_entry_def with_expire_def and_then_assoc)

lemma pexpire_run:
  assumes "str_parse_i64 a = Some ms" and "meta_of s k = Some v" and "entry_ok v"
  shows "\<exists>t. pexpire R ctx [k, a] s = (Inr (Integer 1), t)
    \<and> view (db t) = (view (db s))(CF_METADATA := (view (db s) CF_METADATA)
         (meta_key ctx k \<mapsto> with_expire v (clock s 0 + ms)))"
proof -
  let ?s = "s\<lparr>clock := \<lambda>i. clock s (Suc i)\<rparr>"
  have "meta_of ?s k = Some v" using assms(2) by simp
  note run = set_expire_ms_run [OF this assms(3), of "clock s 0 + ms"]
  show ?thesis
    using assms(1) by (simp add: pexpire_def kv_run parse_i64_def and_then_Inr [where m = "set_expire_ms R ctx k _", OF run] world_db)
qed

lemma expire_run:
  assumes "str_parse_i64 a = Some secs" and "meta_of s k = Some v" and "entry_ok v"
  shows "\<exists>t. string_expire R ctx [k, a] s = (Inr (Integer 1), t)
    \<and> view (db t) = (view (db s))(CF_METADATA := (view (db s) CF_METADATA)
         (meta_key ctx k \<mapsto> with_expire v (clock s 0 + secs * 1000)))"
proof -
  let ?s = "s\<lparr>clock := \<lambda>i. clock s (Suc i)\<rparr>"
  have "meta_of ?s k = Some v" using assms(2) by simp
  note run = set_expire_ms_run [OF this assms(3), of "clock s 0 + secs * 1000"]
  show ?thesis
    using assms(1) by (simp add: string_expire_def kv_run parse_i64_def and_then_Inr [where m = "set_expire_ms R ctx k _", OF run] world_db)
qed

lemma pttl_fst:
  assumes "meta_of s k = Some v" and "entry_ok v"
  shows "fst (pttl R ctx [k] s) = Inr (Integer
    (if sint (meta_expire v) \<le> 0 then -1 else if sint (meta_expire v) \<le> sint (clock s 0) then -2
     else meta_expire v - clock s 0))"
  by (simp add: pttl_def kv_run and_then_Inr [where m = "read_expire R ctx k", OF read_expire_run [OF assms]])

lemma ttl_fst:
  assumes "meta_of s k = Some v" and "entry_ok v"
  shows "fst (ttl R ctx [k] s) = Inr (Integer
    (if sint (meta_expire v) \<le> 0 then -1 else if sint (meta_expire v) \<le> sint (clock s 0) then -2
     else i64_div (meta_expire v - clock s 0 + 999) 1000))"
  by (simp add: ttl_def kv_run and_then_Inr [where m = "read_expire R ctx k", OF read_expire_run [OF assms]])

end

section \<open>Deleting\<close>

text \<open>
  The subkeys DEL removes with an entry (the version, and whether the scores go too), and what
  the column families hold after one key was deleted.
\<close>

definition doomed :: "bytes \<Rightarrow> (u64 \<times> bool) option" where
  "doomed v = (if v \<noteq> [] \<and> \<not> string_entry v
     then map_option (\<lambda>m. (m_version m, metadata_data_type m = Some DT_ZSet)) (decode_metadata v) else None)"

definition drop_prefix :: "string \<Rightarrow> bytes \<Rightarrow> (string \<Rightarrow> bytes \<rightharpoonup> bytes) \<Rightarrow> (string \<Rightarrow> bytes \<rightharpoonup> bytes)" where
  "drop_prefix cf p m = m(cf := m cf |` {k. \<not> prefix p k})"

definition del_view :: "bytes \<Rightarrow> bytes \<Rightarrow> bytes \<Rightarrow> (string \<Rightarrow> bytes \<rightharpoonup> bytes) \<Rightarrow> (string \<Rightarrow> bytes \<rightharpoonup> bytes)" where
  "del_view ns k v m = (let m' = (case doomed v of
        None \<Rightarrow> m
      | Some (ver, zset) \<Rightarrow>
          (if zset then drop_prefix CF_ZSET_SCORE (subkey k ver [] ns) else id)
            (drop_prefix CF_SUBKEY (subkey k ver [] ns) m))
     in m'(CF_METADATA := (m' CF_METADATA)(metadata_key k ns := None)))"

lemma drop_prefix_simps [simp]:
  "cf \<noteq> cf' \<Longrightarrow> drop_prefix cf' p m cf = m cf"
  "drop_prefix cf p m cf x = (if prefix p x then None else m cf x)"
  by (auto simp: drop_prefix_def restrict_map_def)

lemma del_view_metadata: "del_view ns k v m CF_METADATA = (m CF_METADATA)(metadata_key k ns := None)"
  by (auto simp: del_view_def Let_def split: option.split)

lemma del_view_subkeys:
  "cf = CF_SUBKEY \<or> cf = CF_ZSET_SCORE \<Longrightarrow> del_view ns k v m cf x = (case doomed v of
     Some (ver, zset) \<Rightarrow> if (cf = CF_SUBKEY \<or> zset) \<and> prefix (subkey k ver [] ns) x then None else m cf x
   | None \<Rightarrow> m cf x)"
  by (auto simp: del_view_def Let_def split: option.split)

lemma lookup_meta_del_view:
  assumes "ns_wf ns" and "key_wf k" and "key_wf k'" and "ns \<noteq> [] \<Longrightarrow> m CF_METADATA (metadata_key k []) = None"
  shows "lookup_meta (del_view ns k v m) ns k' = (if k' = k then None else lookup_meta m ns k')"
proof -
  have "lookup_meta (del_view ns k v m) ns k' =
      lookup_meta (m(CF_METADATA := (m CF_METADATA)(metadata_key k ns := None))) ns k'"
    by (rule lookup_meta_cong) (simp add: del_view_metadata)
  with assms show ?thesis by (simp add: lookup_meta_delete)
qed

text \<open>The subkeys and scores of other keys, and of the same key in other namespaces, stay.\<close>

lemma del_view_frame:
  assumes "ns_wf ns" and "key_wf k" and "key_wf k'" and "ns_wf ns'" and "k' \<noteq> k \<or> ns' \<noteq> ns"
    and "cf = CF_SUBKEY \<or> cf = CF_ZSET_SCORE"
  shows "del_view ns k v m cf (subkey k' ver sub ns') = m cf (subkey k' ver sub ns')"
proof -
  have "\<not> prefix (subkey k w [] ns) (subkey k' ver sub ns')" for w
    using subkey_prefix_code [OF assms(2,3,1,4), of w _ ver sub] assms(5) by (auto simp: prefix_subkey_iff)
  then show ?thesis using assms(6) by (simp add: del_view_subkeys split: option.split)
qed

text \<open>The state of the whole database after the keys were deleted one by one.\<close>

definition del_step :: "bytes \<Rightarrow> bytes \<Rightarrow> (string \<Rightarrow> bytes \<rightharpoonup> bytes) \<Rightarrow> (string \<Rightarrow> bytes \<rightharpoonup> bytes)" where
  "del_step ns k m = (case lookup_meta m ns k of None \<Rightarrow> m | Some v \<Rightarrow> del_view ns k v m)"

context command_env
begin

lemma purge_subkeys_run:
  "\<exists>t. purge_subkeys R ctx k ver zset s = (Inr (), t) \<and> view (db t) =
     (if zset then drop_prefix CF_ZSET_SCORE (subkey k ver [] (namespace ctx)) else id)
       (drop_prefix CF_SUBKEY (subkey k ver [] (namespace ctx)) (view (db s)))"
  by (simp add: purge_subkeys_def sub_key_def kv_run purge_world_db drop_prefix_def Let_def with_capacity_ok_def DEL_BATCH_SIZE_def)

lemma purge_entry_run:
  "\<exists>t. (if v \<noteq> [] \<and> v ! 0 AND FLAGS_TYPE_MASK \<noteq> code DT_String
       then (case decode_metadata v of
           Some meta \<Rightarrow> purge_subkeys R ctx k (m_version meta) (metadata_data_type meta = Some DT_ZSet)
         | None \<Rightarrow> ret ())
       else ret ()) s = (Inr (), t)
     \<and> (view (db t))(CF_METADATA := (view (db t) CF_METADATA)(metadata_key k (namespace ctx) := None))
       = del_view (namespace ctx) k v (view (db s))"
proof (cases "doomed v")
  case None
  then show ?thesis
    by (auto simp: doomed_def string_entry_def del_view_def Let_def split: option.split)
next
  case (Some d)
  then obtain m where v: "v \<noteq> []" "\<not> string_entry v" and m: "decode_metadata v = Some m"
    and d: "d = (m_version m, metadata_data_type m = Some DT_ZSet)"
    by (auto simp: doomed_def split: if_splits)
  obtain t where "purge_subkeys R ctx k (m_version m) (metadata_data_type m = Some DT_ZSet) s = (Inr (), t)"
    and "view (db t) = (if snd d then drop_prefix CF_ZSET_SCORE (subkey k (fst d) [] (namespace ctx)) else id)
      (drop_prefix CF_SUBKEY (subkey k (fst d) [] (namespace ctx)) (view (db s)))"
    using purge_subkeys_run [of k "m_version m" "metadata_data_type m = Some DT_ZSet" s] by (auto simp: d)
  with v m Some show ?thesis
    by (intro exI [of _ t]) (simp add: string_entry_def del_view_def case_prod_unfold Let_def)
qed

lemma del_key_run:
  "\<exists>t. del_key R ctx k c s = (Inr (if meta_of s k = None then c else c + 1), t)
     \<and> view (db t) = del_step (namespace ctx) k (view (db s))"
proof (cases "meta_of s k")
  case None
  then show ?thesis by (simp add: del_key_def kv_run del_step_def)
next
  case (Some v)
  obtain t where t: "(if v \<noteq> [] \<and> v ! 0 AND FLAGS_TYPE_MASK \<noteq> code DT_String
       then (case decode_metadata v of
           Some meta \<Rightarrow> purge_subkeys R ctx k (m_version meta) (metadata_data_type meta = Some DT_ZSet)
         | None \<Rightarrow> ret ())
       else ret ()) s = (Inr (), t)" (is "?purge s = _")
    and "(view (db t))(CF_METADATA := (view (db t) CF_METADATA)(metadata_key k (namespace ctx) := None))
       = del_view (namespace ctx) k v (view (db s))"
    using purge_entry_run by blast
  moreover have "del_key R ctx k c s = (Inr (c + 1), delete_world R CF_METADATA (meta_key ctx k) t)"
    unfolding del_key_def run_get_meta Some option.case and_then_Inr [where m = ?purge, OF t]
    by (simp add: run_delete)
  ultimately show ?thesis
    using Some by (simp add: world_db del_step_def meta_key_def)
qed

lemma del_loop:
  assumes "\<forall>k \<in> set ks. key_wf k"
    and "namespace ctx \<noteq> [] \<longrightarrow> (\<forall>k \<in> set ks. view (db s) CF_METADATA (metadata_key k []) = None)"
  shows "\<exists>t. for_loop (del_key R ctx) ks c s = (Inr (c + of_nat (card {k \<in> set ks. meta_of s k \<noteq> None})), t)
     \<and> view (db t) = fold (del_step (namespace ctx)) ks (view (db s))"
  using assms
proof (induction ks arbitrary: c s)
  case (Cons k ks)
  let ?c = "if meta_of s k = None then c else c + 1"
  obtain t where step: "del_key R ctx k c s = (Inr ?c, t)"
    and t: "view (db t) = del_step (namespace ctx) k (view (db s))"
    using del_key_run by blast
  have wf: "key_wf k" using Cons.prems(1) by simp
  have legacy: "namespace ctx \<noteq> [] \<Longrightarrow> view (db s) CF_METADATA (metadata_key k []) = None"
    using Cons.prems(2) by simp
  have meta: "meta_of t k' = (if k' = k then None else meta_of s k')" if "key_wf k'" for k'
    using lookup_meta_del_view [where m = "view (db s)", OF namespace_wf wf that legacy] by (auto simp: t del_step_def split: option.split)
  have "namespace ctx \<noteq> [] \<longrightarrow> (\<forall>k \<in> set ks. view (db t) CF_METADATA (metadata_key k []) = None)"
    using Cons.prems(2) by (auto simp: t del_step_def del_view_metadata split: option.split)
  then obtain u where rest: "for_loop (del_key R ctx) ks ?c t
        = (Inr (?c + of_nat (card {k \<in> set ks. meta_of t k \<noteq> None})), u)"
    and u: "view (db u) = fold (del_step (namespace ctx)) ks (view (db t))"
    using Cons.IH [of t ?c] Cons.prems(1) by auto
  have "{k' \<in> set (k # ks). meta_of s k' \<noteq> None} =
      {k' \<in> set ks. meta_of t k' \<noteq> None} \<union> (if meta_of s k = None then {} else {k})"
    using Cons.prems(1) meta by (auto split: if_splits)
  moreover have "k \<notin> {k' \<in> set ks. meta_of t k' \<noteq> None}" using meta [OF wf] by simp
  ultimately have "c + of_nat (card {k' \<in> set (k # ks). meta_of s k' \<noteq> None}) =
      ?c + of_nat (card {k' \<in> set ks. meta_of t k' \<noteq> None})"
    by simp
  then show ?case
    unfolding for_loop_step [where f = "del_key R ctx", OF step] rest using u t by simp
qed simp

end

text \<open>What is left after all keys of a list were deleted.\<close>

lemma lookup_meta_del_step:
  assumes "ns_wf ns" and "key_wf k" and "key_wf k'" and "ns \<noteq> [] \<Longrightarrow> m CF_METADATA (metadata_key k []) = None"
  shows "lookup_meta (del_step ns k m) ns k' = (if k' = k then None else lookup_meta m ns k')"
  using lookup_meta_del_view [where m = m, OF assms] by (auto simp: del_step_def split: option.split)

lemma del_step_metadata: "m CF_METADATA x = None \<Longrightarrow> del_step ns k m CF_METADATA x = None"
  by (auto simp: del_step_def del_view_metadata split: option.split)

lemma lookup_meta_del_all:
  assumes "ns_wf ns" and "\<forall>k \<in> set ks. key_wf k" and "key_wf k'"
    and "ns \<noteq> [] \<longrightarrow> (\<forall>k \<in> set ks. m CF_METADATA (metadata_key k []) = None)"
  shows "lookup_meta (fold (del_step ns) ks m) ns k' = (if k' \<in> set ks then None else lookup_meta m ns k')"
  using assms(2,4)
proof (induction ks arbitrary: m)
  case (Cons k ks)
  have "lookup_meta (del_step ns k m) ns k' = (if k' = k then None else lookup_meta m ns k')"
    using Cons.prems assms(1,3) by (intro lookup_meta_del_step) auto
  with Cons show ?case by (auto simp: del_step_metadata)
qed simp

lemma del_step_gone:
  "cf = CF_SUBKEY \<or> cf = CF_ZSET_SCORE \<Longrightarrow> m cf x = None \<Longrightarrow> del_step ns k m cf x = None"
  by (auto simp: del_step_def del_view_subkeys split: option.split)

lemma del_all_gone:
  "cf = CF_SUBKEY \<or> cf = CF_ZSET_SCORE \<Longrightarrow> m cf x = None \<Longrightarrow> fold (del_step ns) ks m cf x = None"
  by (induction ks arbitrary: m) (simp_all add: del_step_gone)

lemma del_all_frame:
  assumes "ns_wf ns" and "\<forall>k \<in> set ks. key_wf k" and "key_wf k'" and "ns_wf ns'" and "k' \<notin> set ks \<or> ns' \<noteq> ns"
    and "cf = CF_SUBKEY \<or> cf = CF_ZSET_SCORE"
  shows "fold (del_step ns) ks m cf (subkey k' ver sub ns') = m cf (subkey k' ver sub ns')"
  using assms(2,5)
proof (induction ks arbitrary: m)
  case (Cons k ks)
  have "del_step ns k m cf (subkey k' ver sub ns') = m cf (subkey k' ver sub ns')"
    using Cons.prems assms del_view_frame [of ns k k' ns' cf] by (auto simp: del_step_def split: option.split)
  with Cons show ?case by auto
qed simp

lemma del_all_frame_metadata:
  assumes "ns_wf ns" and "\<forall>k \<in> set ks. key_wf k" and "key_wf k'" and "ns_wf ns'" and "k' \<notin> set ks \<or> ns' \<noteq> ns"
  shows "fold (del_step ns) ks m CF_METADATA (metadata_key k' ns') = m CF_METADATA (metadata_key k' ns')"
  using assms(2,5)
proof (induction ks arbitrary: m)
  case (Cons k ks)
  have "metadata_key k' ns' \<noteq> metadata_key k ns"
    using Cons.prems assms(1,3,4) by (auto simp: metadata_key_eq_iff)
  then have "del_step ns k m CF_METADATA (metadata_key k' ns') = m CF_METADATA (metadata_key k' ns')"
    by (simp add: del_step_def del_view_metadata split: option.split)
  with Cons show ?case by auto
qed simp

text \<open>The entries that go with a key whose metadata entry is \<open>v\<close>.\<close>

definition del_removes :: "bytes \<Rightarrow> bytes \<Rightarrow> bytes \<Rightarrow> string \<Rightarrow> bytes \<Rightarrow> bool" where
  "del_removes ns k v cf x \<longleftrightarrow> cf = CF_METADATA \<and> x = metadata_key k ns
     \<or> (\<exists>ver zset sub. doomed v = Some (ver, zset) \<and> x = subkey k ver sub ns
          \<and> (cf = CF_SUBKEY \<or> zset \<and> cf = CF_ZSET_SCORE))"

lemma del_view_exact: "del_view ns k v m cf x = (if del_removes ns k v cf x then None else m cf x)"
proof (cases "cf = CF_METADATA")
  case True
  then show ?thesis by (simp add: del_view_metadata del_removes_def)
next
  case False
  show ?thesis
  proof (cases "cf = CF_SUBKEY \<or> cf = CF_ZSET_SCORE")
    case True
    with False show ?thesis
      by (auto simp: del_view_subkeys del_removes_def prefix_subkey_iff split: option.split)
  next
    case other: False
    with False have "del_view ns k v m cf = m cf"
      by (auto simp: del_view_def Let_def drop_prefix_def split: option.split)
    with other False show ?thesis by (simp add: del_removes_def)
  qed
qed

lemma del_all_exact:
  assumes "ns_wf ns" and "\<forall>k \<in> set ks. key_wf k"
    and "ns \<noteq> [] \<longrightarrow> (\<forall>k \<in> set ks. m CF_METADATA (metadata_key k []) = None)"
  shows "fold (del_step ns) ks m cf x =
    (if \<exists>k \<in> set ks. \<exists>v. lookup_meta m ns k = Some v \<and> del_removes ns k v cf x then None else m cf x)"
  using assms(2,3)
proof (induction ks arbitrary: m)
  case (Cons k ks)
  have meta: "lookup_meta (del_step ns k m) ns k' = (if k' = k then None else lookup_meta m ns k')" if "k' \<in> set ks" for k'
    using Cons.prems assms(1) that by (intro lookup_meta_del_step) auto
  have "fold (del_step ns) ks (del_step ns k m) cf x =
      (if \<exists>k' \<in> set ks. \<exists>v. lookup_meta (del_step ns k m) ns k' = Some v \<and> del_removes ns k' v cf x then None
       else del_step ns k m cf x)"
    using Cons.prems by (intro Cons.IH) (auto simp: del_step_metadata)
  also have "\<dots> = (if \<exists>k' \<in> set (k # ks). \<exists>v. lookup_meta m ns k' = Some v \<and> del_removes ns k' v cf x then None else m cf x)"
    using meta by (auto simp: del_step_def del_view_exact split: option.splits if_splits)
  finally show ?case by simp
qed simp

section \<open>Properties of the string commands\<close>

text \<open>C1: SET with options. For a key below \<open>2 ^ 24\<close> bytes and any sequence of the options EX, PX, NX and
  XX, in any case, EX and PX with a positive number: with both NX and XX the reply is a syntax error and
  the database is unchanged. Otherwise, when NX is given and a live key exists, or XX is given and none
  does, the reply is nil and the database is unchanged. Otherwise the reply is OK, exactly the metadata
  entry of the key is written, and every later GET of the key returns the value until the deadline has
  passed, where the deadline is that of the last EX or PX option: the clock reading taken for it plus
  1000 times the seconds of EX, or plus the milliseconds of PX, in 64-bit arithmetic that wraps around;
  no deadline without such an option. Whether the key lives is decided at the next reading.\<close>

theorem set_then_get:
  fixes s s2 :: "('db, 'x) world_scheme"
  assumes "command_env R view ctx" and "key_wf k" and "list_all2 spells os wss"
    and "found = live_at (lookup_meta (view (db s)) (namespace ctx) k) (clock s (length (lifetimes os)))"
    and "r = string_set R ctx (k # v # concat wss) s" and "db s2 = db (snd r)"
  shows "if Opt_NX \<in> set os \<and> Opt_XX \<in> set os then fst r = Inl (Err (Command ''syntax error'')) \<and> db s2 = db s
    else if Opt_NX \<in> set os \<and> found \<or> Opt_XX \<in> set os \<and> \<not> found then fst r = Inr (BulkString None) \<and> db s2 = db s
    else fst r = Inr (SimpleString ''OK'')
      \<and> (\<forall>cf x. cf \<noteq> CF_METADATA \<or> x \<noteq> metadata_key k (namespace ctx) \<longrightarrow> view (db s2) cf x = view (db s) cf x)
      \<and> fst (string_get R ctx [k] s2) = Inr (BulkString
          (if 0 < sint (set_deadline (clock s) os) \<and> sint (set_deadline (clock s) os) \<le> sint (clock s2 0) then None else Some v))"
proof -
  let ?n = "length (lifetimes os)" and ?e = "set_deadline (clock s) os"
  let ?t = "s\<lparr>clock := \<lambda>i. clock s (i + ?n)\<rparr>"
  have run: "set_options (concat wss) (0, False, False) s = (Inr (?e, Opt_NX \<in> set os, Opt_XX \<in> set os), ?t)"
    using set_options_spells [OF assms(3), of 0 False False s] by (simp add: set_deadline_def Let_def)
  then have opts: "fst (set_options (concat wss) (0, False, False) s) = Inr (?e, Opt_NX \<in> set os, Opt_XX \<in> set os)"
    and t: "clock (snd (set_options (concat wss) (0, False, False) s)) 0 = clock s ?n" by simp_all
  note effect = command_env.string_set_effect [OF assms(1,2) opts, of v, unfolded t, folded assms(4,5)]
    and meta = command_env.lookup_meta_upd [OF assms(1,2,2)]
  show ?thesis
  proof (cases "Opt_NX \<in> set os \<and> Opt_XX \<in> set os")
    case True
    then show ?thesis
      using command_env.string_set_run [OF assms(1) run, of k v] assms(5,6) by simp
  next
    case False
    with effect assms(6) show ?thesis
      by (auto simp: command_env.string_get_fst [OF assms(1)] meta [unfolded meta_key_def] meta_key_def expired_at_def)
  qed
qed

theorem set_then_get_witness:
  "fst (string_set mem_store (tenant_context []) [bytes_of ''k'', bytes_of ''v'', bytes_of ''nx'', bytes_of ''Ex'', bytes_of ''5''] (mem_world []))
     = Inr (SimpleString ''OK'')
   \<and> fst (string_get mem_store (tenant_context []) [bytes_of ''k'']
       (mem_world (db (snd (string_set mem_store (tenant_context [])
         [bytes_of ''k'', bytes_of ''v'', bytes_of ''nx'', bytes_of ''Ex'', bytes_of ''5''] (mem_world []))))))
     = Inr (bulk (bytes_of ''v''))"
proof -
  let ?wss = "[[bytes_of ''nx''], [bytes_of ''Ex'', bytes_of ''5'']]"
  let ?r = "string_set mem_store (tenant_context []) (bytes_of ''k'' # bytes_of ''v'' # concat ?wss) (mem_world [])"
  have five: "str_parse_i64 (bytes_of ''5'') = Some 5"
    by (simp add: str_parse_i64_def parse_unsigned_def parse_nat_def bytes_of_def)
  have spelled: "list_all2 spells [Opt_NX, Opt_EX 5] ?wss"
    using five by (simp add: eq_ignore_ascii_case_def to_ascii_uppercase_def ascii_upper_def bytes_of_def)
  show ?thesis
    using set_then_get [OF mem_env.command_env_axioms [of "[]"], of "bytes_of ''k''" "[Opt_NX, Opt_EX 5]" ?wss False "mem_world []"
        ?r "bytes_of ''v''" "mem_world (db (snd ?r))"] spelled
    by (simp add: key_wf_def live_at_def lookup_meta_def mem_world_def mem_view_def set_deadline_def)
qed

text \<open>SET of one key does not change what any other key holds, whatever the type of the other
  key: its metadata entry is the same, and so are all subkeys and scores in the database.\<close>

theorem set_frame:
  fixes s :: "('db, 'x) world_scheme"
  assumes "command_env R view ctx" and "key_wf k" and "key_wf k'" and "k' \<noteq> k"
    and "fst (set_options opts (0, False, False) s) = Inr (e, nx, xx)" and "\<not> (nx \<and> xx)"
    and "s2 = snd (string_set R ctx (k # v # opts) s)"
  shows "lookup_meta (view (db s2)) (namespace ctx) k' = lookup_meta (view (db s)) (namespace ctx) k'
    \<and> (\<forall>cf. cf \<noteq> CF_METADATA \<longrightarrow> view (db s2) cf = view (db s) cf)"
  using command_env.string_set_effect [OF assms(1,2,5,6), of v] assms(4,7)
    command_env.lookup_meta_upd [OF assms(1,2,3)]
  by (auto split: if_splits)

theorem set_frame_witness:
  "lookup_meta (mem_view (db (snd (string_set mem_store (tenant_context []) [bytes_of ''k'', bytes_of ''v'']
     (mem_world [((CF_METADATA, metadata_key (bytes_of ''a'') []), encode_string STRING_FLAGS 0 [1])])))))
     [] (bytes_of ''a'') = Some (encode_string STRING_FLAGS 0 [1])"
  using set_frame [OF mem_env.command_env_axioms [of "[]"], of "bytes_of ''k''" "bytes_of ''a''" "[]"
      "mem_world [((CF_METADATA, metadata_key (bytes_of ''a'') []), encode_string STRING_FLAGS 0 [1])]"
      0 False False _ "bytes_of ''v''"]
  by (simp add: key_wf_def mem_world_def lookup_meta_def mem_view_def)

text \<open>C6: INCR. A missing or expired key counts as 0; a value that is not a decimal 64-bit integer
  and an increment beyond the largest one are errors that leave the database as it was; otherwise
  the reply is the incremented integer and later reads return its decimal text.\<close>

theorem incr_spec:
  fixes s s2 :: "('db, 'x) world_scheme"
  assumes "command_env R view ctx" and "key_wf k" and "fst (string_get R ctx [k] s) = Inr (BulkString cur)"
    and "db s2 = db (snd (incr R ctx [k] s))"
  shows "case (case cur of None \<Rightarrow> Some 0 | Some b \<Rightarrow> str_parse_i64 b) of
      None \<Rightarrow> fst (incr R ctx [k] s) = Inl (Err NotInteger) \<and> db s2 = db s
    | Some n \<Rightarrow> if sint n = 2 ^ 63 - 1
        then fst (incr R ctx [k] s) = Inl (Err OutOfRange) \<and> db s2 = db s
        else fst (incr R ctx [k] s) = Inr (Integer (n + 1)) \<and> sint (n + 1) = sint n + 1
          \<and> fst (string_get R ctx [k] s2) = Inr (bulk (i64_to_string (n + 1)))"
proof -
  have cur: "string_value (lookup_meta (view (db s)) (namespace ctx) k) (clock s 0) = Inr cur"
    using assms(3) by (auto simp: command_env.string_get_fst [OF assms(1)] split: sum.splits)
  show ?thesis
    using assms(4)
    by (auto simp: command_env.value_after_put [OF assms(1,2)] command_env.incr_run [OF assms(1) cur]
        checked_add_1 sint_add_1 command_env.db_read_string [OF assms(1)]
        command_env.string_get_fst [OF assms(1)] split: option.split)
qed

theorem incr_spec_witness:
  "fst (incr mem_store (tenant_context []) [bytes_of ''n''] (mem_world [])) = Inr (Integer 1)"
  using incr_spec [OF mem_env.command_env_axioms, of "bytes_of ''n''" "[]" "mem_world []" None]
  by (simp add: key_wf_def mem_env.string_get_fst string_value_def lookup_meta_def mem_view_def mem_world_def)

text \<open>Counting. From a key that holds no value, \<open>n\<close> INCR commands in a row reply
  1, 2, ..., \<open>n\<close>.\<close>

theorem incr_counts:
  fixes s :: "('db, 'x) world_scheme"
  assumes "command_env R view ctx" and "key_wf k" and "n < 2 ^ 63"
    and "fst (string_get R ctx [k] s) = Inr (BulkString None)"
  shows "fst (for_loop (\<lambda>_ replies. and_then (incr R ctx [k]) (\<lambda>r. ret (replies @ [r]))) (replicate n ()) [] s)
    = Inr (map (\<lambda>i. Integer (of_nat i)) [1..<Suc n])"
proof -
  have "string_value (lookup_meta (view (db s)) (namespace ctx) k) (clock s 0) = Inr None"
    using assms(4) by (auto simp: command_env.string_get_fst [OF assms(1)] split: sum.splits)
  then show ?thesis
    using command_env.incr_loop [OF assms(1,2), of 0 n s None "[]"] assms(3) by simp
qed

theorem incr_counts_witness:
  "fst (for_loop (\<lambda>_ replies. and_then (incr mem_store (tenant_context []) [bytes_of ''n''])
      (\<lambda>r. ret (replies @ [r]))) (replicate 3 ()) [] (mem_world [])) = Inr [Integer 1, Integer 2, Integer 3]"
  using incr_counts [OF mem_env.command_env_axioms, of "bytes_of ''n''" 3 "[]" "mem_world []"]
  by (simp add: key_wf_def mem_env.string_get_fst string_value_def lookup_meta_def mem_view_def mem_world_def upt_rec)

text \<open>C8: MSET writes all its pairs, the last one winning where a key is repeated, and MGET returns
  what was written.\<close>

theorem mset_then_mget:
  fixes s s2 :: "('db, 'x) world_scheme"
  assumes "command_env R view ctx" and "even (length args)" and "\<forall>(k, v) \<in> set (chunks_exact2 args). key_wf k"
    and "db s2 = db (snd (mset R ctx args s))" and "ks \<noteq> []" and "set ks \<subseteq> fst ` set (chunks_exact2 args)"
  shows "fst (mset R ctx args s) = Inr (SimpleString ''OK'')
    \<and> fst (mget R ctx ks s2) = Inr (Array (map (\<lambda>k. BulkString (map_of (rev (chunks_exact2 args)) k)) ks))"
proof -
  let ?ps = "chunks_exact2 args"
  let ?ops = "map (\<lambda>(k, v). Put CF_METADATA (meta_key ctx k) (encode_string STRING_FLAGS 0 v)) ?ps"
  note run = command_env.mset_run [OF assms(1,2), of s]
  have view2: "view (db s2) = fold apply_op ?ops (view (db s))"
    using command_env.axioms(1) [OF assms(1)] run assms(4)
    by (simp add: rocksdb_contract.write_world_db split_beta)
  have "\<forall>k \<in> set ks. \<forall>now. string_value (lookup_meta (view (db s2)) (namespace ctx) k) now = Inr (map_of (rev ?ps) k)"
  proof (intro ballI allI)
    fix k now
    assume "k \<in> set ks"
    with assms(6) have "k \<in> fst ` set ?ps" by auto
    then obtain v where "map_of (rev ?ps) k = Some v" and "key_wf k"
      using assms(3) by (metis (no_types, lifting) case_prodD imageE map_of_eq_None_iff not_Some_eq prod.collapse set_rev)
    then show "string_value (lookup_meta (view (db s2)) (namespace ctx) k) now = Inr (map_of (rev ?ps) k)"
      using command_env.lookup_meta_batch [OF assms(1) _ assms(3), of k "view (db s)"] by (simp add: view2)
  qed
  then show ?thesis
    using run command_env.mget_fst [OF assms(1,5)] by simp
qed

theorem mset_then_mget_witness:
  "fst (mget mem_store (tenant_context []) [bytes_of ''a'', bytes_of ''b'']
     (snd (mset mem_store (tenant_context []) [bytes_of ''a'', [1], bytes_of ''b'', [2], bytes_of ''a'', [3]] (mem_world []))))
   = Inr (Array [bulk [3], bulk [2]])"
  using mset_then_mget [OF mem_env.command_env_axioms, of "[bytes_of ''a'', [1], bytes_of ''b'', [2], bytes_of ''a'', [3]]"
      "snd (mset mem_store (tenant_context []) [bytes_of ''a'', [1], bytes_of ''b'', [2], bytes_of ''a'', [3]] (mem_world []))"
      "[]" "mem_world []" "[bytes_of ''a'', bytes_of ''b'']"]
  by (simp add: key_wf_def)

text \<open>C7: EXPIRE and TTL on a key of any type, for a key below \<open>2 ^ 24\<close> bytes, a clock that is not negative
  and a deadline (the time in milliseconds plus 1000 times the seconds) below \<open>2 ^ 63 - 1000\<close>, so that
  nothing wraps around. EXPIRE with such a positive number of seconds replies 1; afterwards TTL, read at
  a later time of the clock, is the remaining time rounded up to seconds until the deadline and -2 from
  then on, and a string key reads as before until the deadline and as missing from then on. The program
  does not check the bound; \<open>expire_overflow\<close> below shows what happens beyond it.\<close>

theorem expire_then_ttl:
  fixes s s2 :: "('db, 'x) world_scheme"
  assumes "command_env R view ctx" and "key_wf k" and "str_parse_i64 a = Some secs"
    and "lookup_meta (view (db s)) (namespace ctx) k = Some v" and "entry_ok v"
    and "0 < sint secs" and "0 \<le> sint (clock s 0)" and "sint (clock s 0) + sint secs * 1000 < 2 ^ 63 - 1000"
    and "db s2 = db (snd (string_expire R ctx [k, a] s))" and "0 \<le> sint (clock s2 0)"
  defines "deadline \<equiv> sint (clock s 0) + sint secs * 1000" and "now \<equiv> sint (clock s2 0)"
  shows "fst (string_expire R ctx [k, a] s) = Inr (Integer 1)
    \<and> (\<exists>n. fst (ttl R ctx [k] s2) = Inr (Integer n)
         \<and> sint n = (if deadline \<le> now then -2 else (deadline - now + 999) div 1000))
    \<and> (\<forall>p. string_value (Some v) (clock s 0) = Inr (Some p) \<longrightarrow>
         fst (string_get R ctx [k] s2) = Inr (BulkString (if deadline \<le> now then None else Some p)))"
proof -
  let ?e = "clock s 0 + secs * 1000"
  have secs: "sint (secs * 1000) = sint secs * 1000"
    using assms(6-8) by (simp add: sint_word_mult signed_take_bit_int_eq_self)
  then have e: "sint ?e = deadline"
    using assms(6-8) by (simp add: sint_word_add signed_take_bit_int_eq_self deadline_def)
  obtain t where run: "string_expire R ctx [k, a] s = (Inr (Integer 1), t)"
    and t: "view (db t) = (view (db s))(CF_METADATA := (view (db s) CF_METADATA)(meta_key ctx k \<mapsto> with_expire v ?e))"
    using command_env.expire_run [OF assms(1,3,4,5)] by blast
  have meta: "lookup_meta (view (db s2)) (namespace ctx) k = Some (with_expire v ?e)"
    using assms(9) run t command_env.lookup_meta_upd [OF assms(1,2,2)] by simp
  have pos: "0 < sint ?e" using e assms(6,7) by (simp add: deadline_def)
  have small: "deadline < 2 ^ 63 - 1000" using assms(8) by (simp add: deadline_def)
  note ttl = command_env.ttl_fst [OF assms(1) meta entry_ok_with_expire [OF assms(5)]]
  have "sint (i64_div (?e - clock s2 0 + 999) 1000) = (deadline - now + 999) div 1000" if "now < deadline"
  proof -
    have "sint (?e - clock s2 0 + 999) = deadline - now + 999"
      using e small that assms(10)
      by (simp add: sint_word_add sint_word_diff signed_take_bit_int_eq_self now_def)
    moreover have "0 \<le> (deadline - now + 999) div 1000" "(deadline - now + 999) div 1000 < 2 ^ 63"
      using small that assms(10) by (auto simp: now_def)
    ultimately show ?thesis
      using that by (simp add: i64_div_def signed_divide_int_def sint_word_of_int_i64)
  qed
  moreover have "string_value (Some (with_expire v ?e)) (clock s2 0) = Inr (if deadline \<le> now then None else Some p)"
    if "string_value (Some v) (clock s 0) = Inr (Some p)" for p
    using string_value_with_expire [OF that assms(5), of ?e "clock s2 0"] pos e
    by (simp add: expired_at_def now_def)
  ultimately show ?thesis
    using run pos e ttl by (auto simp: meta_expire_with_expire [OF assms(5)] now_def
        command_env.string_get_fst [OF assms(1)] meta)
qed

theorem expire_then_ttl_witness:
  "\<exists>n. fst (ttl mem_store (tenant_context []) [bytes_of ''k'']
     (mem_world (db (snd (string_expire mem_store (tenant_context []) [bytes_of ''k'', bytes_of ''60'']
       (mem_world [((CF_METADATA, metadata_key (bytes_of ''k'') []), encode_string STRING_FLAGS 0 [1])]))))))
     = Inr (Integer n) \<and> sint n = 60"
proof -
  let ?s = "mem_world [((CF_METADATA, metadata_key (bytes_of ''k'') []), encode_string STRING_FLAGS 0 [1])]"
  have "str_parse_i64 (bytes_of ''60'') = Some 60"
    by (simp add: str_parse_i64_def parse_unsigned_def parse_nat_def bytes_of_def)
  then show ?thesis
    using expire_then_ttl [OF mem_env.command_env_axioms [of "[]"], of "bytes_of ''k''" "bytes_of ''60''" 60 ?s
        "encode_string STRING_FLAGS 0 [1]"
        "mem_world (db (snd (string_expire mem_store (tenant_context []) [bytes_of ''k'', bytes_of ''60''] ?s)))"]
    by (simp add: key_wf_def lookup_meta_def mem_view_def mem_world_def)
qed

text \<open>EXPIRE with a number of seconds whose milliseconds do not fit: the product wraps around to a time in
  the past. The reply is 1, and the key is missing at once.\<close>

lemma expire_overflow:
  fixes s s2 :: "('db, 'x) world_scheme"
  assumes "command_env R view ctx" and "key_wf k" and "str_parse_i64 a = Some 9223372036854775807"
    and "lookup_meta (view (db s)) (namespace ctx) k = Some v" and "entry_ok v"
    and "1000 < sint (clock s 0)" and "db s2 = db (snd (string_expire R ctx [k, a] s))"
    and "sint (clock s 0) \<le> sint (clock s2 0)" and "string_value (Some v) (clock s 0) = Inr (Some p)"
  shows "fst (string_expire R ctx [k, a] s) = Inr (Integer 1)
    \<and> fst (ttl R ctx [k] s2) = Inr (Integer (-2)) \<and> fst (string_get R ctx [k] s2) = Inr (BulkString None)"
proof -
  define e where "e = clock s 0 + 9223372036854775807 * 1000"
  have "(9223372036854775807 * 1000 :: i64) = - 1000" by (simp add: word_unat_eq_iff)
  then have "e = clock s 0 - 1000" by (simp only: e_def add_uminus_conv_diff)
  moreover have "sint (clock s 0 - 1000) = sint (clock s 0) - 1000"
    using assms(6) sint_lt [of "clock s 0"] by (simp add: sint_word_diff signed_take_bit_int_eq_self)
  ultimately have e: "0 < sint e" "sint e \<le> sint (clock s2 0)" using assms(6,8) by simp_all
  obtain t where run: "string_expire R ctx [k, a] s = (Inr (Integer 1), t)"
    and t: "view (db t) = (view (db s))(CF_METADATA := (view (db s) CF_METADATA)(meta_key ctx k \<mapsto> with_expire v e))"
    using command_env.expire_run [OF assms(1,3,4,5)] unfolding e_def by blast
  have meta: "lookup_meta (view (db s2)) (namespace ctx) k = Some (with_expire v e)"
    using assms(7) run t command_env.lookup_meta_upd [OF assms(1,2,2)] by simp
  show ?thesis
    using run e command_env.ttl_fst [OF assms(1) meta entry_ok_with_expire [OF assms(5)]]
      string_value_with_expire [OF assms(9,5), of e "clock s2 0"]
    by (simp add: meta_expire_with_expire [OF assms(5)] command_env.string_get_fst [OF assms(1)] meta expired_at_def)
qed

text \<open>C2: DEL of keys of any type, for keys below \<open>2 ^ 24\<close> bytes that, when the context has a namespace, do
  not also exist in the old format without namespace. The reply is the number of distinct keys that
  existed. What the database holds afterwards is given exactly, for every column family and every raw
  key: the metadata entries of the keys that existed are gone, and for each that was a composite object
  all its subkeys of the version in the metadata, and for a sorted set its scores of that version;
  every other entry is as before. In particular the metadata, the subkeys and the scores of every other
  key and of every other namespace stay, and so do the subkeys of other versions of a deleted key.\<close>

theorem del_spec:
  fixes s :: "('db, 'x) world_scheme"
  assumes "command_env R view ctx" and "ks \<noteq> []" and "\<forall>k \<in> set ks. key_wf k"
    and "namespace ctx \<noteq> [] \<longrightarrow> (\<forall>k \<in> set ks. view (db s) CF_METADATA (metadata_key k []) = None)"
    and "before = lookup_meta (view (db s)) (namespace ctx)"
    and "s2 = snd (del R ctx ks s)"
  shows "fst (del R ctx ks s) = Inr (Integer (of_nat (card {k \<in> set ks. before k \<noteq> None})))
    \<and> (\<forall>cf x. view (db s2) cf x =
        (if \<exists>k \<in> set ks. \<exists>v. before k = Some v \<and>
             (cf = CF_METADATA \<and> x = metadata_key k (namespace ctx)
              \<or> (\<exists>ver zset sub. doomed v = Some (ver, zset) \<and> x = subkey k ver sub (namespace ctx)
                   \<and> (cf = CF_SUBKEY \<or> zset \<and> cf = CF_ZSET_SCORE)))
         then None else view (db s) cf x))
    \<and> (\<forall>k. key_wf k \<longrightarrow> lookup_meta (view (db s2)) (namespace ctx) k = (if k \<in> set ks then None else before k))
    \<and> (\<forall>k ns. key_wf k \<and> ns_wf ns \<and> (k \<notin> set ks \<or> ns \<noteq> namespace ctx) \<longrightarrow>
        view (db s2) CF_METADATA (metadata_key k ns) = view (db s) CF_METADATA (metadata_key k ns)
        \<and> (\<forall>cf ver sub. cf = CF_SUBKEY \<or> cf = CF_ZSET_SCORE \<longrightarrow>
             view (db s2) cf (subkey k ver sub ns) = view (db s) cf (subkey k ver sub ns)))"
proof -
  have ns: "ns_wf (namespace ctx)" using assms(1) by (rule command_env.namespace_wf)
  obtain t where run: "for_loop (del_key R ctx) ks 0 s = (Inr (0 + of_nat (card {k \<in> set ks. before k \<noteq> None})), t)"
    and t: "view (db t) = fold (del_step (namespace ctx)) ks (view (db s))"
    using command_env.del_loop [OF assms(1,3,4)] unfolding assms(5) by blast
  have "Suc 0 \<le> length ks" using assms(2) by (simp add: Suc_le_eq)
  then have del: "del R ctx ks s = (Inr (Integer (of_nat (card {k \<in> set ks. before k \<noteq> None}))), t)"
    by (simp add: del_def run_expect_min_arg_count and_then_Inr [where m = "for_loop (del_key R ctx) ks 0", OF run])
  then have s2: "view (db s2) = fold (del_step (namespace ctx)) ks (view (db s))"
    using t assms(6) by simp
  note exact = del_all_exact [where m = "view (db s)", OF ns assms(3) assms(4), unfolded del_removes_def, folded assms(5)]
    and meta = lookup_meta_del_all [where m = "view (db s)", OF ns assms(3) _ assms(4), folded assms(5)]
    and frame = del_all_frame [where m = "view (db s)", OF ns assms(3)] del_all_frame_metadata [where m = "view (db s)", OF ns assms(3)]
  show ?thesis
    unfolding s2 by (intro conjI allI impI exact meta frame) (simp_all add: del)
qed

theorem del_spec_witness:
  "fst (del mem_store (tenant_context []) [bytes_of ''k'', bytes_of ''k'', bytes_of ''none'']
     (mem_world [((CF_METADATA, metadata_key (bytes_of ''k'') []), encode_string STRING_FLAGS 0 [1])]))
   = Inr (Integer 1)"
proof -
  let ?s = "mem_world [((CF_METADATA, metadata_key (bytes_of ''k'') []), encode_string STRING_FLAGS 0 [1])]"
  have "{k. (k = bytes_of ''k'' \<or> k = bytes_of ''none'') \<and> (\<exists>y. lookup_meta (mem_view (db ?s)) [] k = Some y)}
      = {bytes_of ''k''}"
    by (auto simp: lookup_meta_def mem_view_def mem_world_def metadata_key_eq_iff key_wf_def split: if_splits)
  then show ?thesis
    using del_spec [OF mem_env.command_env_axioms [of "[]"], of "[bytes_of ''k'', bytes_of ''k'', bytes_of ''none'']" ?s]
    by (simp add: key_wf_def)
qed

text \<open>C10: DEL of a key that exists only in the old format, without the namespace of the context. The
  reply counts the key as deleted, but the entry stays and EXISTS still finds it: the handler looks
  the key up with the fallback to the old format and deletes only the namespaced key.\<close>

theorem del_legacy_key_survives:
  fixes s :: "('db, 'x) world_scheme"
  assumes "command_env R view ctx" and "namespace ctx \<noteq> []" and "key_wf k"
    and "view (db s) CF_METADATA (metadata_key k (namespace ctx)) = None"
    and "view (db s) CF_METADATA (metadata_key k []) = Some v"
  shows "fst (del R ctx [k] s) = Inr (Integer 1)
    \<and> fst (string_exists R ctx [k] (snd (del R ctx [k] s))) = Inr (Integer 1)"
proof -
  have meta: "lookup_meta (view (db s)) (namespace ctx) k = Some v"
    using assms(2,4,5) by (simp add: lookup_meta_def)
  obtain t where run: "del_key R ctx k 0 s = (Inr 1, t)"
    and t: "view (db t) = del_step (namespace ctx) k (view (db s))"
    using command_env.del_key_run [OF assms(1), of k 0 s] meta by auto
  have "metadata_key k [] \<noteq> metadata_key k (namespace ctx)"
    using metadata_key_eq_iff [OF assms(3,3) _ command_env.namespace_wf [OF assms(1)], of "[]"] assms(2) by simp
  then have "lookup_meta (view (db t)) (namespace ctx) k = Some v"
    unfolding lookup_meta_def t del_step_def meta using assms(2,4,5) by (simp add: del_view_metadata)
  moreover have "del R ctx [k] s = (Inr (Integer 1), t)"
    by (simp add: del_def run_expect_min_arg_count and_then_assoc and_then_Inr [where m = "del_key R ctx k 0", OF run])
  ultimately show ?thesis
    by (simp add: string_exists_def run_expect_min_arg_count and_then_assoc command_env.run_get_meta [OF assms(1)])
qed

theorem del_legacy_key_survives_witness:
  "fst (string_exists mem_store (tenant_context [65]) [bytes_of ''k'']
     (snd (del mem_store (tenant_context [65]) [bytes_of ''k'']
       (mem_world [((CF_METADATA, metadata_key (bytes_of ''k'') []), encode_string STRING_FLAGS 0 [1])]))))
   = Inr (Integer 1)"
proof -
  have "metadata_key (bytes_of ''k'') [] \<noteq> metadata_key (bytes_of ''k'') [65]"
    by (simp add: metadata_key_eq_iff key_wf_def ns_wf_def)
  then show ?thesis
    using del_legacy_key_survives [OF mem_env.command_env_axioms [of "[65]"], of "bytes_of ''k''"
        "mem_world [((CF_METADATA, metadata_key (bytes_of ''k'') []), encode_string STRING_FLAGS 0 [1])]"]
    by (simp add: key_wf_def mem_view_def mem_world_def tenant_context_def)
qed

end
