(* ===== verification/Kv_Object.thy ===== *)
theory Kv_Object
  imports Cmd_Context
begin

text \<open>
  What the composite types (hash, list, set, bitmap, sorted set, stream) share. An object is a
  metadata entry and the entries under the subkey prefix of its version. This theory has the
  part of the database that belongs to one user key, the frame lemma for batches that write one
  object only, the listing of an object's subkeys by prefix scans, and the contract of the
  typed metadata readers that every module implements for its own type.
\<close>

section \<open>The entries of one object\<close>

definition subkeys_of :: "(string \<Rightarrow> bytes \<rightharpoonup> bytes) \<Rightarrow> string \<Rightarrow> bytes \<Rightarrow> bytes \<Rightarrow> u64 \<Rightarrow> (bytes \<rightharpoonup> bytes)" where
  "subkeys_of m cf ns k ver = (\<lambda>sub. m cf (subkey k ver sub ns))"

text \<open>Everything the database holds for a user key in a namespace.\<close>

definition object_view :: "(string \<Rightarrow> bytes \<rightharpoonup> bytes) \<Rightarrow> bytes \<Rightarrow> bytes
    \<Rightarrow> bytes option \<times> (u64 \<Rightarrow> bytes \<rightharpoonup> bytes) \<times> (u64 \<Rightarrow> bytes \<rightharpoonup> bytes)" where
  "object_view m ns k = (lookup_meta m ns k, subkeys_of m CF_SUBKEY ns k, subkeys_of m CF_ZSET_SCORE ns k)"

text \<open>The batch operations that belong to a user key.\<close>

definition key_of_op :: "batch_op \<Rightarrow> bytes" where
  "key_of_op op = (case op of Put cf k v \<Rightarrow> k | Delete cf k \<Rightarrow> k)"

definition op_of :: "bytes \<Rightarrow> bytes \<Rightarrow> batch_op \<Rightarrow> bool" where
  "op_of ns k op \<longleftrightarrow> (op_cf op = CF_METADATA \<and> key_of_op op = metadata_key k ns)
     \<or> ((op_cf op = CF_SUBKEY \<or> op_cf op = CF_ZSET_SCORE) \<and> (\<exists>ver sub. key_of_op op = subkey k ver sub ns))"

lemma op_of_simps [simp]:
  "op_of ns k (Put CF_METADATA (metadata_key k ns) v)"
  "op_of ns k (Put CF_SUBKEY (subkey k ver sub ns) v)"
  "op_of ns k (Put CF_ZSET_SCORE (subkey k ver sub ns) v)"
  "op_of ns k (Delete CF_SUBKEY (subkey k ver sub ns))"
  "op_of ns k (Delete CF_ZSET_SCORE (subkey k ver sub ns))"
  by (auto simp: op_of_def key_of_op_def)

lemma op_of_cf: "op_of ns k op \<Longrightarrow> op_cf op \<in> set ALL_CFS"
  by (auto simp: op_of_def)

lemma apply_op_other: "cf \<noteq> op_cf op \<or> x \<noteq> key_of_op op \<Longrightarrow> apply_op op m cf x = m cf x"
  by (cases op) (auto simp: key_of_op_def)

lemma object_view_apply_op:
  assumes "op_of ns k op" and "ns_wf ns" and "key_wf k" and "key_wf k'" and "ns_wf ns'" and "k' \<noteq> k"
  shows "object_view (apply_op op m) ns' k' = object_view m ns' k'"
proof -
  have "metadata_key k' n \<noteq> key_of_op op" if "op_cf op = CF_METADATA" "ns_wf n" for n
    using assms that by (auto simp: op_of_def metadata_key_eq_iff)
  then have "apply_op op m CF_METADATA (metadata_key k' n) = m CF_METADATA (metadata_key k' n)" if "ns_wf n" for n
    using that by (intro apply_op_other) auto
  then have meta: "lookup_meta (apply_op op m) ns' k' = lookup_meta m ns' k'"
    using assms(5) by (simp add: lookup_meta_def split: option.split)
  have "subkey k' ver sub ns' \<noteq> key_of_op op" if "op_cf op \<noteq> CF_METADATA" for ver sub
    using assms that subkey_prefix_code [OF assms(4,3,5,2)] by (auto simp: op_of_def)
  then have "apply_op op m cf (subkey k' ver sub ns') = m cf (subkey k' ver sub ns')"
    if "cf = CF_SUBKEY \<or> cf = CF_ZSET_SCORE" for cf ver sub
    using that by (intro apply_op_other) auto
  with meta show ?thesis by (auto simp: object_view_def subkeys_of_def)
qed

text \<open>A batch that writes one object leaves all others alone.\<close>

lemma object_view_batch:
  assumes "\<forall>op \<in> set ops. op_of ns k op" and "ns_wf ns" and "key_wf k" and "key_wf k'" and "ns_wf ns'" and "k' \<noteq> k"
  shows "object_view (fold apply_op ops m) ns' k' = object_view m ns' k'"
  using assms(1) by (induction ops arbitrary: m) (simp_all add: object_view_apply_op [OF _ assms(2-)])

section \<open>Listing the subkeys of an object\<close>

lemma finite_subkeys_of:
  assumes "finite (dom (m cf))"
  shows "finite (dom (subkeys_of m cf ns k ver))"
proof -
  have "(\<lambda>sub. subkey k ver sub ns) ` dom (subkeys_of m cf ns k ver) \<subseteq> dom (m cf)"
    by (auto simp: subkeys_of_def)
  then show ?thesis
    using assms by (meson finite_imageD finite_subset inj_onI subkey_eq_iff)
qed

lemma scan_entries_subkeys:
  assumes "finite (dom (m cf))"
  shows "scan_entries (m cf) (subkey k ver [] ns) =
    map (\<lambda>(sub, v). (subkey k ver sub ns, v)) (entries (subkeys_of m cf ns k ver))"
proof -
  let ?f = "\<lambda>sub. subkey k ver sub ns" and ?p = "subkey k ver [] ns"
  let ?subs = "sorted_list_of_set (dom (subkeys_of m cf ns k ver))"
  have fin: "finite (dom (subkeys_of m cf ns k ver))" using assms by (rule finite_subkeys_of)
  have "filter (prefix ?p) (sorted_list_of_set (dom (m cf))) = map ?f ?subs"
  proof (rule strict_sorted_eqI)
    show "sorted_wrt (<) (filter (prefix ?p) (sorted_list_of_set (dom (m cf))))"
      by (simp add: sorted_wrt_filter)
    show "sorted_wrt (<) (map ?f ?subs)" by (simp add: sorted_wrt_map)
    show "set (filter (prefix ?p) (sorted_list_of_set (dom (m cf)))) = set (map ?f ?subs)"
      using assms fin by (auto simp: prefix_subkey_iff subkeys_of_def)
  qed
  then have "map (\<lambda>x. (x, the (m cf x))) (filter (prefix ?p) (sorted_list_of_set (dom (m cf))))
      = map (\<lambda>x. (x, the (m cf x))) (map ?f ?subs)" by simp
  then show ?thesis
    by (simp add: scan_entries_def entries_def filter_map comp_def subkeys_of_def)
qed

lemma length_entries: "length (entries h) = card (dom h)"
  by (simp add: entries_def)

context rocksdb_contract
begin

lemma scan_subkeys:
  "scan_entries (view d cf) (subkey k ver [] ns) =
   map (\<lambda>(sub, v). (subkey k ver sub ns, v)) (entries (subkeys_of (view d) cf ns k ver))"
  by (rule scan_entries_subkeys [OF finite_view])

lemma finite_subkeys: "finite (dom (subkeys_of (view d) cf ns k ver))"
  by (rule finite_subkeys_of [OF finite_view])

end

section \<open>Writing an object\<close>

text \<open>
  The writing commands build one batch: operations on the subkeys of the object, then its
  metadata. This is what the batch does to the object.
\<close>

lemma fold_apply_op_other_cf:
  "\<forall>op \<in> set ops. op_cf op \<noteq> cf \<Longrightarrow> fold apply_op ops m cf = m cf"
proof (induction ops arbitrary: m)
  case (Cons op ops)
  then have "apply_op op m cf = m cf" by (cases op) auto
  with Cons show ?case by simp
qed simp

lemma lookup_meta_write:
  assumes "ns_wf ns" and "key_wf k" and "key_wf k'" and "\<forall>op \<in> set ops. op_cf op \<noteq> CF_METADATA"
  shows "lookup_meta (fold apply_op (ops @ [Put CF_METADATA (metadata_key k ns) x]) m) ns k' =
    (if k' = k then Some x else lookup_meta m ns k')"
proof -
  let ?m = "fold apply_op ops m"
  have "lookup_meta ?m ns k' = lookup_meta m ns k'"
    using fold_apply_op_other_cf [OF assms(4), of m] by (rule lookup_meta_cong)
  with lookup_meta_put [OF assms(1-3), of ?m x] show ?thesis by simp
qed

lemma subkeys_of_put_meta:
  "cf \<noteq> CF_METADATA \<Longrightarrow> subkeys_of (fold apply_op (ops @ [Put CF_METADATA x v]) m) cf ns k ver
   = subkeys_of (fold apply_op ops m) cf ns k ver"
  by (simp add: subkeys_of_def)

lemma subkeys_of_puts:
  "subkeys_of (fold apply_op (map (\<lambda>(f, v). Put cf (subkey k ver f ns) v) ps) m) cf ns k ver
   = subkeys_of m cf ns k ver ++ map_of (rev ps)"
proof (induction ps arbitrary: m)
  case (Cons p ps)
  obtain f v where p: "p = (f, v)" by (cases p)
  have "subkeys_of (m(cf := (m cf)(subkey k ver f ns \<mapsto> v))) cf ns k ver = (subkeys_of m cf ns k ver)(f \<mapsto> v)"
    by (auto simp: subkeys_of_def)
  with Cons p show ?case by (simp add: map_add_upd_left map_add_assoc [symmetric] del: fun_upd_apply)
qed simp

lemma subkeys_of_deletes:
  "subkeys_of (fold apply_op (map (\<lambda>f. Delete cf (subkey k ver f ns)) fs) m) cf ns k ver
   = subkeys_of m cf ns k ver |` (- set fs)"
proof (induction fs arbitrary: m)
  case (Cons f fs)
  have "subkeys_of (m(cf := (m cf)(subkey k ver f ns := None))) cf ns k ver = (subkeys_of m cf ns k ver)(f := None)"
    by (auto simp: subkeys_of_def)
  with Cons show ?case by (auto simp: restrict_map_def fun_eq_iff)
qed (simp add: restrict_map_def)

lemma subkeys_of_put [simp]:
  "subkeys_of (apply_op (Put cf (subkey k ver sub ns) v) m) cf ns k ver = (subkeys_of m cf ns k ver)(sub \<mapsto> v)"
  by (auto simp: subkeys_of_def)

lemma subkeys_of_delete [simp]:
  "subkeys_of (apply_op (Delete cf (subkey k ver sub ns)) m) cf ns k ver = (subkeys_of m cf ns k ver)(sub := None)"
  by (auto simp: subkeys_of_def)

text \<open>Writing the metadata before the subkeys makes no difference.\<close>

lemma apply_op_commute: "op_cf op \<noteq> op_cf op' \<Longrightarrow> apply_op op (apply_op op' m) = apply_op op' (apply_op op m)"
  by (cases op; cases op') (auto simp: fun_upd_twist)

lemma fold_apply_op_first:
  "\<forall>op' \<in> set ops. op_cf op' \<noteq> op_cf op \<Longrightarrow> fold apply_op (op # ops) m = fold apply_op (ops @ [op]) m"
proof (induction ops arbitrary: m)
  case (Cons a ops)
  then have "apply_op a (apply_op op m) = apply_op op (apply_op a m)" by (intro apply_op_commute) simp
  with Cons show ?case by simp
qed simp

lemma map_of_rev_distinct: "distinct (map fst ps) \<Longrightarrow> map_of (rev ps) = map_of ps"
  by (subst map_of_inject_set) (simp_all add: rev_map [symmetric])

lemma card_dom_map_add:
  assumes "finite (dom h)" and "distinct (map fst ps)"
  shows "card (dom (h ++ map_of (rev ps))) = card (dom h) + length (filter (\<lambda>(f, v). h f = None) ps)"
proof -
  let ?new = "filter (\<lambda>(f, v). h f = None) ps"
  have "dom (h ++ map_of (rev ps)) = dom h \<union> fst ` set ?new"
    by (auto simp: dom_map_of_conv_image_fst image_iff)
  moreover have "dom h \<inter> fst ` set ?new = {}" by auto
  moreover have "card (fst ` set ?new) = length ?new"
    using assms(2) distinct_card [of "map fst ?new"] by (simp add: distinct_map_filter)
  ultimately show ?thesis using assms(1) by (simp add: card_Un_disjoint)
qed

lemma card_dom_restrict:
  assumes "finite (dom h)" and "distinct fs"
  shows "card (dom (h |` (- set fs))) + length (filter (\<lambda>f. h f \<noteq> None) fs) = card (dom h)"
proof -
  let ?old = "filter (\<lambda>f. h f \<noteq> None) fs"
  have "dom h = dom (h |` (- set fs)) \<union> set ?old" and "dom (h |` (- set fs)) \<inter> set ?old = {}"
    by (auto simp: restrict_map_def split: if_splits)
  moreover have "card (set ?old) = length ?old" using assms(2) by (intro distinct_card distinct_filter)
  ultimately show ?thesis
    using assms(1) by (metis List.finite_set card_Un_disjoint finite_Un)
qed

section \<open>Typed metadata\<close>

text \<open>
  What reading the metadata of a key for one type must give: nothing for a missing or expired
  key, an error for a key of another type, the metadata otherwise.
\<close>

definition typed_meta :: "data_type \<Rightarrow> string \<Rightarrow> bytes option \<Rightarrow> i64 \<Rightarrow> failure + metadata option" where
  "typed_meta t msg r now = (case r of
      None \<Rightarrow> Inr None
    | Some v \<Rightarrow>
        if v = [] then Inl (Err (Protocol ''empty metadata value''))
        else if v ! 0 AND FLAGS_TYPE_MASK = code DT_String then Inl (Err wrong_type_error)
        else (case decode_metadata v of
            None \<Rightarrow> Inl (Err (Protocol msg))
          | Some m \<Rightarrow> if metadata_data_type m \<noteq> Some t then Inl (Err wrong_type_error)
                      else Inr (if is_expired m now then None else Some m)))"

lemma encode_metadata_type:
  assumes "metadata_data_type m = Some t"
  shows "encode_metadata m \<noteq> []" and "encode_metadata m ! 0 AND FLAGS_TYPE_MASK = code t"
  using assms by (simp_all add: encode_metadata_def metadata_data_type_def data_type_from_flags_def from_code_eq_iff)

lemma typed_meta_encode:
  assumes "meta_wf m" and "metadata_data_type m = Some t'" and "t' \<noteq> DT_String"
  shows "typed_meta t msg (Some (encode_metadata m)) now =
    (if t' = t then Inr (if is_expired m now then None else Some m) else Inl (Err wrong_type_error))"
  using assms encode_metadata_type [OF assms(2)]
  by (simp add: typed_meta_def decode_encode_metadata del: code.simps)

lemma typed_meta_None [simp]: "typed_meta t msg None now = Inr None"
  by (simp add: typed_meta_def)

locale typed_reader = command_env R view ctx
  for R :: "'db rocksdb" and view :: "'db \<Rightarrow> string \<Rightarrow> bytes \<rightharpoonup> bytes" and ctx :: command_context +
  fixes reader :: "bytes \<Rightarrow> (('db, 'x) world_scheme, metadata option) kv" and t :: data_type and msg :: string
  assumes reader_fst: "fst (reader k s) = typed_meta t msg (meta_of s k) (clock s 0)"
    and reader_snd: "same_world s (snd (reader k s))"
begin

lemma run_reader [kv_run]:
  "and_then (reader k) f s = (case typed_meta t msg (meta_of s k) (clock s 0) of
     Inl e \<Rightarrow> (Inl e, snd (reader k s)) | Inr r \<Rightarrow> f r (snd (reader k s)))"
  using reader_fst [of k s] by (cases "reader k s") (auto simp: and_then_def split: sum.split)

lemma reader_world [simp]:
  "db (snd (reader k s)) = db s" "rng (snd (reader k s)) = rng s" "world.more (snd (reader k s)) = world.more s"
  using reader_snd [of s k] by (simp_all add: same_world_def)

end

text \<open>A later world: the same database and random numbers, the clock advanced by some readings.\<close>

definition later :: "('db, 'x) world_scheme \<Rightarrow> ('db, 'x) world_scheme \<Rightarrow> bool" where
  "later s t \<longleftrightarrow> db t = db s \<and> rng t = rng s \<and> (\<exists>c. \<forall>j. clock t j = clock s (j + c))"

lemma later_refl [simp]: "later s s"
  unfolding later_def by (metis add.right_neutral)

lemma later_trans: "later s t \<Longrightarrow> later t u \<Longrightarrow> later s u"
  unfolding later_def by (metis add.assoc)

lemma later_tick [simp]: "later s (s\<lparr>clock := \<lambda>i. clock s (Suc i)\<rparr>)"
  unfolding later_def by (simp, metis add_Suc_right add.right_neutral)

text \<open>
  A key that holds an object of type \<open>t\<close> with the deadline \<open>e\<close> (0 for none): \<open>Q\<close> says what the
  metadata and the subkeys under it represent, with \<open>None\<close> for a key that does not exist.
\<close>

definition typed_rep :: "data_type \<Rightarrow> (string \<Rightarrow> bytes \<rightharpoonup> bytes) \<Rightarrow> bytes \<Rightarrow> bytes \<Rightarrow> i64
    \<Rightarrow> (metadata option \<Rightarrow> bool) \<Rightarrow> bool" where
  "typed_rep t m ns k e Q \<longleftrightarrow> (case lookup_meta m ns k of
      None \<Rightarrow> Q None \<and> e = 0
    | Some v \<Rightarrow> \<exists>md. v = encode_metadata md \<and> meta_wf md \<and> metadata_data_type md = Some t \<and> m_expire md = e
        \<and> Q (Some md))"

text \<open>What is left of a value with a deadline, and of the deadline, at a time.\<close>

definition unexpired :: "i64 \<Rightarrow> i64 \<Rightarrow> 'a \<Rightarrow> 'a \<Rightarrow> 'a" where
  "unexpired e now d x = (if expired_at e now then d else x)"

lemma not_expired_at_0 [simp]: "\<not> expired_at 0 now"
  by (simp add: expired_at_def)

lemma unexpired_0 [simp]: "unexpired 0 now d x = x"
  by (simp add: unexpired_def)

lemma typed_rep_cases:
  assumes "typed_rep t m ns k e Q" and "t \<noteq> DT_String"
  obtains (gone) "typed_meta t msg (lookup_meta m ns k) now = Inr None" "lookup_meta m ns k = None \<and> e = 0 \<and> Q None \<or> expired_at e now"
  | (live) md where "typed_meta t msg (lookup_meta m ns k) now = Inr (Some md)" "\<not> expired_at e now"
      "meta_wf md" "metadata_data_type md = Some t" "m_expire md = e" "Q (Some md)"
proof (cases "lookup_meta m ns k")
  case None
  with assms show ?thesis by (intro gone) (auto simp: typed_rep_def)
next
  case (Some v)
  with assms obtain md where v: "v = encode_metadata md" and md: "meta_wf md" "metadata_data_type md = Some t"
    "m_expire md = e" "Q (Some md)" by (auto simp: typed_rep_def)
  note typed = typed_meta_encode [OF md(1,2) assms(2), of t msg now]
  show ?thesis
  proof (cases "expired_at e now")
    case True
    with typed md(3) show ?thesis by (intro gone) (simp_all add: Some v is_expired_def)
  next
    case False
    with typed md show ?thesis by (intro live [of md]) (simp_all add: Some v is_expired_def)
  qed
qed

lemma typed_rep_write:
  assumes "ns_wf ns" and "key_wf k" and "\<forall>op \<in> set ops. op_cf op \<noteq> CF_METADATA"
    and "meta_wf md" and "metadata_data_type md = Some t" and "Q (Some md)"
  shows "typed_rep t (fold apply_op (ops @ [Put CF_METADATA (metadata_key k ns) (encode_metadata md)]) m) ns k (m_expire md) Q"
  unfolding typed_rep_def lookup_meta_write [OF assms(1,2,2,3)] using assms(4-6) by auto

section \<open>New versions\<close>

text \<open>The version a command that creates an object in this world gives to it.\<close>

definition next_version :: "('db, 'x) world_scheme \<Rightarrow> u64" where
  "next_version s = push_bit 16 (clock s 0) OR (ucast (rng s 0) AND 0xFFFF)"

lemma run_generate_version [kv_run]:
  "and_then generate_version f s =
   f (push_bit 16 (clock s 0) OR (ucast (rng s 0) AND 0xFFFF))
     (s\<lparr>clock := \<lambda>i. clock s (Suc i), rng := \<lambda>i. rng s (Suc i)\<rparr>)"
  by (simp add: generate_version_def and_then_assoc kv_run)

text \<open>
  The program relies on a new version not having been used for the key: no subkey is left under
  it. \<open>generate_version\<close> makes this likely and does not check it, so the lemmas on commands
  that create an object have it as a hypothesis.
\<close>

definition fresh_version :: "(string \<Rightarrow> bytes \<rightharpoonup> bytes) \<Rightarrow> bytes \<Rightarrow> bytes \<Rightarrow> u64 \<Rightarrow> bool" where
  "fresh_version m ns k ver \<longleftrightarrow> subkeys_of m CF_SUBKEY ns k ver = Map.empty
     \<and> subkeys_of m CF_ZSET_SCORE ns k ver = Map.empty"

end
