(* ===== verification/Cmd_Hash.thy ===== *)
theory Cmd_Hash
  imports Kv_Object
begin

text \<open>
  The hash commands of \<open>src/src/cmd/hash.rs\<close>. A hash is a metadata entry and one subkey per
  field. The theorems relate every command to the finite map from fields to values that the
  entries represent, and the size in the metadata to the number of fields.
\<close>

section \<open>Definitions\<close>

definition HASH_PAGE_SIZE :: nat where "HASH_PAGE_SIZE = 1024"

definition decode_and_check_hash :: "bytes \<Rightarrow> failure + metadata option" where
  "decode_and_check_hash v =
     (if v = [] then Inl (Err (Protocol ''empty metadata value''))
      else if v ! 0 AND FLAGS_TYPE_MASK = code DT_String then Inl (Err wrong_type_error)
      else (case decode_metadata v of
          None \<Rightarrow> Inl (Err (Protocol ''invalid metadata encoding''))
        | Some m \<Rightarrow> if metadata_data_type m \<noteq> Some DT_Hash then Inl (Err wrong_type_error)
                    else Inr (Some m)))"

definition read_hash_meta :: "'db rocksdb \<Rightarrow> command_context \<Rightarrow> bytes
    \<Rightarrow> (('db, 'x) world_scheme, metadata option) kv" where
  "read_hash_meta R ctx user_key = and_then (get_meta R ctx user_key) (\<lambda>r. case r of
      Some v \<Rightarrow> lift (decode_and_check_hash v)
    | None \<Rightarrow> ret None)"

definition ensure_hash_meta :: "'db rocksdb \<Rightarrow> command_context \<Rightarrow> bytes
    \<Rightarrow> (('db, 'x) world_scheme, metadata) kv" where
  "ensure_hash_meta R ctx user_key = and_then (read_hash_meta R ctx user_key) (\<lambda>r. case r of
      Some m \<Rightarrow> ret m
    | None \<Rightarrow> and_then generate_version (\<lambda>v. ret (metadata_new DT_Hash v)))"

definition hset_step :: "'db rocksdb \<Rightarrow> command_context \<Rightarrow> bytes \<Rightarrow> bytes \<times> bytes
    \<Rightarrow> metadata \<times> batch_op list \<times> i64 \<Rightarrow> (('db, 'x) world_scheme, metadata \<times> batch_op list \<times> i64) kv" where
  "hset_step R ctx user_key = (\<lambda>(field, val) (meta, batch, added).
     let sk = sub_key ctx user_key (m_version meta) field in
     and_then (storage_get R CF_SUBKEY sk) (\<lambda>old.
     and_then (batch_put R batch CF_SUBKEY sk val) (\<lambda>batch.
       if old = None then ret (meta\<lparr>m_size := m_size meta + 1\<rparr>, batch, added + 1)
       else ret (meta, batch, added))))"

definition hset :: "'db rocksdb \<Rightarrow> ('db, 'x) world_scheme command_fn" where
  "hset R ctx args = and_then (expect_min_arg_count ''HSET'' args 3) (\<lambda>_.
     if length args mod 2 = 0 then raise (WrongArgCount ''HSET'')
     else and_then (ensure_hash_meta R ctx (args ! 0)) (\<lambda>meta.
       and_then (for_loop (hset_step R ctx (args ! 0)) (chunks_exact2 (drop 1 args)) (meta, [], 0)) (\<lambda>(meta, batch, added).
       and_then (batch_put R batch CF_METADATA (meta_key ctx (args ! 0)) (encode_metadata meta)) (\<lambda>batch.
       and_then (storage_write R batch) (\<lambda>_. ret (Integer added))))))"

definition hget :: "'db rocksdb \<Rightarrow> ('db, 'x) world_scheme command_fn" where
  "hget R ctx args = and_then (expect_arg_count ''HGET'' args 2) (\<lambda>_.
     and_then (read_hash_meta R ctx (args ! 0)) (\<lambda>r. case r of
       None \<Rightarrow> ret (BulkString None)
     | Some meta \<Rightarrow> and_then (storage_get R CF_SUBKEY (sub_key ctx (args ! 0) (m_version meta) (args ! 1)))
         (\<lambda>v. ret (BulkString v))))"

definition hmget_step :: "'db rocksdb \<Rightarrow> command_context \<Rightarrow> bytes \<Rightarrow> u64 \<Rightarrow> bytes \<Rightarrow> resp_value list
    \<Rightarrow> (('db, 'x) world_scheme, resp_value list) kv" where
  "hmget_step R ctx user_key version field result =
     and_then (storage_get R CF_SUBKEY (sub_key ctx user_key version field)) (\<lambda>v. ret (result @ [BulkString v]))"

definition hmget :: "'db rocksdb \<Rightarrow> ('db, 'x) world_scheme command_fn" where
  "hmget R ctx args = and_then (expect_min_arg_count ''HMGET'' args 2) (\<lambda>_.
     and_then (read_hash_meta R ctx (args ! 0)) (\<lambda>r. case r of
       None \<Rightarrow> ret (Array (replicate (length args - 1) (BulkString None)))
     | Some meta \<Rightarrow> and_then (for_loop (hmget_step R ctx (args ! 0) (m_version meta)) (drop 1 args) []) (\<lambda>result. ret (Array result))))"

text \<open>The body of the item loop of HGETALL and HSCAN: the field and the value of a subkey entry.\<close>

definition push_field :: "command_context \<Rightarrow> entry \<Rightarrow> resp_value list
    \<Rightarrow> (('db, 'x) world_scheme, (resp_value list, resp_value) control_flow) kv" where
  "push_field ctx = (\<lambda>(k, v) result.
     and_then (lift (ok_or (ctx_parse_subkey ctx k) (Protocol ''invalid subkey encoding''))) (\<lambda>(_, _, field).
       ret (Continue (result @ [bulk field, bulk v]))))"

definition hgetall :: "'db rocksdb \<Rightarrow> ('db, 'x) world_scheme command_fn" where
  "hgetall R ctx args = and_then (expect_arg_count ''HGETALL'' args 1) (\<lambda>_.
     and_then (read_hash_meta R ctx (args ! 0)) (\<lambda>r. case r of
       None \<Rightarrow> ret (Array [])
     | Some meta \<Rightarrow>
         and_then (scan_pages (\<lambda>start_key. prefix_scan_page R CF_SUBKEY
             (sub_key ctx (args ! 0) (m_version meta) []) start_key HASH_PAGE_SIZE) [] (for_each (push_field ctx)) [])
           (\<lambda>flow. case flow of Continue result \<Rightarrow> ret (Array result) | Break r \<Rightarrow> ret r)))"

definition hdel_step :: "'db rocksdb \<Rightarrow> command_context \<Rightarrow> bytes \<Rightarrow> bytes
    \<Rightarrow> metadata \<times> batch_op list \<times> i64 \<Rightarrow> (('db, 'x) world_scheme, metadata \<times> batch_op list \<times> i64) kv" where
  "hdel_step R ctx user_key field = (\<lambda>(meta, batch, deleted).
     let sk = sub_key ctx user_key (m_version meta) field in
     and_then (storage_get R CF_SUBKEY sk) (\<lambda>old.
       if old \<noteq> None then and_then (batch_delete R batch CF_SUBKEY sk) (\<lambda>batch.
         ret (meta\<lparr>m_size := saturating_sub (m_size meta) 1\<rparr>, batch, deleted + 1))
       else ret (meta, batch, deleted)))"

definition hdel :: "'db rocksdb \<Rightarrow> ('db, 'x) world_scheme command_fn" where
  "hdel R ctx args = and_then (expect_min_arg_count ''HDEL'' args 2) (\<lambda>_.
     and_then (read_hash_meta R ctx (args ! 0)) (\<lambda>r. case r of
       None \<Rightarrow> ret (Integer 0)
     | Some meta \<Rightarrow>
         and_then (for_loop (hdel_step R ctx (args ! 0)) (drop 1 args) (meta, [], 0)) (\<lambda>(meta, batch, deleted).
         and_then (if 0 < sint deleted
           then batch_put R batch CF_METADATA (meta_key ctx (args ! 0)) (encode_metadata meta)
           else ret batch) (\<lambda>batch.
         and_then (storage_write R batch) (\<lambda>_. ret (Integer deleted))))))"

definition hexists :: "'db rocksdb \<Rightarrow> ('db, 'x) world_scheme command_fn" where
  "hexists R ctx args = and_then (expect_arg_count ''HEXISTS'' args 2) (\<lambda>_.
     and_then (read_hash_meta R ctx (args ! 0)) (\<lambda>r. case r of
       None \<Rightarrow> ret (Integer 0)
     | Some meta \<Rightarrow> and_then (storage_get R CF_SUBKEY (sub_key ctx (args ! 0) (m_version meta) (args ! 1)))
         (\<lambda>v. ret (Integer (if v \<noteq> None then 1 else 0)))))"

definition hlen :: "'db rocksdb \<Rightarrow> ('db, 'x) world_scheme command_fn" where
  "hlen R ctx args = and_then (expect_arg_count ''HLEN'' args 1) (\<lambda>_.
     and_then (read_hash_meta R ctx (args ! 0)) (\<lambda>r. case r of
       None \<Rightarrow> ret (Integer 0)
     | Some meta \<Rightarrow> ret (Integer (m_size meta))))"

definition parse_usize :: "bytes \<Rightarrow> failure + nat" where
  "parse_usize s = ok_or (str_parse_usize s) NotInteger"

section \<open>The cursor of HSCAN\<close>

definition hex_digit :: "nat \<Rightarrow> u8" where
  "hex_digit d = (if d < 10 then of_nat (48 + d) else of_nat (87 + d))"

definition hex_byte :: "u8 \<Rightarrow> bytes" where
  "hex_byte b = [hex_digit (unat b div 16), hex_digit (unat b mod 16)]"

definition encode_cursor :: "bytes \<Rightarrow> bytes" where
  "encode_cursor key = (if key = [] then bytes_of ''0'' else concat (map hex_byte key))"

definition hex_value :: "u8 \<Rightarrow> nat option" where
  "hex_value c = (if 48 \<le> c \<and> c \<le> 57 then Some (unat c - 48)
     else if 97 \<le> c \<and> c \<le> 102 then Some (unat c - 87)
     else if 65 \<le> c \<and> c \<le> 70 then Some (unat c - 55)
     else None)"

text \<open>\<open>u8::from_str_radix(s, 16)\<close> on two bytes; like all unsigned parsers it accepts a leading plus.\<close>

definition from_str_radix16 :: "u8 \<Rightarrow> u8 \<Rightarrow> u8 option" where
  "from_str_radix16 a b = (if a = 43 then map_option of_nat (hex_value b)
     else (case (hex_value a, hex_value b) of
         (Some x, Some y) \<Rightarrow> Some (of_nat (16 * x + y))
       | _ \<Rightarrow> None))"

text \<open>
  The loop over the byte positions 0, 2, 4, ...: slicing a string off a character boundary
  panics, the first pair that is not a hexadecimal number ends the loop.
\<close>

fun decode_pairs :: "bytes \<Rightarrow> failure + bytes option" where
  "decode_pairs (a # b # rest) =
     (if is_cont a \<or> (rest \<noteq> [] \<and> is_cont (hd rest)) then Inl Panic
      else (case from_str_radix16 a b of
          None \<Rightarrow> Inr None
        | Some x \<Rightarrow> (case decode_pairs rest of
              Inl e \<Rightarrow> Inl e
            | Inr r \<Rightarrow> Inr (map_option (Cons x) r))))"
| "decode_pairs _ = Inr (Some [])"

definition decode_cursor :: "bytes \<Rightarrow> failure + bytes option" where
  "decode_cursor s = (if s = [] \<or> s = bytes_of ''0'' then Inr (Some [])
     else if length s mod 2 \<noteq> 0 then Inr None
     else decode_pairs s)"

definition hscan_count :: "bytes list \<Rightarrow> failure + nat" where
  "hscan_count args =
     (if 4 \<le> length args \<and> eq_ignore_ascii_case (args ! 2) (bytes_of ''COUNT'') then parse_usize (args ! 3)
      else if 2 < length args then Inl (Err (Command ''syntax error''))
      else Inr 10)"

definition hscan :: "'db rocksdb \<Rightarrow> ('db, 'x) world_scheme command_fn" where
  "hscan R ctx args = and_then (expect_min_arg_count ''HSCAN'' args 2) (\<lambda>_.
     if \<not> utf8_valid (args ! 1) then raise (Command ''invalid cursor'')
     else and_then (lift (hscan_count args)) (\<lambda>count.
     and_then (lift (decode_cursor (args ! 1))) (\<lambda>cur.
     and_then (lift (ok_or cur (Command ''invalid cursor''))) (\<lambda>start_key.
     and_then (read_hash_meta R ctx (args ! 0)) (\<lambda>r. case r of
       None \<Rightarrow> ret (Array [bulk (bytes_of ''0''), Array []])
     | Some meta \<Rightarrow>
         and_then (prefix_scan_page R CF_SUBKEY (sub_key ctx (args ! 0) (m_version meta) []) start_key count)
           (\<lambda>(items, next_key).
         and_then (for_each (push_field ctx) items []) (\<lambda>flow.
           case flow of
             Continue found \<Rightarrow> ret (Array [bulk (encode_cursor (case next_key of Some k \<Rightarrow> k | None \<Rightarrow> [])), Array found])
           | Break r \<Rightarrow> ret r)))))))"

section \<open>The map a hash represents\<close>

definition hash_rep :: "(string \<Rightarrow> bytes \<rightharpoonup> bytes) \<Rightarrow> bytes \<Rightarrow> bytes \<Rightarrow> (bytes \<rightharpoonup> bytes) \<Rightarrow> bool" where
  "hash_rep m ns k h \<longleftrightarrow> (case lookup_meta m ns k of
      None \<Rightarrow> h = Map.empty
    | Some v \<Rightarrow> \<exists>md. v = encode_metadata md \<and> meta_wf md \<and> metadata_data_type md = Some DT_Hash
        \<and> h = subkeys_of m CF_SUBKEY ns k (m_version md) \<and> m_size md = of_nat (card (dom h)))"

text \<open>The same with an arbitrary size in the metadata; \<open>hash_rep\<close> asks for the number of fields.\<close>

definition hash_sized :: "(string \<Rightarrow> bytes \<rightharpoonup> bytes) \<Rightarrow> bytes \<Rightarrow> bytes \<Rightarrow> (bytes \<rightharpoonup> bytes) \<Rightarrow> nat \<Rightarrow> bool" where
  "hash_sized m ns k h n \<longleftrightarrow> (case lookup_meta m ns k of
      None \<Rightarrow> h = Map.empty \<and> n = 0
    | Some v \<Rightarrow> \<exists>md. v = encode_metadata md \<and> meta_wf md \<and> metadata_data_type md = Some DT_Hash
        \<and> h = subkeys_of m CF_SUBKEY ns k (m_version md) \<and> m_size md = of_nat n)"

lemma hash_rep_sized: "hash_rep m ns k h \<longleftrightarrow> hash_sized m ns k h (card (dom h))"
  by (auto simp: hash_rep_def hash_sized_def split: option.splits)

lemma decode_and_check_hash_encode:
  "meta_wf md \<Longrightarrow> metadata_data_type md = Some DT_Hash \<Longrightarrow> decode_and_check_hash (encode_metadata md) = Inr (Some md)"
  using encode_metadata_type [of md DT_Hash] by (simp add: decode_and_check_hash_def decode_encode_metadata)

lemma hash_rep_frame: "object_view m ns k = object_view m' ns k \<Longrightarrow> hash_rep m ns k h = hash_rep m' ns k h"
  by (simp add: hash_rep_def object_view_def split: option.split)

context command_env
begin

lemma read_hash_meta_run [kv_run]:
  "and_then (read_hash_meta R ctx k) f s = (case meta_of s k of
     None \<Rightarrow> f None s
   | Some v \<Rightarrow> (case decode_and_check_hash v of Inl e \<Rightarrow> (Inl e, s) | Inr r \<Rightarrow> f r s))"
  by (auto simp: read_hash_meta_def kv_run and_then_assoc split: option.split sum.split)

lemma hash_rep_cases:
  assumes "hash_rep (view (db s)) (namespace ctx) k h"
  obtains (absent) "meta_of s k = None" "h = Map.empty"
  | (present) md where "meta_of s k = Some (encode_metadata md)" "meta_wf md" "metadata_data_type md = Some DT_Hash"
      "decode_and_check_hash (encode_metadata md) = Inr (Some md)"
      "h = subkeys_of (view (db s)) CF_SUBKEY (namespace ctx) k (m_version md)" "m_size md = of_nat (card (dom h))"
  using assms by (auto simp: hash_rep_def decode_and_check_hash_encode split: option.splits)

lemma hash_rep_finite: "hash_rep (view (db s)) (namespace ctx) k h \<Longrightarrow> finite (dom h)"
  by (erule hash_rep_cases) (simp_all add: finite_subkeys)

lemma hget_rep:
  assumes "hash_rep (view (db s)) (namespace ctx) k h"
  shows "hget R ctx [k, f] s = (Inr (BulkString (h f)), s)"
  using assms by (cases rule: hash_rep_cases) (simp_all add: hget_def kv_run sub_key_def subkeys_of_def)

lemma hexists_rep:
  assumes "hash_rep (view (db s)) (namespace ctx) k h"
  shows "hexists R ctx [k, f] s = (Inr (Integer (if f \<in> dom h then 1 else 0)), s)"
  using assms by (cases rule: hash_rep_cases) (auto simp: hexists_def kv_run sub_key_def subkeys_of_def)

lemma hlen_rep:
  assumes "hash_rep (view (db s)) (namespace ctx) k h"
  shows "hlen R ctx [k] s = (Inr (Integer (of_nat (card (dom h)))), s)"
  using assms by (cases rule: hash_rep_cases) (simp_all add: hlen_def kv_run)

lemma hmget_rep:
  assumes "hash_rep (view (db s)) (namespace ctx) k h" and "fs \<noteq> []"
  shows "hmget R ctx (k # fs) s = (Inr (Array (map (\<lambda>f. BulkString (h f)) fs)), s)"
proof -
  have len: "2 \<le> length (k # fs)" using assms(2) by (cases fs) auto
  from assms(1) show ?thesis
  proof (cases rule: hash_rep_cases)
    case absent
    with len show ?thesis by (simp add: hmget_def kv_run map_replicate_const)
  next
    case (present md)
    have "for_loop (hmget_step R ctx k (m_version md)) fs acc s = (Inr (acc @ map (\<lambda>f. BulkString (h f)) fs), s)" for acc
      by (induction fs arbitrary: acc)
        (simp_all add: hmget_step_def run_get and_then_assoc present(5) subkeys_of_def sub_key_def)
    note loop = and_then_Inr [where m = "for_loop (hmget_step R ctx k (m_version md)) fs []", OF this]
    from present len show ?thesis by (simp add: hmget_def kv_run loop)
  qed
qed

lemma push_field_subkey:
  assumes "key_wf k"
  shows "push_field ctx (subkey k ver f (namespace ctx), v) acc s = (Inr (Continue (acc @ [bulk f, bulk v])), s)"
  using parse_subkey_subkey [OF key_wf_length [OF assms] namespace_wf, of ver f]
  by (simp add: push_field_def ctx_parse_subkey_def)

lemma push_fields:
  fixes s :: "('db, 'x) world_scheme"
  assumes "key_wf k"
  shows "for_each (push_field ctx) (map (\<lambda>(f, v). (subkey k ver f (namespace ctx), v)) ps) acc s
    = (Inr (Continue (acc @ concat (map (\<lambda>(f, v). [bulk f, bulk v]) ps))), s)"
proof (induction ps arbitrary: acc)
  case (Cons p ps)
  obtain f v where p: "p = (f, v)" by (cases p)
  have "push_field ctx (subkey k ver f (namespace ctx), v) acc s = (Inr (Continue (acc @ [bulk f, bulk v])), s)"
    using assms by (rule push_field_subkey)
  note step = and_then_Inr [where m = "push_field ctx (subkey k ver f (namespace ctx), v) acc", OF this]
  show ?case using Cons.IH by (simp add: p step)
qed simp

lemma hgetall_rep:
  fixes s :: "('db, 'x) world_scheme"
  assumes "hash_rep (view (db s)) (namespace ctx) k h" and "key_wf k"
  shows "hgetall R ctx [k] s = (Inr (Array (concat (map (\<lambda>(f, v). [bulk f, bulk v]) (entries h)))), s)"
  using assms(1)
proof (cases rule: hash_rep_cases)
  case absent
  then show ?thesis by (simp add: hgetall_def kv_run entries_def)
next
  case (present md)
  let ?p = "sub_key ctx k (m_version md) []" and ?m = "view (db s)"
  have keep: "db (snd (push_field ctx x acc t)) = db s" if "db t = db s" for x acc and t :: "('db, 'x) world_scheme"
    using that by (simp add: push_field_def kv_run split: prod.split option.split)
  have "scan_pages (\<lambda>start. prefix_scan_page R CF_SUBKEY ?p start HASH_PAGE_SIZE) [] (for_each (push_field ctx)) [] s
      = for_each (push_field ctx) (scan_entries (?m CF_SUBKEY) ?p) [] s"
    by (rule scan_all_pages) (simp_all add: sub_key_def keep with_capacity_ok_def HASH_PAGE_SIZE_def)
  also have "\<dots> = (Inr (Continue (concat (map (\<lambda>(f, v). [bulk f, bulk v]) (entries h)))), s)"
    using push_fields [OF assms(2), of "m_version md" "entries h" "[]" s]
    by (simp add: sub_key_def scan_subkeys present(5))
  finally show ?thesis
    using present by (simp add: hgetall_def kv_run and_then_Inr [where m = "scan_pages _ _ _ _"])
qed

end

section \<open>Writing hashes\<close>

context command_env
begin

lemma ensure_hash_meta_rep:
  fixes s :: "('db, 'x) world_scheme"
  assumes "hash_rep (view (db s)) (namespace ctx) k h"
    and "meta_of s k = None \<longrightarrow> fresh_version (view (db s)) (namespace ctx) k (next_version s)"
  obtains md t where "ensure_hash_meta R ctx k s = (Inr md, t)" and "db t = db s" and "meta_wf md"
    and "metadata_data_type md = Some DT_Hash"
    and "h = subkeys_of (view (db s)) CF_SUBKEY (namespace ctx) k (m_version md)"
    and "m_size md = of_nat (card (dom h))"
  using assms(1)
proof (cases rule: hash_rep_cases)
  case absent
  with assms(2) have "h = subkeys_of (view (db s)) CF_SUBKEY (namespace ctx) k (next_version s)"
    by (simp add: fresh_version_def)
  with absent show ?thesis
    by (intro that [of "metadata_new DT_Hash (next_version s)" "s\<lparr>clock := \<lambda>i. clock s (Suc i), rng := \<lambda>i. rng s (Suc i)\<rparr>"])
      (simp_all add: ensure_hash_meta_def kv_run meta_wf_def next_version_def)
next
  case (present md)
  then show ?thesis
    by (intro that [of md s]) (simp_all add: ensure_hash_meta_def kv_run)
qed

lemma hset_step_run:
  "hset_step R ctx k (f, v) (md, b, a) s =
    (Inr (if subkeys_of (view (db s)) CF_SUBKEY (namespace ctx) k (m_version md) f = None
          then (md\<lparr>m_size := m_size md + 1\<rparr>, b @ [Put CF_SUBKEY (subkey k (m_version md) f (namespace ctx)) v], a + 1)
          else (md, b @ [Put CF_SUBKEY (subkey k (m_version md) f (namespace ctx)) v], a)), s)"
  by (simp add: hset_step_def Let_def kv_run sub_key_def subkeys_of_def)

lemma hset_loop:
  fixes s :: "('db, 'x) world_scheme"
  assumes "h = subkeys_of (view (db s)) CF_SUBKEY (namespace ctx) k (m_version md)"
  defines "new ps \<equiv> length (filter (\<lambda>(f, v). h f = None) ps)"
  shows "for_loop (hset_step R ctx k) ps (md, b, a) s =
    (Inr (md\<lparr>m_size := m_size md + of_nat (new ps)\<rparr>,
          b @ map (\<lambda>(f, v). Put CF_SUBKEY (subkey k (m_version md) f (namespace ctx)) v) ps,
          a + of_nat (new ps)), s)"
  using assms(1) unfolding new_def
proof (induction ps arbitrary: md b a)
  case (Cons p ps)
  obtain f v where p: "p = (f, v)" by (cases p)
  note step = for_loop_step [where f = "hset_step R ctx k", OF hset_step_run [of k f v md b a s]]
  show ?case
    unfolding p step using Cons.prems Cons.IH [of "md\<lparr>m_size := m_size md + 1\<rparr>"] Cons.IH [of md]
    by (simp add: add.assoc)
qed simp

lemma hset_run:
  fixes s :: "('db, 'x) world_scheme"
  assumes "hash_rep (view (db s)) (namespace ctx) k h" and "rest \<noteq> []" and "even (length rest)"
    and "meta_of s k = None \<longrightarrow> fresh_version (view (db s)) (namespace ctx) k (next_version s)"
  obtains md t where "hset R ctx (k # rest) s = (Inr (Integer (of_nat (length (filter (\<lambda>(f, v). h f = None) (chunks_exact2 rest))))), t)"
    and "meta_wf md" and "metadata_data_type md = Some DT_Hash"
    and "h = subkeys_of (view (db s)) CF_SUBKEY (namespace ctx) k (m_version md)"
    and "m_size md = of_nat (card (dom h) + length (filter (\<lambda>(f, v). h f = None) (chunks_exact2 rest)))"
    and "view (db t) = fold apply_op (map (\<lambda>(f, v). Put CF_SUBKEY (subkey k (m_version md) f (namespace ctx)) v) (chunks_exact2 rest)
           @ [Put CF_METADATA (metadata_key k (namespace ctx)) (encode_metadata md)]) (view (db s))"
proof -
  let ?ps = "chunks_exact2 rest" and ?ns = "namespace ctx"
  let ?c = "length (filter (\<lambda>(f, v). h f = None) ?ps)"
  obtain md t where ens: "ensure_hash_meta R ctx k s = (Inr md, t)" and t: "db t = db s"
    and md: "meta_wf md" "metadata_data_type md = Some DT_Hash"
    and h: "h = subkeys_of (view (db s)) CF_SUBKEY ?ns k (m_version md)" and size: "m_size md = of_nat (card (dom h))"
    using ensure_hash_meta_rep [OF assms(1,4)] .
  let ?md = "md\<lparr>m_size := m_size md + of_nat ?c\<rparr>"
  let ?ops = "map (\<lambda>(f, v). Put CF_SUBKEY (subkey k (m_version md) f ?ns) v) ?ps
     @ [Put CF_METADATA (metadata_key k ?ns) (encode_metadata ?md)]"
  have loop: "for_loop (hset_step R ctx k) ?ps (md, [], 0) t = (Inr (?md, map (\<lambda>(f, v). Put CF_SUBKEY (subkey k (m_version md) f ?ns) v) ?ps, of_nat ?c), t)"
    using hset_loop [of h t k md ?ps "[]" 0] h t by simp
  have cfs: "\<forall>op \<in> set ?ops. op_cf op \<in> set ALL_CFS" by auto
  have "length rest \<noteq> 1" "length rest \<noteq> 0" using assms(2,3) by auto
  then have "3 \<le> Suc (length rest)" by arith
  moreover have "Suc (length rest) mod 2 \<noteq> 0" using assms(3) by presburger
  ultimately have len: "3 \<le> length (k # rest)" "length (k # rest) mod 2 \<noteq> 0" by simp_all
  have "hset R ctx (k # rest) s = (Inr (Integer (of_nat ?c)), write_world R ?ops t)"
    using len unfolding hset_def
    by (simp add: run_expect_min_arg_count and_then_Inr [where m = "ensure_hash_meta R ctx k", OF ens]
        and_then_Inr [where m = "for_loop (hset_step R ctx k) ?ps (md, [], 0)", OF loop]
        run_batch_put run_write [OF cfs] meta_key_def)
  moreover have "meta_wf ?md" "metadata_data_type ?md = Some DT_Hash"
    using md by (simp_all add: meta_wf_def metadata_data_type_def)
  ultimately show ?thesis
    using h size write_world_db(2) [OF cfs, of t] t by (intro that [of _ ?md]) simp_all
qed

end

context command_env
begin

lemma hdel_step_run:
  "hdel_step R ctx k f (md, b, a) s =
    (Inr (if subkeys_of (view (db s)) CF_SUBKEY (namespace ctx) k (m_version md) f \<noteq> None
          then (md\<lparr>m_size := saturating_sub (m_size md) 1\<rparr>, b @ [Delete CF_SUBKEY (subkey k (m_version md) f (namespace ctx))], a + 1)
          else (md, b, a)), s)"
  by (simp add: hdel_step_def Let_def kv_run sub_key_def subkeys_of_def)

lemma hdel_loop:
  fixes s :: "('db, 'x) world_scheme"
  assumes "h = subkeys_of (view (db s)) CF_SUBKEY (namespace ctx) k (m_version md)"
  shows "for_loop (hdel_step R ctx k) fs (md, b, a) s =
    (Inr (md\<lparr>m_size := of_nat (unat (m_size md) - length (filter (\<lambda>f. h f \<noteq> None) fs))\<rparr>,
          b @ map (\<lambda>f. Delete CF_SUBKEY (subkey k (m_version md) f (namespace ctx))) (filter (\<lambda>f. h f \<noteq> None) fs),
          a + of_nat (length (filter (\<lambda>f. h f \<noteq> None) fs))), s)"
  using assms
proof (induction fs arbitrary: md b a)
  case (Cons f fs)
  note step = for_loop_step [where f = "hdel_step R ctx k", OF hdel_step_run [of k f md b a s]]
  show ?case
  proof (cases "h f = None")
    case True
    with Cons show ?thesis unfolding step by simp
  next
    case False
    with Cons.prems Cons.IH [of "md\<lparr>m_size := saturating_sub (m_size md) 1\<rparr>"] show ?thesis
      unfolding step by (simp add: unat_saturating_sub add.assoc)
  qed
qed simp

lemma hdel_run:
  fixes s :: "('db, 'x) world_scheme"
  assumes "hash_rep (view (db s)) (namespace ctx) k h" and "fs \<noteq> []" and "length fs < 2 ^ 63" and "card (dom h) < 2 ^ 63"
  defines "old \<equiv> filter (\<lambda>f. h f \<noteq> None) fs"
  shows "\<exists>t. hdel R ctx (k # fs) s = (Inr (Integer (of_nat (length old))), t)
    \<and> (if old = [] then view (db t) = view (db s)
       else \<exists>md. meta_wf md \<and> metadata_data_type md = Some DT_Hash
         \<and> h = subkeys_of (view (db s)) CF_SUBKEY (namespace ctx) k (m_version md)
         \<and> m_size md = of_nat (card (dom h) - length old)
         \<and> view (db t) = fold apply_op (map (\<lambda>f. Delete CF_SUBKEY (subkey k (m_version md) f (namespace ctx))) old
             @ [Put CF_METADATA (metadata_key k (namespace ctx)) (encode_metadata md)]) (view (db s)))"
  using assms(1)
proof (cases rule: hash_rep_cases)
  case absent
  then have "old = []" by (simp add: old_def)
  moreover have "2 \<le> length (k # fs)" using assms(2) by (cases fs) auto
  ultimately show ?thesis using absent by (simp add: hdel_def kv_run)
next
  case (present md)
  let ?ns = "namespace ctx" and ?n = "length old"
  have sz: "unat (m_size md) = card (dom h)"
    using present(6) assms(4) by (simp add: unat_of_nat)
  let ?md = "md\<lparr>m_size := of_nat (card (dom h) - ?n)\<rparr>"
  let ?dels = "map (\<lambda>f. Delete CF_SUBKEY (subkey k (m_version md) f ?ns)) old"
  have loop: "for_loop (hdel_step R ctx k) fs (md, [], 0) s = (Inr (?md, ?dels, of_nat ?n), s)"
    using hdel_loop [OF present(5), of fs "[]" 0] unfolding old_def sz by simp
  have len: "2 \<le> length (k # fs)" using assms(2) by (cases fs) auto
  have md: "meta_wf ?md" "metadata_data_type ?md = Some DT_Hash"
    using present(2,3) by (simp_all add: meta_wf_def metadata_data_type_def)
  have "?n \<le> length fs" unfolding old_def by (rule length_filter_le)
  then have pos: "0 < sint (of_nat ?n :: i64) \<longleftrightarrow> old \<noteq> []"
    using sint_word_of_int_i64 [of "int ?n"] assms(3) by simp
  show ?thesis
  proof (cases "old = []")
    case True
    have "hdel R ctx (k # fs) s = (Inr (Integer 0), write_world R [] s)"
      using len present(1,4) True loop pos unfolding hdel_def
      by (simp add: run_expect_min_arg_count read_hash_meta_run
          and_then_Inr [where m = "for_loop (hdel_step R ctx k) fs (md, [], 0)", OF loop] run_write)
    with True show ?thesis by (simp add: write_world_db)
  next
    case False
    let ?ops = "?dels @ [Put CF_METADATA (metadata_key k ?ns) (encode_metadata ?md)]"
    have cfs: "\<forall>op \<in> set ?ops. op_cf op \<in> set ALL_CFS" by auto
    have "hdel R ctx (k # fs) s = (Inr (Integer (of_nat ?n)), write_world R ?ops s)"
      using len present(1,4) False pos unfolding hdel_def
      by (simp add: run_expect_min_arg_count read_hash_meta_run
          and_then_Inr [where m = "for_loop (hdel_step R ctx k) fs (md, [], 0)", OF loop]
          run_batch_put run_write [OF cfs] meta_key_def)
    moreover have "view (db (write_world R ?ops s)) = fold apply_op ?ops (view (db s))"
      by (rule write_world_db(2) [OF cfs])
    ultimately show ?thesis
      using False md present(5)
      by (intro exI [of _ "write_world R ?ops s"] conjI) (simp_all only: if_False, intro exI [of _ ?md], simp)
  qed
qed

end

section \<open>Iterating with HSCAN\<close>

lemma hex_digit_props:
  assumes "d < 16"
  shows "hex_value (hex_digit d) = Some d" and "hex_digit d < 0x80" and "hex_digit d \<noteq> 43"
proof -
  have "d = 0 \<or> d = 1 \<or> d = 2 \<or> d = 3 \<or> d = 4 \<or> d = 5 \<or> d = 6 \<or> d = 7 \<or> d = 8 \<or> d = 9
      \<or> d = 10 \<or> d = 11 \<or> d = 12 \<or> d = 13 \<or> d = 14 \<or> d = 15"
    using assms by arith
  then show "hex_value (hex_digit d) = Some d" and "hex_digit d < 0x80" and "hex_digit d \<noteq> 43"
    by (elim disjE; simp add: hex_digit_def hex_value_def)+
qed

lemma ascii_not_cont: "b < 0x80 \<Longrightarrow> \<not> is_cont b"
  by (simp add: is_cont_def word_le_nat_alt word_less_nat_alt)

lemma nibble_less: "unat (b :: u8) div 16 < 16" "unat b mod 16 < 16"
  using unat_u8_less [of b] by auto

lemma hex_bytes_ascii: "b \<in> set (concat (map hex_byte key)) \<Longrightarrow> b < 0x80"
  by (auto simp: hex_byte_def hex_digit_props(2) nibble_less)

lemma from_str_radix16_hex: "from_str_radix16 (hex_digit (unat b div 16)) (hex_digit (unat b mod 16)) = Some b"
proof -
  have "16 * (unat b div 16) + unat b mod 16 = unat b" by simp
  then have "(of_nat (16 * (unat b div 16) + unat b mod 16) :: u8) = b" by (simp only: of_nat_unat ucast_id)
  with hex_digit_props [OF nibble_less(1)] hex_digit_props [OF nibble_less(2)] show ?thesis
    by (simp add: from_str_radix16_def del: of_nat_add of_nat_mult)
qed

lemma decode_pairs_hex: "decode_pairs (concat (map hex_byte key)) = Inr (Some key)"
proof (induction key)
  case (Cons b key)
  let ?rest = "concat (map hex_byte key)"
  have "\<not> is_cont (hex_digit (unat b div 16))"
    using unat_u8_less [of b] by (intro ascii_not_cont hex_digit_props(2)) auto
  moreover have "?rest \<noteq> [] \<Longrightarrow> \<not> is_cont (hd ?rest)"
    by (intro ascii_not_cont hex_bytes_ascii [of _ key]) (rule hd_in_set)
  moreover have "concat (map hex_byte (b # key)) = hex_digit (unat b div 16) # hex_digit (unat b mod 16) # ?rest"
    by (simp add: hex_byte_def)
  ultimately show ?case
    using Cons.IH by (auto simp only: decode_pairs.simps from_str_radix16_hex) auto
qed simp

lemma length_hex: "length (concat (map hex_byte key)) = 2 * length key"
  by (induction key) (simp_all add: hex_byte_def)

lemma encode_cursor_0: "encode_cursor key = bytes_of ''0'' \<longleftrightarrow> key = []"
proof -
  have "concat (map hex_byte key) \<noteq> bytes_of ''0''"
  proof
    assume "concat (map hex_byte key) = bytes_of ''0''"
    then have "2 * length key = 1" unfolding length_hex [symmetric] by simp
    then show False by presburger
  qed
  then show ?thesis by (simp add: encode_cursor_def)
qed

lemma encode_cursor_ascii: "b \<in> set (encode_cursor key) \<Longrightarrow> b < 0x80"
  using hex_bytes_ascii [of b key] by (auto simp: encode_cursor_def bytes_of_def split: if_splits)

lemma decode_encode_cursor: "decode_cursor (encode_cursor key) = Inr (Some key)"
proof (cases "key = []")
  case True
  then show ?thesis by (simp add: decode_cursor_def encode_cursor_def)
next
  case False
  then have "encode_cursor key \<noteq> bytes_of ''0''" by (simp add: encode_cursor_0)
  moreover from False have "encode_cursor key = concat (map hex_byte key)" by (simp add: encode_cursor_def)
  moreover have "concat (map hex_byte key) \<noteq> []"
    using False length_hex [of key] by (metis length_0_conv mult_eq_0_iff zero_neq_numeral)
  ultimately show ?thesis
    by (simp only: decode_cursor_def if_False) (simp add: length_hex decode_pairs_hex)
qed

interpretation cursor_codec: codec encode_cursor "\<lambda>s. case decode_cursor s of Inl e \<Rightarrow> None | Inr r \<Rightarrow> r" "\<lambda>_. True"
  by unfold_locales (simp add: decode_encode_cursor)

text \<open>
  A client that iterates: it starts with cursor 0, hands the returned cursor back, and stops
  when the returned cursor is 0.
\<close>

definition hscan_page :: "'db rocksdb \<Rightarrow> command_context \<Rightarrow> bytes \<Rightarrow> bytes \<Rightarrow> bytes
    \<Rightarrow> (('db, 'x) world_scheme, (resp_value \<times> resp_value) list \<times> bytes option) kv" where
  "hscan_page R ctx k count cursor =
     and_then (hscan R ctx [k, cursor, bytes_of ''COUNT'', count]) (\<lambda>reply. case reply of
         Array [BulkString (Some c), Array items] \<Rightarrow> ret (chunks_exact2 items, if c = bytes_of ''0'' then None else Some c)
       | _ \<Rightarrow> ret ([], None))"

definition collect :: "'a \<Rightarrow> 'a list \<Rightarrow> ('s, ('a list, unit) control_flow) kv" where
  "collect x acc = ret (Continue (acc @ [x]))"

lemma for_each_collect: "for_each collect xs acc s = (Inr (Continue (acc @ xs)), s)"
  by (induction xs arbitrary: acc) (simp_all add: collect_def)

lemma chunks_exact2_concat: "chunks_exact2 (concat (map (\<lambda>(f, v). [g f, g' v]) ps)) = map (\<lambda>(f, v). (g f, g' v)) ps"
  by (induction ps) auto

context command_env
begin

lemma hscan_page_rep:
  fixes s :: "('db, 'x) world_scheme"
  assumes "hash_rep (view (db s)) (namespace ctx) k h" and "key_wf k" and "str_parse_usize count = Some n"
    and "meta_of s k = Some (encode_metadata md)" and "meta_wf md" and "metadata_data_type md = Some DT_Hash"
    and "h = subkeys_of (view (db s)) CF_SUBKEY (namespace ctx) k (m_version md)" and "i \<le> length (entries h)"
    and "with_capacity_ok n"
  defines "cursor j \<equiv> encode_cursor (if j = 0 then [] else subkey k (m_version md) (fst (entries h ! (j - 1))) (namespace ctx))"
  shows "hscan_page R ctx k count (cursor i) s =
    (Inr (take (max 1 n) (drop i (map (\<lambda>(f, v). (bulk f, bulk v)) (entries h))),
          if i + max 1 n < length (entries h) then Some (cursor (i + max 1 n)) else None), s)"
proof -
  let ?xs = "map (\<lambda>(f, v). (subkey k (m_version md) f (namespace ctx), v)) (entries h)"
  let ?p = "subkey k (m_version md) [] (namespace ctx)"
  let ?start = "scan_cursor ?xs"
  have xs: "scan_entries (view (db s) CF_SUBKEY) ?p = ?xs" by (simp add: scan_subkeys assms(7))
  have cursor: "cursor j = encode_cursor (?start j)" if "j \<le> length (entries h)" for j
    using that by (auto simp: cursor_def scan_cursor_def case_prod_unfold)
  have page: "prefix_scan_page R CF_SUBKEY ?p (?start i) n s = (Inr (take (max 1 n) (drop i ?xs),
      if i + max 1 n < length ?xs then Some (?start (i + max 1 n)) else None), s)"
    using pages.fetch_page [of CF_SUBKEY ?p n "view (db s) CF_SUBKEY" s i] assms(8,9)
    by (simp add: xs scan_state_def)
  have take: "take (max 1 n) (drop i ?xs) =
      map (\<lambda>(f, v). (subkey k (m_version md) f (namespace ctx), v)) (take (max 1 n) (drop i (entries h)))"
    by (simp add: take_map drop_map)
  have utf8: "utf8_valid (cursor i)"
    unfolding cursor_def by (intro utf8_valid_ascii ballI) (rule encode_cursor_ascii)
  have cnt: "hscan_count [k, cursor i, bytes_of ''COUNT'', count] = Inr n"
    using assms(3) by (simp add: hscan_count_def parse_usize_def eq_ignore_ascii_case_def)
  have "hscan R ctx [k, cursor i, bytes_of ''COUNT'', count] s =
    (Inr (Array [bulk (encode_cursor (if i + max 1 n < length ?xs then ?start (i + max 1 n) else [])),
       Array (concat (map (\<lambda>(f, v). [bulk f, bulk v]) (take (max 1 n) (drop i (entries h)))))]), s)"
    using utf8 cnt assms(4,8) unfolding hscan_def
    by (simp add: kv_run cursor decode_encode_cursor decode_and_check_hash_encode [OF assms(5,6)] sub_key_def
        and_then_Inr [where m = "prefix_scan_page R CF_SUBKEY ?p (?start i) n", OF page [unfolded take]]
        and_then_Inr [where m = "for_each (push_field ctx) _ []", OF push_fields [OF assms(2)]] del: One_nat_def)
  note run = and_then_Inr [where m = "hscan R ctx [k, cursor i, bytes_of ''COUNT'', count]", OF this]
  have "?start (i + max 1 n) \<noteq> []" if "i + max 1 n < length ?xs"
    using that by (simp add: scan_cursor_def case_prod_unfold)
  then show ?thesis
    unfolding hscan_page_def run
    by (auto simp: chunks_exact2_concat take_map drop_map encode_cursor_0 cursor simp del: One_nat_def)
qed

lemma hscan_first_Panic:
  fixes s :: "('db, 'x) world_scheme"
  assumes "str_parse_usize count = Some n" and "\<not> with_capacity_ok n"
    and "meta_of s k = Some (encode_metadata md)" and "meta_wf md" and "metadata_data_type md = Some DT_Hash"
  shows "hscan R ctx [k, bytes_of ''0'', bytes_of ''COUNT'', count] s = (Inl Panic, s)"
proof -
  have "utf8_valid (bytes_of ''0'')" "decode_cursor (bytes_of ''0'') = Inr (Some [])"
    by (simp_all add: utf8_valid_ascii bytes_of_def decode_cursor_def)
  moreover have "hscan_count [k, bytes_of ''0'', bytes_of ''COUNT'', count] = Inr n"
    using assms(1) by (simp add: hscan_count_def parse_usize_def eq_ignore_ascii_case_def)
  ultimately show ?thesis
    using assms(3) by (simp add: hscan_def kv_run decode_and_check_hash_encode [OF assms(4,5)]
        and_then_Inl [where m = "prefix_scan_page _ _ _ _ n", OF prefix_scan_page_Panic [OF _ assms(2)]])
qed

lemma hscan_all:
  fixes s :: "('db, 'x) world_scheme"
  assumes "hash_rep (view (db s)) (namespace ctx) k h" and "key_wf k" and "str_parse_usize count = Some n"
  shows "scan_pages (hscan_page R ctx k count) (bytes_of ''0'') (for_each collect) [] s
    = (if meta_of s k = None \<or> with_capacity_ok n
       then (Inr (Continue (map (\<lambda>(f, v). (bulk f, bulk v)) (entries h))), s) else (Inl Panic, s))"
  using assms(1)
proof (cases rule: hash_rep_cases)
  case absent
  have zero: "utf8_valid (bytes_of ''0'')" "decode_cursor (bytes_of ''0'') = Inr (Some [])"
    by (simp_all add: utf8_valid_ascii bytes_of_def decode_cursor_def)
  have "hscan_count [k, bytes_of ''0'', bytes_of ''COUNT'', count] = Inr n"
    using assms(3) by (simp add: hscan_count_def parse_usize_def eq_ignore_ascii_case_def)
  then have "hscan R ctx [k, bytes_of ''0'', bytes_of ''COUNT'', count] s = (Inr (Array [bulk (bytes_of ''0''), Array []]), s)"
    using absent zero by (simp add: hscan_def kv_run)
  then have "hscan_page R ctx k count (bytes_of ''0'') s = (Inr ([], None), s)"
    by (simp add: hscan_page_def and_then_def)
  then show ?thesis
    using absent by (simp add: scan_pages_def entries_def kv_loop_Some loop_run_break and_then_def)
next
  case (present md)
  let ?cursor = "\<lambda>j. encode_cursor (if j = 0 then [] else subkey k (m_version md) (fst (entries h ! (j - 1))) (namespace ctx))"
  let ?items = "map (\<lambda>(f, v). (bulk f, bulk v)) (entries h)"
  show ?thesis
  proof (cases "with_capacity_ok n")
    case True
    then have "paged_source (hscan_page R ctx k count) ?cursor ?items (max 1 n) (\<lambda>t. t = s)"
      by unfold_locales (use hscan_page_rep [OF assms present(1,2,3,5)] in auto)
    from paged_source.scan_pages_eq [OF this, of collect s "[]"] True show ?thesis
      by (simp add: collect_def for_each_collect encode_cursor_def)
  next
    case False
    have "hscan_page R ctx k count (bytes_of ''0'') s = (Inl Panic, s)"
      unfolding hscan_page_def by (rule and_then_Inl) (rule hscan_first_Panic [OF assms(3) False present(1-3)])
    then have "scan_pages (hscan_page R ctx k count) (bytes_of ''0'') (for_each collect) [] s = (Inl Panic, s)"
      unfolding scan_pages_def by (intro kv_loop_Inl) (simp add: and_then_Inl)
    with False present(1) show ?thesis by simp
  qed
qed

end

section \<open>Properties of the hash commands\<close>

text \<open>C11: HSET implements the update of a map. For a hash that represents the map \<open>h\<close>, HSET with
  distinct fields replies how many of them are new, afterwards the hash represents \<open>h\<close> updated with
  the pairs, its stored size again equal to the number of fields, and every other key is as before.
  A hash that does not exist yet must get a version under which no subkeys are left.\<close>

theorem hset_refines:
  fixes s :: "('db, 'x) world_scheme"
  assumes "command_env R view ctx" and "key_wf k" and "hash_rep (view (db s)) (namespace ctx) k h"
    and "rest \<noteq> []" and "even (length rest)" and "distinct (map fst (chunks_exact2 rest))"
    and "lookup_meta (view (db s)) (namespace ctx) k = None \<longrightarrow>
      fresh_version (view (db s)) (namespace ctx) k (next_version s)"
    and "s2 = snd (hset R ctx (k # rest) s)"
  shows "fst (hset R ctx (k # rest) s) = Inr (Integer (of_nat (card (fst ` set (chunks_exact2 rest) - dom h))))
    \<and> hash_rep (view (db s2)) (namespace ctx) k (h ++ map_of (chunks_exact2 rest))
    \<and> (\<forall>k' ns. key_wf k' \<and> ns_wf ns \<and> k' \<noteq> k \<longrightarrow> object_view (view (db s2)) ns k' = object_view (view (db s)) ns k')"
proof -
  let ?ps = "chunks_exact2 rest" and ?ns = "namespace ctx"
  let ?new = "filter (\<lambda>(f, v). h f = None) ?ps"
  have ns: "ns_wf ?ns" using assms(1) by (rule command_env.namespace_wf)
  obtain md t where run: "hset R ctx (k # rest) s = (Inr (Integer (of_nat (length ?new))), t)"
    and md: "meta_wf md" "metadata_data_type md = Some DT_Hash"
    and h: "h = subkeys_of (view (db s)) CF_SUBKEY ?ns k (m_version md)"
    and size: "m_size md = of_nat (card (dom h) + length ?new)"
    and t: "view (db t) = fold apply_op (map (\<lambda>(f, v). Put CF_SUBKEY (subkey k (m_version md) f ?ns) v) ?ps
           @ [Put CF_METADATA (metadata_key k ?ns) (encode_metadata md)]) (view (db s))"
    using command_env.hset_run [OF assms(1,3,4,5,7)] .
  have fin: "finite (dom h)"
    unfolding h by (rule rocksdb_contract.finite_subkeys [OF command_env.axioms(1) [OF assms(1)]])
  have rev: "map_of (rev ?ps) = map_of ?ps"
    using assms(6) by (rule map_of_rev_distinct)
  have "fst ` set ?new = fst ` set ?ps - dom h" by (auto simp: image_iff)
  moreover have "card (fst ` set ?new) = length ?new"
    using assms(6) distinct_card [of "map fst ?new"] by (simp add: distinct_map_filter)
  ultimately have reply: "card (fst ` set ?ps - dom h) = length ?new" by simp
  have subs: "subkeys_of (view (db t)) CF_SUBKEY ?ns k (m_version md) = h ++ map_of ?ps"
    unfolding t by (simp add: subkeys_of_put_meta subkeys_of_puts h rev del: fold_append)
  have meta: "lookup_meta (view (db t)) ?ns k = Some (encode_metadata md)"
    unfolding t by (subst lookup_meta_write [OF ns assms(2,2)]) auto
  have "hash_rep (view (db t)) ?ns k (h ++ map_of ?ps)"
    unfolding hash_rep_def meta option.case
    using md subs size card_dom_map_add [OF fin assms(6)] rev by (intro exI [of _ md]) simp
  moreover have "object_view (view (db t)) ns' k' = object_view (view (db s)) ns' k'"
    if "key_wf k'" "ns_wf ns'" "k' \<noteq> k" for k' ns'
    unfolding t by (rule object_view_batch [OF _ ns assms(2) that]) auto
  ultimately show ?thesis using run reply assms(8) by simp
qed

theorem hset_refines_witness:
  "fst (hset mem_store (tenant_context []) [bytes_of ''k'', bytes_of ''a'', [1], bytes_of ''b'', [2]] (mem_world []))
     = Inr (Integer 2)
   \<and> hash_rep (mem_view (db (snd (hset mem_store (tenant_context []) [bytes_of ''k'', bytes_of ''a'', [1], bytes_of ''b'', [2]] (mem_world []))))) []
       (bytes_of ''k'') [bytes_of ''a'' \<mapsto> [1], bytes_of ''b'' \<mapsto> [2]]"
  using hset_refines [OF mem_env.command_env_axioms [of "[]"], of "bytes_of ''k''" "mem_world []" Map.empty
      "[bytes_of ''a'', [1], bytes_of ''b'', [2]]"]
  by (simp add: key_wf_def hash_rep_def lookup_meta_def mem_view_def mem_world_def fresh_version_def subkeys_of_def
      fun_upd_twist)

text \<open>C12: The reading commands of a hash that represents the map \<open>h\<close>: HGET, HMGET and HEXISTS answer
  from \<open>h\<close>, HLEN is its number of fields, and HGETALL lists all its pairs once, in the order of the
  fields, however many pages the scan takes. None of them changes the world.\<close>

theorem hash_reads:
  fixes s :: "('db, 'x) world_scheme"
  assumes "command_env R view ctx" and "key_wf k" and "hash_rep (view (db s)) (namespace ctx) k h" and "fs \<noteq> []"
  shows "hget R ctx [k, f] s = (Inr (BulkString (h f)), s)
    \<and> hmget R ctx (k # fs) s = (Inr (Array (map (\<lambda>f. BulkString (h f)) fs)), s)
    \<and> hexists R ctx [k, f] s = (Inr (Integer (if f \<in> dom h then 1 else 0)), s)
    \<and> hlen R ctx [k] s = (Inr (Integer (of_nat (card (dom h)))), s)
    \<and> hgetall R ctx [k] s = (Inr (Array (concat (map (\<lambda>(f, v). [bulk f, bulk v]) (entries h)))), s)"
  using command_env.hget_rep [OF assms(1,3)] command_env.hmget_rep [OF assms(1,3,4)]
    command_env.hexists_rep [OF assms(1,3)] command_env.hlen_rep [OF assms(1,3)]
    command_env.hgetall_rep [OF assms(1,3,2)] by simp

definition sample_hash :: mem where
  "sample_hash = [((CF_METADATA, metadata_key (bytes_of ''k'') []), encode_metadata ((metadata_new DT_Hash 9)\<lparr>m_size := 1\<rparr>)),
     ((CF_SUBKEY, subkey (bytes_of ''k'') 9 (bytes_of ''f'') []), [7])]"

lemma sample_hash_rep: "hash_rep (mem_view (db (mem_world sample_hash))) [] (bytes_of ''k'') [bytes_of ''f'' \<mapsto> [7]]"
proof -
  have "subkeys_of (mem_view sample_hash) CF_SUBKEY [] (bytes_of ''k'') 9 = [bytes_of ''f'' \<mapsto> [7]]"
    by (auto simp: subkeys_of_def mem_view_def sample_hash_def)
  moreover have "lookup_meta (mem_view sample_hash) [] (bytes_of ''k'')
      = Some (encode_metadata ((metadata_new DT_Hash 9)\<lparr>m_size := 1\<rparr>))"
    by (simp add: lookup_meta_def mem_view_def sample_hash_def)
  ultimately show ?thesis
    unfolding hash_rep_def mem_world_def
    by (auto intro!: exI [of _ "(metadata_new DT_Hash 9)\<lparr>m_size := 1\<rparr>"] simp: meta_wf_def metadata_data_type_def)
qed

theorem hash_reads_witness:
  "hget mem_store (tenant_context []) [bytes_of ''k'', bytes_of ''f''] (mem_world sample_hash)
     = (Inr (bulk [7]), mem_world sample_hash)
   \<and> hlen mem_store (tenant_context []) [bytes_of ''k''] (mem_world sample_hash) = (Inr (Integer 1), mem_world sample_hash)"
  using hash_reads [OF mem_env.command_env_axioms [of "[]"], of "bytes_of ''k''" "mem_world sample_hash"
      "[bytes_of ''f'' \<mapsto> [7]]" "[bytes_of ''f'']" "bytes_of ''f''"] sample_hash_rep
  by (simp add: key_wf_def)

text \<open>C13: HDEL implements the removal of fields. For a hash that represents the map \<open>h\<close>, HDEL with
  pairwise distinct fields replies how many of them it had; afterwards the hash represents \<open>h\<close> without
  them, its stored size again equal to the number of fields. When the fields are not distinct the reply
  counts every occurrence of a field that existed and the stored size is reduced by that count (down to
  0 at most), so it is then smaller than the number of fields left: HDEL k f f replies 2 and takes 2
  from the size. In both cases every other key is as before.\<close>

theorem hdel_refines:
  fixes s :: "('db, 'x) world_scheme"
  assumes "command_env R view ctx" and "key_wf k" and "hash_rep (view (db s)) (namespace ctx) k h"
    and "fs \<noteq> []" and "length fs < 2 ^ 63" and "card (dom h) < 2 ^ 63" and "s2 = snd (hdel R ctx (k # fs) s)"
  shows "fst (hdel R ctx (k # fs) s) = Inr (Integer (of_nat (length (filter (\<lambda>f. f \<in> dom h) fs))))
    \<and> hash_sized (view (db s2)) (namespace ctx) k (h |` (- set fs)) (card (dom h) - length (filter (\<lambda>f. f \<in> dom h) fs))
    \<and> (distinct fs \<longrightarrow> fst (hdel R ctx (k # fs) s) = Inr (Integer (of_nat (card (set fs \<inter> dom h))))
         \<and> hash_rep (view (db s2)) (namespace ctx) k (h |` (- set fs)))
    \<and> (\<forall>k' ns. key_wf k' \<and> ns_wf ns \<and> k' \<noteq> k \<longrightarrow> object_view (view (db s2)) ns k' = object_view (view (db s)) ns k')"
proof -
  let ?ns = "namespace ctx" and ?old = "filter (\<lambda>f. h f \<noteq> None) fs"
  have ns: "ns_wf ?ns" using assms(1) by (rule command_env.namespace_wf)
  have dom: "filter (\<lambda>f. f \<in> dom h) fs = ?old" by (rule filter_cong) auto
  obtain t where run: "hdel R ctx (k # fs) s = (Inr (Integer (of_nat (length ?old))), t)"
    and t: "if ?old = [] then view (db t) = view (db s)
       else \<exists>md. meta_wf md \<and> metadata_data_type md = Some DT_Hash
         \<and> h = subkeys_of (view (db s)) CF_SUBKEY ?ns k (m_version md)
         \<and> m_size md = of_nat (card (dom h) - length ?old)
         \<and> view (db t) = fold apply_op (map (\<lambda>f. Delete CF_SUBKEY (subkey k (m_version md) f ?ns)) ?old
             @ [Put CF_METADATA (metadata_key k ?ns) (encode_metadata md)]) (view (db s))"
    using command_env.hdel_run [OF assms(1,3-6)] by blast
  have eff: "hash_sized (view (db t)) ?ns k (h |` (- set fs)) (card (dom h) - length ?old)
    \<and> (\<forall>k' ns'. key_wf k' \<and> ns_wf ns' \<and> k' \<noteq> k \<longrightarrow> object_view (view (db t)) ns' k' = object_view (view (db s)) ns' k')"
  proof (cases "?old = []")
    case True
    then have "h |` (- set fs) = h" by (auto simp: fun_eq_iff restrict_map_def filter_empty_conv)
    with True t assms(3) show ?thesis by (simp add: hash_rep_sized)
  next
    case False
    then obtain md where md: "meta_wf md" "metadata_data_type md = Some DT_Hash"
      and h: "h = subkeys_of (view (db s)) CF_SUBKEY ?ns k (m_version md)"
      and size: "m_size md = of_nat (card (dom h) - length ?old)"
      and v: "view (db t) = fold apply_op (map (\<lambda>f. Delete CF_SUBKEY (subkey k (m_version md) f ?ns)) ?old
             @ [Put CF_METADATA (metadata_key k ?ns) (encode_metadata md)]) (view (db s))"
      using t by auto
    have "h |` (- set ?old) = h |` (- set fs)" by (auto simp: fun_eq_iff restrict_map_def)
    then have subs: "subkeys_of (view (db t)) CF_SUBKEY ?ns k (m_version md) = h |` (- set fs)"
      unfolding v by (simp add: subkeys_of_put_meta subkeys_of_deletes h [symmetric] del: fold_append set_filter)
    have meta: "lookup_meta (view (db t)) ?ns k = Some (encode_metadata md)"
      unfolding v by (subst lookup_meta_write [OF ns assms(2,2)]) auto
    have "hash_sized (view (db t)) ?ns k (h |` (- set fs)) (card (dom h) - length ?old)"
      unfolding hash_sized_def meta option.case using md subs size by (intro exI [of _ md]) simp
    moreover have "object_view (view (db t)) ns' k' = object_view (view (db s)) ns' k'"
      if "key_wf k'" "ns_wf ns'" "k' \<noteq> k" for k' ns'
      unfolding v by (rule object_view_batch [OF _ ns assms(2) that]) auto
    ultimately show ?thesis by blast
  qed
  have "hash_rep (view (db t)) ?ns k (h |` (- set fs)) \<and> length ?old = card (set fs \<inter> dom h)" if "distinct fs"
  proof -
    have "finite (dom h)"
      using command_env.hash_rep_finite [OF assms(1,3)] .
    then have "card (dom (h |` (- set fs))) + length ?old = card (dom h)" by (rule card_dom_restrict [OF _ that])
    moreover have "set fs \<inter> dom h = set ?old" by auto
    ultimately show ?thesis
      using eff that distinct_card [OF distinct_filter [OF that], of "\<lambda>f. h f \<noteq> None"]
      by (metis (no_types, lifting) add_diff_cancel_right' hash_rep_sized)
  qed
  with eff run assms(7) show ?thesis unfolding dom by simp
qed

theorem hdel_refines_witness:
  "fst (hdel mem_store (tenant_context []) [bytes_of ''k'', bytes_of ''f'', bytes_of ''g''] (mem_world sample_hash))
   = Inr (Integer 1)"
  using hdel_refines [OF mem_env.command_env_axioms [of "[]"], of "bytes_of ''k''" "mem_world sample_hash"
      "[bytes_of ''f'' \<mapsto> [7]]" "[bytes_of ''f'', bytes_of ''g'']"] sample_hash_rep
  by (simp add: key_wf_def)

text \<open>C14: Iterating with HSCAN. A client that starts with cursor 0 and hands every returned cursor
  back until it gets 0 again stops, for every COUNT up to \<open>isize::MAX / 48\<close>, and has then received every
  pair of the hash exactly once, in the order of the fields, when the hash is not changed in between. A
  larger COUNT on a hash that exists makes the first call panic, since the page is reserved for COUNT
  entries in advance.\<close>

theorem hscan_complete:
  fixes s :: "('db, 'x) world_scheme"
  assumes "command_env R view ctx" and "key_wf k" and "hash_rep (view (db s)) (namespace ctx) k h"
    and "str_parse_usize count = Some n"
  shows "scan_pages (hscan_page R ctx k count) (bytes_of ''0'') (for_each collect) [] s
    = (if n * 48 < 2 ^ 63 \<or> lookup_meta (view (db s)) (namespace ctx) k = None
       then (Inr (Continue (map (\<lambda>(f, v). (bulk f, bulk v)) (entries h))), s) else (Inl Panic, s))"
  using command_env.hscan_all [OF assms(1,3,2,4)] by (simp add: with_capacity_ok_def disj_commute)

theorem hscan_complete_witness:
  "scan_pages (hscan_page mem_store (tenant_context []) (bytes_of ''k'') (bytes_of ''1'')) (bytes_of ''0'') (for_each collect) []
     (mem_world sample_hash) = (Inr (Continue [(bulk (bytes_of ''f''), bulk [7])]), mem_world sample_hash)"
proof -
  have "str_parse_usize (bytes_of ''1'') = Some 1"
    by (simp add: str_parse_usize_def parse_unsigned_def parse_nat_def bytes_of_def)
  then show ?thesis
    using hscan_complete [OF mem_env.command_env_axioms [of "[]"], of "bytes_of ''k''" "mem_world sample_hash"
        "[bytes_of ''f'' \<mapsto> [7]]" "bytes_of ''1''" 1] sample_hash_rep
    by (simp add: key_wf_def entries_def)
qed

text \<open>C15: HSET with the same new field twice. One field is stored, but the reply and the size in the
  metadata count it twice, so HLEN no longer agrees with the number of fields HGETALL returns.\<close>

theorem hset_counts_duplicates:
  fixes s :: "('db, 'x) world_scheme"
  assumes "command_env R view ctx" and "key_wf k" and "lookup_meta (view (db s)) (namespace ctx) k = None"
    and "fresh_version (view (db s)) (namespace ctx) k (next_version s)"
    and "s2 = snd (hset R ctx [k, f, v, f, w] s)"
  shows "fst (hset R ctx [k, f, v, f, w] s) = Inr (Integer 2)
    \<and> fst (hlen R ctx [k] s2) = Inr (Integer 2)
    \<and> (\<exists>ver. subkeys_of (view (db s2)) CF_SUBKEY (namespace ctx) k ver = [f \<mapsto> w])"
proof -
  let ?ns = "namespace ctx"
  have ns: "ns_wf ?ns" using assms(1) by (rule command_env.namespace_wf)
  have rep: "hash_rep (view (db s)) ?ns k Map.empty" using assms(3) by (simp add: hash_rep_def)
  let ?ps = "chunks_exact2 [f, v, f, w]"
  let ?new = "filter (\<lambda>(f, v). (Map.empty :: bytes \<rightharpoonup> bytes) f = None) ?ps"
  have args: "[f, v, f, w] \<noteq> []" "even (length [f, v, f, w])" by simp_all
  obtain md t where run: "hset R ctx [k, f, v, f, w] s = (Inr (Integer (of_nat (length ?new))), t)"
    and md: "meta_wf md" "metadata_data_type md = Some DT_Hash"
    and h: "Map.empty = subkeys_of (view (db s)) CF_SUBKEY ?ns k (m_version md)"
    and size: "m_size md = of_nat (card (dom (Map.empty :: bytes \<rightharpoonup> bytes)) + length ?new)"
    and t: "view (db t) = fold apply_op (map (\<lambda>(f, v). Put CF_SUBKEY (subkey k (m_version md) f ?ns) v) ?ps
           @ [Put CF_METADATA (metadata_key k ?ns) (encode_metadata md)]) (view (db s))"
    using command_env.hset_run [OF assms(1) rep args impI [OF assms(4)]] .
  have two: "m_size md = 2" using size by simp
  have "lookup_meta (view (db t)) ?ns k = Some (encode_metadata md)"
    unfolding t by (subst lookup_meta_write [OF ns assms(2,2)]) auto
  then have "fst (hlen R ctx [k] t) = Inr (Integer 2)"
    by (simp add: hlen_def run_expect_arg_count command_env.read_hash_meta_run [OF assms(1)]
        decode_and_check_hash_encode [OF md] two)
  moreover have "subkeys_of (view (db t)) CF_SUBKEY ?ns k (m_version md) = [f \<mapsto> w]"
    unfolding t by (simp add: subkeys_of_put_meta subkeys_of_puts h [symmetric] del: fold_append list.map)
  ultimately show ?thesis using run assms(5) by auto
qed

theorem hset_counts_duplicates_witness:
  "fst (hset mem_store (tenant_context []) [bytes_of ''k'', [1], [2], [1], [3]] (mem_world [])) = Inr (Integer 2)"
  using hset_counts_duplicates [OF mem_env.command_env_axioms [of "[]"], of "bytes_of ''k''" "mem_world []" _ "[1]" "[2]" "[3]"]
  by (simp add: key_wf_def lookup_meta_def mem_view_def mem_world_def fresh_version_def subkeys_of_def)

text \<open>C16: Hash commands do not look at the expiry time. A field of a hash whose deadline has passed is
  still returned by HGET, although TTL reports the key as missing.\<close>

theorem hget_ignores_expiry:
  fixes s :: "('db, 'x) world_scheme"
  assumes "command_env R view ctx" and "lookup_meta (view (db s)) (namespace ctx) k = Some (encode_metadata md)"
    and "meta_wf md" and "metadata_data_type md = Some DT_Hash" and "is_expired md (clock s 0)"
    and "view (db s) CF_SUBKEY (subkey k (m_version md) f (namespace ctx)) = Some v"
  shows "hget R ctx [k, f] s = (Inr (bulk v), s)"
  using assms
  by (simp add: hget_def run_expect_arg_count command_env.read_hash_meta_run [OF assms(1)] sub_key_def
      decode_and_check_hash_encode [OF assms(3,4)] rocksdb_contract.run_get [OF command_env.axioms(1) [OF assms(1)]])

theorem hget_ignores_expiry_witness:
  "fst (hget mem_store (tenant_context []) [bytes_of ''k'', bytes_of ''f'']
     (mem_world [((CF_METADATA, metadata_key (bytes_of ''k'') []),
          encode_metadata ((metadata_new DT_Hash 9)\<lparr>m_size := 1, m_expire := 5\<rparr>)),
        ((CF_SUBKEY, subkey (bytes_of ''k'') 9 (bytes_of ''f'') []), [7])])) = Inr (bulk [7])"
  using hget_ignores_expiry [OF mem_env.command_env_axioms [of "[]"], of
      "mem_world [((CF_METADATA, metadata_key (bytes_of ''k'') []),
          encode_metadata ((metadata_new DT_Hash 9)\<lparr>m_size := 1, m_expire := 5\<rparr>)),
        ((CF_SUBKEY, subkey (bytes_of ''k'') 9 (bytes_of ''f'') []), [7])]" "bytes_of ''k''"
      "(metadata_new DT_Hash 9)\<lparr>m_size := 1, m_expire := 5\<rparr>" "bytes_of ''f''" "[7]"]
  by (simp add: lookup_meta_def mem_view_def mem_world_def meta_wf_def metadata_data_type_def is_expired_def expired_at_def)

text \<open>Hashes in the old format under a namespace. The metadata of a hash written without namespace
  is found through the fallback, but its fields are looked up under the namespaced key only: HLEN
  reports the old size while HGET finds none of the fields.\<close>

theorem legacy_hash_fields_lost:
  fixes s :: "('db, 'x) world_scheme"
  assumes "command_env R view ctx" and "namespace ctx \<noteq> []" and "meta_wf md" and "metadata_data_type md = Some DT_Hash"
    and "view (db s) CF_METADATA (metadata_key k (namespace ctx)) = None"
    and "view (db s) CF_METADATA (metadata_key k []) = Some (encode_metadata md)"
    and "subkeys_of (view (db s)) CF_SUBKEY (namespace ctx) k (m_version md) = Map.empty"
  shows "hlen R ctx [k] s = (Inr (Integer (m_size md)), s) \<and> hget R ctx [k, f] s = (Inr (BulkString None), s)"
proof -
  have "lookup_meta (view (db s)) (namespace ctx) k = Some (encode_metadata md)"
    using assms(2,5,6) by (simp add: lookup_meta_def)
  with fun_cong [OF assms(7), of f] show ?thesis
    by (simp add: hget_def hlen_def run_expect_arg_count command_env.read_hash_meta_run [OF assms(1)] sub_key_def
      decode_and_check_hash_encode [OF assms(3,4)] rocksdb_contract.run_get [OF command_env.axioms(1) [OF assms(1)]]
      subkeys_of_def)
qed

theorem legacy_hash_fields_lost_witness:
  "fst (hlen mem_store (tenant_context [65]) [bytes_of ''k''] (mem_world sample_hash)) = Inr (Integer 1)
   \<and> fst (hget mem_store (tenant_context [65]) [bytes_of ''k'', bytes_of ''f''] (mem_world sample_hash)) = Inr (BulkString None)"
proof -
  have "metadata_key (bytes_of ''k'') [] \<noteq> metadata_key (bytes_of ''k'') [65]"
    by (simp add: metadata_key_eq_iff key_wf_def ns_wf_def)
  moreover have "subkey (bytes_of ''k'') 9 sub [65] \<noteq> subkey (bytes_of ''k'') 9 (bytes_of ''f'') []" for sub
    using subkey_prefix_code [of "bytes_of ''k''" "bytes_of ''k''" "[65]" "[]"] by (auto simp: key_wf_def ns_wf_def)
  ultimately show ?thesis
    using legacy_hash_fields_lost [OF mem_env.command_env_axioms [of "[65]"], of "(metadata_new DT_Hash 9)\<lparr>m_size := 1\<rparr>"
        "mem_world sample_hash" "bytes_of ''k''" "bytes_of ''f''"]
    by (simp add: mem_view_def mem_world_def tenant_context_def sample_hash_def meta_wf_def metadata_data_type_def subkeys_of_def)
qed

end
