(* ===== verification/Cmd_Set.thy ===== *)
theory Cmd_Set
  imports Kv_Object "HOL-Library.Multiset"
begin

text \<open>
  The set commands of \<open>src/src/cmd/set.rs\<close>. A set is a metadata entry and one subkey with an
  empty value per member. SMEMBERS collects the members in a \<open>HashSet\<close>, whose iteration order
  is unspecified: the order is a parameter of the definition.
\<close>

section \<open>Definitions\<close>

definition SET_VALUE :: bytes where "SET_VALUE = []"
definition SET_OPS_CHUNK_SIZE :: nat where "SET_OPS_CHUNK_SIZE = 1024"
definition SET_UNION_RESULT_LIMIT :: nat where "SET_UNION_RESULT_LIMIT = 1000000"

definition read_set_metadata :: "'db rocksdb \<Rightarrow> command_context \<Rightarrow> bytes
    \<Rightarrow> (('db, 'x) world_scheme, metadata option) kv" where
  "read_set_metadata R ctx user_key = and_then (get_meta R ctx user_key) (\<lambda>r. case r of
      Some v \<Rightarrow>
        if v = [] then raise (Protocol ''empty metadata value'')
        else if v ! 0 AND FLAGS_TYPE_MASK = code DT_String then raise wrong_type_error
        else and_then (lift (ok_or (decode_metadata v) (Protocol ''invalid set metadata''))) (\<lambda>meta.
          if metadata_data_type meta \<noteq> Some DT_Set then raise wrong_type_error
          else and_then now_ms (\<lambda>now. if is_expired meta now then ret None else ret (Some meta)))
    | None \<Rightarrow> ret None)"

text \<open>The members in the order of the scan; the \<open>HashSet\<close> drops duplicates.\<close>

definition load_members :: "'db rocksdb \<Rightarrow> command_context \<Rightarrow> bytes \<Rightarrow> metadata
    \<Rightarrow> (('db, 'x) world_scheme, bytes list) kv" where
  "load_members R ctx user_key meta =
     and_then (prefix_scan R CF_SUBKEY (sub_key ctx user_key (m_version meta) [])) (\<lambda>items.
       ret (remdups (List.map_filter (\<lambda>(k, _). case ctx_parse_subkey ctx k of
           Some (parsed_key, version, member) \<Rightarrow>
             if parsed_key = user_key \<and> version = m_version meta then Some member else None
         | None \<Rightarrow> None) items)))"

definition iter_members_page :: "'db rocksdb \<Rightarrow> command_context \<Rightarrow> bytes \<Rightarrow> u64 \<Rightarrow> bytes
    \<Rightarrow> (('db, 'x) world_scheme, bytes list \<times> bytes option) kv" where
  "iter_members_page R ctx user_key version start_key =
     and_then (prefix_scan_page R CF_SUBKEY (sub_key ctx user_key version []) start_key SET_OPS_CHUNK_SIZE)
       (\<lambda>(items, next_key). ret (List.map_filter (\<lambda>(k, _). case ctx_parse_subkey ctx k of
           Some (_, v, member) \<Rightarrow> if v = version then Some member else None
         | None \<Rightarrow> None) items, next_key))"

definition member_exists :: "'db rocksdb \<Rightarrow> command_context \<Rightarrow> bytes \<Rightarrow> u64 \<Rightarrow> bytes
    \<Rightarrow> (('db, 'x) world_scheme, bool) kv" where
  "member_exists R ctx user_key version member =
     and_then (storage_get R CF_SUBKEY (sub_key ctx user_key version member)) (\<lambda>v. ret (v \<noteq> None))"

text \<open>The loops of SADD and SREM over the members; the \<open>HashSet\<close> of members seen is a list here.\<close>

definition sadd_step :: "'db rocksdb \<Rightarrow> command_context \<Rightarrow> bytes \<Rightarrow> u64 \<Rightarrow> bytes
    \<Rightarrow> bytes list \<times> batch_op list \<times> i64 \<Rightarrow> (('db, 'x) world_scheme, bytes list \<times> batch_op list \<times> i64) kv" where
  "sadd_step R ctx user_key version member = (\<lambda>(seen, batch, added).
     if member \<in> set seen then ret (seen, batch, added)
     else let skey = sub_key ctx user_key version member in
       and_then (storage_get R CF_SUBKEY skey) (\<lambda>old.
         if old = None then and_then (batch_put R batch CF_SUBKEY skey SET_VALUE) (\<lambda>batch.
           ret (member # seen, batch, added + 1))
         else ret (member # seen, batch, added)))"

text \<open>The metadata SADD works on, and whether the set is new.\<close>

definition sadd_meta :: "'db rocksdb \<Rightarrow> command_context \<Rightarrow> bytes
    \<Rightarrow> (('db, 'x) world_scheme, metadata \<times> bool) kv" where
  "sadd_meta R ctx user_key = and_then (read_set_metadata R ctx user_key) (\<lambda>r. case r of
      Some m \<Rightarrow> ret (m, False)
    | None \<Rightarrow> and_then generate_version (\<lambda>v. ret (metadata_new DT_Set v, True)))"

definition sadd :: "'db rocksdb \<Rightarrow> ('db, 'x) world_scheme command_fn" where
  "sadd R ctx args = and_then (expect_min_arg_count ''SADD'' args 2) (\<lambda>_.
     and_then (sadd_meta R ctx (args ! 0)) (\<lambda>(meta, is_new).
     and_then (for_loop (sadd_step R ctx (args ! 0) (m_version meta)) (drop 1 args) ([], [], 0)) (\<lambda>(seen, batch, added).
       if 0 < sint added \<or> is_new then
         and_then (batch_put R batch CF_METADATA (meta_key ctx (args ! 0))
             (encode_metadata (meta\<lparr>m_size := saturating_add (m_size meta) added\<rparr>))) (\<lambda>batch.
         and_then (storage_write R batch) (\<lambda>_. ret (Integer added)))
       else ret (Integer added))))"

definition srem_step :: "'db rocksdb \<Rightarrow> command_context \<Rightarrow> bytes \<Rightarrow> u64 \<Rightarrow> bytes
    \<Rightarrow> bytes list \<times> batch_op list \<times> i64 \<Rightarrow> (('db, 'x) world_scheme, bytes list \<times> batch_op list \<times> i64) kv" where
  "srem_step R ctx user_key version member = (\<lambda>(seen, batch, removed).
     if member \<in> set seen then ret (seen, batch, removed)
     else let skey = sub_key ctx user_key version member in
       and_then (storage_get R CF_SUBKEY skey) (\<lambda>old.
         if old \<noteq> None then and_then (batch_delete R batch CF_SUBKEY skey) (\<lambda>batch.
           ret (member # seen, batch, removed + 1))
         else ret (member # seen, batch, removed)))"

definition srem :: "'db rocksdb \<Rightarrow> ('db, 'x) world_scheme command_fn" where
  "srem R ctx args = and_then (expect_min_arg_count ''SREM'' args 2) (\<lambda>_.
     and_then (read_set_metadata R ctx (args ! 0)) (\<lambda>r. case r of
       None \<Rightarrow> ret (Integer 0)
     | Some meta \<Rightarrow>
         and_then (for_loop (srem_step R ctx (args ! 0) (m_version meta)) (drop 1 args) ([], [], 0)) (\<lambda>(seen, batch, removed).
           if 0 < sint removed then
             and_then (batch_put R batch CF_METADATA (meta_key ctx (args ! 0))
                 (encode_metadata (meta\<lparr>m_size := saturating_sub (m_size meta) removed\<rparr>))) (\<lambda>batch.
             and_then (storage_write R batch) (\<lambda>_. ret (Integer removed)))
           else ret (Integer removed))))"

definition sismember :: "'db rocksdb \<Rightarrow> ('db, 'x) world_scheme command_fn" where
  "sismember R ctx args = and_then (expect_arg_count ''SISMEMBER'' args 2) (\<lambda>_.
     and_then (read_set_metadata R ctx (args ! 0)) (\<lambda>r. case r of
       None \<Rightarrow> ret (Integer 0)
     | Some meta \<Rightarrow> and_then (storage_get R CF_SUBKEY (sub_key ctx (args ! 0) (m_version meta) (args ! 1)))
         (\<lambda>v. ret (Integer (if v \<noteq> None then 1 else 0)))))"

definition smembers :: "(bytes list \<Rightarrow> bytes list) \<Rightarrow> 'db rocksdb \<Rightarrow> ('db, 'x) world_scheme command_fn" where
  "smembers hash_order R ctx args = and_then (expect_arg_count ''SMEMBERS'' args 1) (\<lambda>_.
     and_then (read_set_metadata R ctx (args ! 0)) (\<lambda>r. case r of
       None \<Rightarrow> ret (Array [])
     | Some meta \<Rightarrow> and_then (load_members R ctx (args ! 0) meta) (\<lambda>members.
         ret (Array (map bulk (hash_order members))))))"

definition scard :: "'db rocksdb \<Rightarrow> ('db, 'x) world_scheme command_fn" where
  "scard R ctx args = and_then (expect_arg_count ''SCARD'' args 1) (\<lambda>_.
     and_then (read_set_metadata R ctx (args ! 0)) (\<lambda>r. case r of
       None \<Rightarrow> ret (Integer 0)
     | Some meta \<Rightarrow> ret (Integer (m_size meta))))"

text \<open>\<open>unwrap_or(false)\<close>: an error counts as absence.\<close>

definition unwrap_or_false :: "('s, bool) kv \<Rightarrow> ('s, bool) kv" where
  "unwrap_or_false m = (\<lambda>s. case m s of (Inl (Err _), s') \<Rightarrow> (Inr False, s') | r \<Rightarrow> r)"

fun in_all :: "'db rocksdb \<Rightarrow> command_context \<Rightarrow> (bytes \<times> u64) list \<Rightarrow> bytes \<Rightarrow> (('db, 'x) world_scheme, bool) kv" where
  "in_all R ctx [] member = ret True"
| "in_all R ctx ((k, v) # others) member =
     and_then (unwrap_or_false (member_exists R ctx k v member)) (\<lambda>b.
       if b then in_all R ctx others member else ret False)"

fun in_any :: "'db rocksdb \<Rightarrow> command_context \<Rightarrow> (bytes \<times> u64) list \<Rightarrow> bytes \<Rightarrow> (('db, 'x) world_scheme, bool) kv" where
  "in_any R ctx [] member = ret False"
| "in_any R ctx ((k, v) # others) member =
     and_then (unwrap_or_false (member_exists R ctx k v member)) (\<lambda>b.
       if b then ret True else in_any R ctx others member)"

text \<open>The metadata of all keys of SINTER; \<open>Break\<close> when one of the sets does not exist.\<close>

definition sinter_meta :: "'db rocksdb \<Rightarrow> command_context \<Rightarrow> bytes \<Rightarrow> (bytes \<times> metadata) list
    \<Rightarrow> (('db, 'x) world_scheme, ((bytes \<times> metadata) list, resp_value) control_flow) kv" where
  "sinter_meta R ctx user_key metas = and_then (read_set_metadata R ctx user_key) (\<lambda>r. case r of
      Some m \<Rightarrow> ret (Continue (metas @ [(user_key, m)]))
    | None \<Rightarrow> ret (Break (Array [])))"

definition sinter_member :: "'db rocksdb \<Rightarrow> command_context \<Rightarrow> (bytes \<times> u64) list \<Rightarrow> bytes \<Rightarrow> resp_value list
    \<Rightarrow> (('db, 'x) world_scheme, (resp_value list, resp_value) control_flow) kv" where
  "sinter_member R ctx others member result = and_then (in_all R ctx others member) (\<lambda>b.
     ret (Continue (if b then result @ [bulk member] else result)))"

definition sinter :: "'db rocksdb \<Rightarrow> ('db, 'x) world_scheme command_fn" where
  "sinter R ctx args = and_then (expect_min_arg_count ''SINTER'' args 1) (\<lambda>_.
     and_then (for_each (sinter_meta R ctx) args []) (\<lambda>flow. case flow of
         Break r \<Rightarrow> ret r
       | Continue metas \<Rightarrow>
           (case sort_key (\<lambda>(k, m). m_size m) metas of
              [] \<Rightarrow> fail_with Panic
            | (base_key, base_meta) # metas \<Rightarrow>
                and_then (scan_pages (iter_members_page R ctx base_key (m_version base_meta)) []
                    (for_each (sinter_member R ctx (map (\<lambda>(k, m). (k, m_version m)) metas))) []) (\<lambda>flow.
                  case flow of Continue result \<Rightarrow> ret (Array result) | Break r \<Rightarrow> ret r))))"

text \<open>The other sets of SDIFF: a key that is missing, expired or of another type is left out.\<close>

definition sdiff_other :: "'db rocksdb \<Rightarrow> command_context \<Rightarrow> bytes \<Rightarrow> (bytes \<times> u64) list
    \<Rightarrow> (('db, 'x) world_scheme, (bytes \<times> u64) list) kv" where
  "sdiff_other R ctx k others = (\<lambda>s. case read_set_metadata R ctx k s of
      (Inl (Err _), s') \<Rightarrow> (Inr others, s')
    | (Inl e, s') \<Rightarrow> (Inl e, s')
    | (Inr None, s') \<Rightarrow> (Inr others, s')
    | (Inr (Some m), s') \<Rightarrow> (Inr (others @ [(k, m_version m)]), s'))"

definition sdiff_member :: "'db rocksdb \<Rightarrow> command_context \<Rightarrow> (bytes \<times> u64) list \<Rightarrow> bytes \<Rightarrow> resp_value list
    \<Rightarrow> (('db, 'x) world_scheme, (resp_value list, resp_value) control_flow) kv" where
  "sdiff_member R ctx others member result = and_then (in_any R ctx others member) (\<lambda>b.
     ret (Continue (if \<not> b then result @ [bulk member] else result)))"

definition sdiff :: "'db rocksdb \<Rightarrow> ('db, 'x) world_scheme command_fn" where
  "sdiff R ctx args = and_then (expect_min_arg_count ''SDIFF'' args 1) (\<lambda>_.
     and_then (read_set_metadata R ctx (args ! 0)) (\<lambda>r. case r of
       None \<Rightarrow> ret (Array [])
     | Some first_meta \<Rightarrow>
         and_then (for_loop (sdiff_other R ctx) (drop 1 args) []) (\<lambda>others.
         and_then (scan_pages (iter_members_page R ctx (args ! 0) (m_version first_meta)) []
             (for_each (sdiff_member R ctx others)) []) (\<lambda>flow.
           case flow of Continue result \<Rightarrow> ret (Array result) | Break r \<Rightarrow> ret r))))"

definition sunion_member :: "bytes \<Rightarrow> bytes list \<times> resp_value list
    \<Rightarrow> (('db, 'x) world_scheme, (bytes list \<times> resp_value list, resp_value) control_flow) kv" where
  "sunion_member member = (\<lambda>(seen, result).
     if SET_UNION_RESULT_LIMIT \<le> length seen then raise (Command ''SUNION result exceeds memory limit'')
     else if member \<in> set seen then ret (Continue (seen, result))
     else ret (Continue (member # seen, result @ [bulk member])))"

definition sunion_key :: "'db rocksdb \<Rightarrow> command_context \<Rightarrow> bytes \<Rightarrow> bytes list \<times> resp_value list
    \<Rightarrow> (('db, 'x) world_scheme, (bytes list \<times> resp_value list, resp_value) control_flow) kv" where
  "sunion_key R ctx user_key acc = and_then (read_set_metadata R ctx user_key) (\<lambda>r. case r of
      None \<Rightarrow> ret (Continue acc)
    | Some meta \<Rightarrow> scan_pages (iter_members_page R ctx user_key (m_version meta)) [] (for_each sunion_member) acc)"

definition sunion :: "'db rocksdb \<Rightarrow> ('db, 'x) world_scheme command_fn" where
  "sunion R ctx args = and_then (expect_min_arg_count ''SUNION'' args 1) (\<lambda>_.
     and_then (for_each (sunion_key R ctx) args ([], [])) (\<lambda>flow. case flow of
         Continue (seen, result) \<Rightarrow> ret (Array result)
       | Break r \<Rightarrow> ret r))"

section \<open>Reading sets\<close>

sublocale command_env \<subseteq> set_reader: typed_reader R view ctx "read_set_metadata R ctx" DT_Set "''invalid set metadata''"
proof
  fix k and s :: "('db, 'x) world_scheme"
  show "fst (read_set_metadata R ctx k s) = typed_meta DT_Set ''invalid set metadata'' (meta_of s k) (clock s 0)"
    by (simp add: read_set_metadata_def kv_run typed_meta_def split: option.split)
  show "same_world s (snd (read_set_metadata R ctx k s))"
    by (simp add: read_set_metadata_def kv_run split: option.split)
qed

text \<open>The set a key represents, with its deadline (0 for none).\<close>

definition set_rep :: "(string \<Rightarrow> bytes \<rightharpoonup> bytes) \<Rightarrow> bytes \<Rightarrow> bytes \<Rightarrow> i64 \<Rightarrow> bytes set \<Rightarrow> bool" where
  "set_rep m ns k e S \<longleftrightarrow> (case lookup_meta m ns k of
      None \<Rightarrow> S = {} \<and> e = 0
    | Some v \<Rightarrow> \<exists>md. v = encode_metadata md \<and> meta_wf md \<and> metadata_data_type md = Some DT_Set \<and> m_expire md = e
        \<and> S = dom (subkeys_of m CF_SUBKEY ns k (m_version md)) \<and> m_size md = of_nat (card S))"

text \<open>What is left of a set with a deadline at a time.\<close>

definition alive :: "i64 \<Rightarrow> i64 \<Rightarrow> 'a set \<Rightarrow> 'a set" where
  "alive e now S = (if expired_at e now then {} else S)"

definition deadline :: "i64 \<Rightarrow> i64 \<Rightarrow> i64" where
  "deadline e now = (if expired_at e now then 0 else e)"

context command_env
begin

lemma set_rep_cases:
  assumes "set_rep (view (db s)) (namespace ctx) k e S"
  obtains (gone) "typed_meta DT_Set ''invalid set metadata'' (meta_of s k) now = Inr None" "alive e now S = {}"
      "deadline e now = 0"
  | (live) md where "typed_meta DT_Set ''invalid set metadata'' (meta_of s k) now = Inr (Some md)"
      "alive e now S = S" "\<not> expired_at e now" "meta_wf md" "metadata_data_type md = Some DT_Set" "m_expire md = e"
      "S = dom (subkeys_of (view (db s)) CF_SUBKEY (namespace ctx) k (m_version md))" "m_size md = of_nat (card S)"
proof (cases "meta_of s k")
  case None
  with assms have "S = {}" "e = 0" by (simp_all add: set_rep_def)
  with None show ?thesis by (intro gone) (simp_all add: alive_def deadline_def)
next
  case (Some v)
  with assms obtain md where v: "v = encode_metadata md" and md: "meta_wf md" "metadata_data_type md = Some DT_Set"
    "m_expire md = e" "S = dom (subkeys_of (view (db s)) CF_SUBKEY (namespace ctx) k (m_version md))"
    "m_size md = of_nat (card S)"
    by (auto simp: set_rep_def)
  note typed = typed_meta_encode [OF md(1,2), of DT_Set "''invalid set metadata''" now]
  show ?thesis
  proof (cases "expired_at e now")
    case True
    with typed md(3) show ?thesis by (intro gone) (simp_all add: Some v is_expired_def alive_def deadline_def)
  next
    case False
    with typed md show ?thesis by (intro live [of md]) (simp_all add: Some v is_expired_def alive_def)
  qed
qed

lemma set_rep_finite: "set_rep (view (db s)) (namespace ctx) k e S \<Longrightarrow> finite S"
  using finite_subkeys by (auto simp: set_rep_def split: option.splits)

lemma sismember_rep:
  assumes "set_rep (view (db s)) (namespace ctx) k e S"
  shows "fst (sismember R ctx [k, x] s) = Inr (Integer (if x \<in> alive e (clock s 0) S then 1 else 0))"
  using assms
  by (cases rule: set_rep_cases [where now = "clock s 0"])
    (auto simp: sismember_def kv_run sub_key_def subkeys_of_def)

lemma scard_rep:
  assumes "set_rep (view (db s)) (namespace ctx) k e S"
  shows "fst (scard R ctx [k] s) = Inr (Integer (of_nat (card (alive e (clock s 0) S))))"
  using assms by (cases rule: set_rep_cases [where now = "clock s 0"]) (simp_all add: scard_def kv_run)

lemma parse_members:
  assumes "key_wf k"
  shows "List.map_filter (\<lambda>(x, _). case ctx_parse_subkey ctx x of
           Some (_, v, member) \<Rightarrow> if v = ver then Some member else None | None \<Rightarrow> None)
       (map (\<lambda>(f, v). (subkey k ver f (namespace ctx), v)) ps) = map fst ps"
    and "List.map_filter (\<lambda>(x, _). case ctx_parse_subkey ctx x of
           Some (parsed_key, v, member) \<Rightarrow> if parsed_key = k \<and> v = ver then Some member else None | None \<Rightarrow> None)
       (map (\<lambda>(f, v). (subkey k ver f (namespace ctx), v)) ps) = map fst ps"
  using parse_subkey_subkey [OF key_wf_length [OF assms] namespace_wf]
  by (induction ps) (auto simp: List.map_filter_def ctx_parse_subkey_def)

lemma smembers_rep:
  assumes "set_rep (view (db s)) (namespace ctx) k e S" and "key_wf k" and "ord [] = []"
  shows "fst (smembers ord R ctx [k] s) = Inr (Array (map bulk (ord (sorted_list_of_set (alive e (clock s 0) S)))))"
  using assms(1)
proof (cases rule: set_rep_cases [where now = "clock s 0"])
  case gone
  with assms(3) show ?thesis by (simp add: smembers_def kv_run)
next
  case (live md)
  have load: "load_members R ctx k md t = (Inr (sorted_list_of_set S), t)" if "db t = db s" for t :: "('db, 'x) world_scheme"
    using that live(7) parse_members(2) [OF assms(2), of "m_version md"
        "entries (subkeys_of (view (db s)) CF_SUBKEY (namespace ctx) k (m_version md))"]
    by (simp add: load_members_def and_then_def prefix_scan_ok sub_key_def scan_subkeys map_fst_entries)
  show ?thesis
    using live(1,2) by (simp add: smembers_def kv_run and_then_Inr [where m = "load_members R ctx k md", OF load])
qed

text \<open>Iterating over the members page by page visits them all, in key order.\<close>

lemma scan_members:
  fixes f :: "bytes \<Rightarrow> 'a \<Rightarrow> (('db, 'x) world_scheme, ('a, 'r) control_flow) kv"
  assumes "key_wf k" and "\<And>x acc t. db t = db s \<Longrightarrow> db (snd (f x acc t)) = db s"
  shows "scan_pages (iter_members_page R ctx k ver) [] (for_each f) acc s
    = for_each f (sorted_list_of_set (dom (subkeys_of (view (db s)) CF_SUBKEY (namespace ctx) k ver))) acc s"
proof -
  let ?p = "subkey k ver [] (namespace ctx)" and ?E = "entries (subkeys_of (view (db s)) CF_SUBKEY (namespace ctx) k ver)"
  let ?xs = "map (\<lambda>(f, v). (subkey k ver f (namespace ctx), v)) ?E"
  have xs: "scan_entries (view (db s) CF_SUBKEY) ?p = ?xs" by (simp add: scan_subkeys)
  have "paged_source (iter_members_page R ctx k ver) (scan_cursor ?xs) (map fst ?E) (max 1 SET_OPS_CHUNK_SIZE)
      (\<lambda>t :: ('db, 'x) world_scheme. db t = db s)"
  proof
    fix t :: "('db, 'x) world_scheme" and i
    assume t: "db t = db s" and i: "i \<le> length (map fst ?E)"
    have page: "prefix_scan_page R CF_SUBKEY ?p (scan_cursor ?xs i) SET_OPS_CHUNK_SIZE t =
        (Inr (take (max 1 SET_OPS_CHUNK_SIZE) (drop i ?xs), if i + max 1 SET_OPS_CHUNK_SIZE < length ?xs
          then Some (scan_cursor ?xs (i + max 1 SET_OPS_CHUNK_SIZE)) else None), t)"
      using pages.fetch_page [of CF_SUBKEY ?p SET_OPS_CHUNK_SIZE "view (db s) CF_SUBKEY" t i] t i
      by (simp add: xs scan_state_def with_capacity_ok_def SET_OPS_CHUNK_SIZE_def)
    show "iter_members_page R ctx k ver (scan_cursor ?xs i) t = (Inr (take (max 1 SET_OPS_CHUNK_SIZE) (drop i (map fst ?E)),
        if i + max 1 SET_OPS_CHUNK_SIZE < length (map fst ?E) then Some (scan_cursor ?xs (i + max 1 SET_OPS_CHUNK_SIZE)) else None), t)"
      using page parse_members(1) [OF assms(1), of ver "take (max 1 SET_OPS_CHUNK_SIZE) (drop i ?E)"]
      by (simp add: iter_members_page_def sub_key_def and_then_def take_map drop_map del: One_nat_def)
  qed simp
  from paged_source.scan_pages_eq [OF this, of f s acc] assms(2) show ?thesis
    by (simp add: scan_cursor_def map_fst_entries)
qed

end

section \<open>Writing sets\<close>

text \<open>The members outside \<open>S\<close> in the order of their first occurrence.\<close>

fun first_outside :: "'a set \<Rightarrow> 'a list \<Rightarrow> 'a list \<Rightarrow> 'a list" where
  "first_outside S seen [] = []"
| "first_outside S seen (x # xs) =
     (if x \<in> set seen then first_outside S seen xs
      else if x \<in> S then first_outside S (x # seen) xs
      else x # first_outside S (x # seen) xs)"

lemma set_first_outside: "set (first_outside S seen xs) = set xs - set seen - S"
  by (induction S seen xs rule: first_outside.induct) auto

lemma distinct_first_outside: "distinct (first_outside S seen xs)"
  by (induction S seen xs rule: first_outside.induct) (auto simp: set_first_outside)

lemma length_first_outside: "length (first_outside S [] xs) = card (set xs - S)"
  using distinct_card [OF distinct_first_outside [of S "[]" xs]] by (simp add: set_first_outside)

lemma subkeys_of_set_puts:
  "subkeys_of (fold apply_op (map (\<lambda>x. Put cf (subkey k ver x ns) v) xs) m) cf ns k ver
   = subkeys_of m cf ns k ver ++ map_of (rev (map (\<lambda>x. (x, v)) xs))"
  using subkeys_of_puts [of cf k ver ns "map (\<lambda>x. (x, v)) xs" m] by (simp add: comp_def)

lemma saturating_add_of_nat: "unat a + n < 2 ^ 64 \<Longrightarrow> saturating_add a (of_nat n) = a + of_nat n"
  by (simp add: saturating_add_def unat_of_nat)

lemma saturating_sub_of_nat: "n \<le> unat a \<Longrightarrow> saturating_sub a (of_nat n) = a - of_nat n"
  using unat_u64_less [of a] by (simp add: saturating_sub_def word_le_nat_alt unat_of_nat)

lemma sint_of_nat_pos: "n < 2 ^ 63 \<Longrightarrow> 0 < sint (of_nat n :: i64) \<longleftrightarrow> 0 < n"
  using sint_word_of_int_i64 [of "int n"] by simp

context command_env
begin

lemma sadd_loop:
  fixes s :: "('db, 'x) world_scheme"
  assumes S_def: "S = dom (subkeys_of (view (db s)) CF_SUBKEY (namespace ctx) k ver)"
  shows "\<exists>seen'. for_loop (sadd_step R ctx k ver) xs (seen, b, a) s =
    (Inr (seen', b @ map (\<lambda>x. Put CF_SUBKEY (subkey k ver x (namespace ctx)) SET_VALUE) (first_outside S seen xs),
          a + of_nat (length (first_outside S seen xs))), s)"
proof (induction xs arbitrary: seen b a)
  case (Cons x xs)
  have step: "sadd_step R ctx k ver x (seen, b, a) s = (Inr (if x \<in> set seen then (seen, b, a)
      else if x \<in> S then (x # seen, b, a)
      else (x # seen, b @ [Put CF_SUBKEY (subkey k ver x (namespace ctx)) SET_VALUE], a + 1)), s)"
    by (auto simp: sadd_step_def Let_def kv_run sub_key_def S_def subkeys_of_def)
  show ?case
    unfolding for_loop_step [where f = "sadd_step R ctx k ver", OF step]
    using Cons.IH [of seen b a] Cons.IH [of "x # seen" b a]
      Cons.IH [of "x # seen" "b @ [Put CF_SUBKEY (subkey k ver x (namespace ctx)) SET_VALUE]" "a + 1"]
    by (simp add: add.assoc)
qed simp

lemma srem_loop:
  fixes s :: "('db, 'x) world_scheme"
  assumes S_def: "S = dom (subkeys_of (view (db s)) CF_SUBKEY (namespace ctx) k ver)"
  shows "\<exists>seen'. for_loop (srem_step R ctx k ver) xs (seen, b, a) s =
    (Inr (seen', b @ map (\<lambda>x. Delete CF_SUBKEY (subkey k ver x (namespace ctx))) (first_outside (- S) seen xs),
          a + of_nat (length (first_outside (- S) seen xs))), s)"
proof (induction xs arbitrary: seen b a)
  case (Cons x xs)
  have step: "srem_step R ctx k ver x (seen, b, a) s = (Inr (if x \<in> set seen then (seen, b, a)
      else if x \<in> - S then (x # seen, b, a)
      else (x # seen, b @ [Delete CF_SUBKEY (subkey k ver x (namespace ctx))], a + 1)), s)"
    by (auto simp: srem_step_def Let_def kv_run sub_key_def S_def subkeys_of_def)
  show ?case
    unfolding for_loop_step [where f = "srem_step R ctx k ver", OF step]
    using Cons.IH [of seen b a] Cons.IH [of "x # seen" b a]
      Cons.IH [of "x # seen" "b @ [Delete CF_SUBKEY (subkey k ver x (namespace ctx))]" "a + 1"]
    by (simp add: add.assoc)
qed simp

text \<open>
  The object a set command writes to: the live one, or a new one whose version is the one the
  world gives after the metadata was read.
\<close>

lemma sadd_target:
  fixes s :: "('db, 'x) world_scheme"
  assumes "set_rep (view (db s)) (namespace ctx) k e S"
    and "alive e (clock s 0) S = {} \<longrightarrow>
      fresh_version (view (db s)) (namespace ctx) k (next_version (snd (read_set_metadata R ctx k s)))"
  obtains md new t where
    "sadd_meta R ctx k s = (Inr (md, new), t)"
    and "db t = db s" and "meta_wf md" and "metadata_data_type md = Some DT_Set"
    and "m_expire md = deadline e (clock s 0)"
    and "\<not> new \<longrightarrow> alive e (clock s 0) S = S \<and> \<not> expired_at e (clock s 0)"
    and "alive e (clock s 0) S = dom (subkeys_of (view (db s)) CF_SUBKEY (namespace ctx) k (m_version md))"
    and "m_size md = of_nat (card (alive e (clock s 0) S))"
  using assms(1)
proof (cases rule: set_rep_cases [where now = "clock s 0"])
  case gone
  let ?t = "snd (read_set_metadata R ctx k s)"
  have "subkeys_of (view (db s)) CF_SUBKEY (namespace ctx) k (next_version ?t) = Map.empty"
    using gone(2) assms(2) by (simp add: fresh_version_def)
  with gone show ?thesis
    by (intro that [of "metadata_new DT_Set (next_version ?t)" True
          "?t\<lparr>clock := \<lambda>i. clock ?t (Suc i), rng := \<lambda>i. rng ?t (Suc i)\<rparr>"])
      (simp_all add: sadd_meta_def kv_run meta_wf_def next_version_def)
next
  case (live md)
  then show ?thesis
    by (intro that [of md False "snd (read_set_metadata R ctx k s)"]) (simp_all add: sadd_meta_def kv_run deadline_def)
qed

end

lemma set_rep_write:
  assumes "ns_wf ns" and "key_wf k" and "\<forall>op \<in> set ops. op_cf op \<noteq> CF_METADATA"
    and "meta_wf md" and "metadata_data_type md = Some DT_Set"
    and "S = dom (subkeys_of (fold apply_op ops m) CF_SUBKEY ns k (m_version md))" and "m_size md = of_nat (card S)"
  shows "set_rep (fold apply_op (ops @ [Put CF_METADATA (metadata_key k ns) (encode_metadata md)]) m) ns k (m_expire md) S"
  unfolding set_rep_def lookup_meta_write [OF assms(1,2,2,3)]
  using assms(4-7) by (auto simp: subkeys_of_put_meta simp del: fold_append intro!: exI [of _ md])

context command_env
begin

lemma sadd_rep:
  fixes s :: "('db, 'x) world_scheme"
  assumes "key_wf k" and "set_rep (view (db s)) (namespace ctx) k e S" and "xs \<noteq> []"
    and "alive e (clock s 0) S = {} \<longrightarrow>
      fresh_version (view (db s)) (namespace ctx) k (next_version (snd (read_set_metadata R ctx k s)))"
    and "card (alive e (clock s 0) S) + card (set xs) < 2 ^ 63"
  defines "S0 \<equiv> alive e (clock s 0) S"
  shows "\<exists>t. sadd R ctx (k # xs) s = (Inr (Integer (of_nat (card (set xs - S0)))), t)
    \<and> set_rep (view (db t)) (namespace ctx) k (deadline e (clock s 0)) (S0 \<union> set xs)
    \<and> (\<forall>k' ns. key_wf k' \<and> ns_wf ns \<and> k' \<noteq> k \<longrightarrow> object_view (view (db t)) ns k' = object_view (view (db s)) ns k')"
proof -
  let ?ns = "namespace ctx" and ?news = "first_outside S0 [] xs" and ?n = "card (set xs - S0)"
  obtain md new t where target: "sadd_meta R ctx k s = (Inr (md, new), t)"
    and t: "db t = db s" and md: "meta_wf md" "metadata_data_type md = Some DT_Set"
    and ex: "m_expire md = deadline e (clock s 0)" and old: "\<not> new \<longrightarrow> S0 = S \<and> \<not> expired_at e (clock s 0)"
    and S0: "S0 = dom (subkeys_of (view (db s)) CF_SUBKEY ?ns k (m_version md))"
    and size: "m_size md = of_nat (card S0)"
    unfolding S0_def by (rule sadd_target [OF assms(2,4)])
  have len: "length ?news = ?n" by (rule length_first_outside)
  let ?puts = "map (\<lambda>x. Put CF_SUBKEY (subkey k (m_version md) x ?ns) SET_VALUE) ?news"
  obtain seen where loop: "for_loop (sadd_step R ctx k (m_version md)) xs ([], [], 0) t = (Inr (seen, ?puts, of_nat ?n), t)"
    using sadd_loop [of S0 t k "m_version md" xs "[]" "[]" 0] S0 t len by auto
  have fin: "finite S0" unfolding S0 by (rule finite_subkeys)
  have n: "?n \<le> card (set xs)" by (intro card_mono) auto
  then have pos: "0 < sint (of_nat ?n :: i64) \<longleftrightarrow> 0 < ?n"
    using assms(5) by (intro sint_of_nat_pos) (simp add: S0_def)
  have small: "card S0 + ?n < 2 ^ 63" using n assms(5) by (simp add: S0_def)
  let ?md = "md\<lparr>m_size := saturating_add (m_size md) (of_nat ?n)\<rparr>"
  let ?ops = "?puts @ [Put CF_METADATA (metadata_key k ?ns) (encode_metadata ?md)]"
  have cfs: "\<forall>op \<in> set ?ops. op_cf op \<in> set ALL_CFS" by auto
  have args: "2 \<le> length (k # xs)" using assms(3) by (cases xs) auto
  have run: "sadd R ctx (k # xs) s = (Inr (Integer (of_nat ?n)), if 0 < ?n \<or> new then write_world R ?ops t else t)"
    using args unfolding sadd_def
    by (simp add: run_expect_min_arg_count and_then_Inr [where m = "sadd_meta R ctx k", OF target]
        and_then_Inr [where m = "for_loop (sadd_step R ctx k (m_version md)) xs ([], [], 0)", OF loop] pos
        run_batch_put run_write [OF cfs] meta_key_def) (auto simp: card_gt_0_iff)
  show ?thesis
  proof (cases "0 < ?n \<or> new")
    case True
    have "m_size ?md = of_nat (card S0 + ?n)"
      using small by (simp add: saturating_add_of_nat size unat_of_nat)
    moreover have "card S0 + ?n = card (S0 \<union> set xs)"
      using fin card_Un_disjoint [of S0 "set xs - S0"] by (simp add: Un_Diff_cancel)
    ultimately have size': "m_size ?md = of_nat (card (S0 \<union> set xs))" by simp
    have dom: "S0 \<union> set xs = dom (subkeys_of (fold apply_op ?puts (view (db s))) CF_SUBKEY ?ns k (m_version ?md))"
      by (auto simp: subkeys_of_set_puts S0 [symmetric] dom_map_of_conv_image_fst set_first_outside image_iff)
    have "set_rep (fold apply_op ?ops (view (db s))) ?ns k (m_expire ?md) (S0 \<union> set xs)"
      by (rule set_rep_write [OF namespace_wf assms(1) _ _ _ dom size'])
        (use md in \<open>auto simp: meta_wf_def metadata_data_type_def\<close>)
    moreover have "object_view (fold apply_op ?ops (view (db s))) ns k' = object_view (view (db s)) ns k'"
      if "key_wf k'" "ns_wf ns" "k' \<noteq> k" for k' ns
      by (rule object_view_batch [OF _ namespace_wf assms(1) that]) auto
    ultimately show ?thesis
      using True run t write_world_db(2) [OF cfs, of t] ex by (intro exI [of _ "write_world R ?ops t"]) simp
  next
    case False
    then have "set xs \<subseteq> S0" by auto
    then have "S0 \<union> set xs = S0" by auto
    moreover have "sadd R ctx (k # xs) s = (Inr (Integer (of_nat ?n)), t)"
      unfolding run using False by (simp only: if_False)
    ultimately show ?thesis
      using False old assms(2) t by (intro exI [of _ t]) (simp add: deadline_def)
  qed
qed

lemma srem_rep:
  fixes s :: "('db, 'x) world_scheme"
  assumes "key_wf k" and "set_rep (view (db s)) (namespace ctx) k e S" and "xs \<noteq> []" and "card S < 2 ^ 63"
    and "\<not> expired_at e (clock s 0)"
  shows "\<exists>t. srem R ctx (k # xs) s = (Inr (Integer (of_nat (card (set xs \<inter> S)))), t)
    \<and> set_rep (view (db t)) (namespace ctx) k e (S - set xs)
    \<and> (\<forall>k' ns. key_wf k' \<and> ns_wf ns \<and> k' \<noteq> k \<longrightarrow> object_view (view (db t)) ns k' = object_view (view (db s)) ns k')"
proof -
  have args: "2 \<le> length (k # xs)" using assms(3) by (cases xs) auto
  show ?thesis
    using assms(2)
  proof (cases rule: set_rep_cases [where now = "clock s 0"])
    case gone
    with assms(5) have "S = {}" by (simp add: alive_def)
    with gone args assms(2) show ?thesis by (simp add: srem_def kv_run)
  next
    case (live md)
    let ?ns = "namespace ctx" and ?olds = "first_outside (- S) [] xs" and ?n = "card (set xs \<inter> S)"
    let ?t = "snd (read_set_metadata R ctx k s)"
    have len: "length ?olds = ?n" by (simp add: length_first_outside Diff_eq)
    let ?dels = "map (\<lambda>x. Delete CF_SUBKEY (subkey k (m_version md) x ?ns)) ?olds"
    obtain seen where loop: "for_loop (srem_step R ctx k (m_version md)) xs ([], [], 0) ?t = (Inr (seen, ?dels, of_nat ?n), ?t)"
      using srem_loop [of S ?t k "m_version md" xs "[]" "[]" 0] live(7) len by auto
    have fin: "finite S" unfolding live(7) by (rule finite_subkeys)
    have n: "?n \<le> card S" using fin by (intro card_mono) auto
    then have pos: "0 < sint (of_nat ?n :: i64) \<longleftrightarrow> 0 < ?n" using assms(4) by (intro sint_of_nat_pos) simp
    let ?md = "md\<lparr>m_size := saturating_sub (m_size md) (of_nat ?n)\<rparr>"
    let ?ops = "?dels @ [Put CF_METADATA (metadata_key k ?ns) (encode_metadata ?md)]"
    have cfs: "\<forall>op \<in> set ?ops. op_cf op \<in> set ALL_CFS" by auto
    have run: "srem R ctx (k # xs) s = (Inr (Integer (of_nat ?n)), if 0 < ?n then write_world R ?ops ?t else ?t)"
      using args live(1) unfolding srem_def
      by (simp add: run_expect_min_arg_count set_reader.run_reader
          and_then_Inr [where m = "for_loop (srem_step R ctx k (m_version md)) xs ([], [], 0)", OF loop] pos
          run_batch_put run_write [OF cfs] meta_key_def)
    show ?thesis
    proof (cases "0 < ?n")
      case True
      have "unat (m_size md) = card S" using live(8) assms(4) by (simp add: unat_of_nat)
      then have "m_size ?md = of_nat (card S) - of_nat ?n" using n live(8) by (simp add: saturating_sub_of_nat)
      also have "\<dots> = of_nat (card S - ?n)" using n by simp
      also have "card S - ?n = card (S - set xs)"
        using fin by (metis Int_commute card_Diff_subset_Int finite_Int)
      finally have size': "m_size ?md = of_nat (card (S - set xs))" .
      have dom: "S - set xs = dom (subkeys_of (fold apply_op ?dels (view (db s))) CF_SUBKEY ?ns k (m_version ?md))"
        using live(7) by (auto simp: subkeys_of_deletes set_first_outside)
      have "set_rep (fold apply_op ?ops (view (db s))) ?ns k (m_expire ?md) (S - set xs)"
        by (rule set_rep_write [OF namespace_wf assms(1) _ _ _ dom size'])
          (use live in \<open>auto simp: meta_wf_def metadata_data_type_def\<close>)
      moreover have "object_view (fold apply_op ?ops (view (db s))) ns k' = object_view (view (db s)) ns k'"
        if "key_wf k'" "ns_wf ns" "k' \<noteq> k" for k' ns
        by (rule object_view_batch [OF _ namespace_wf assms(1) that]) auto
      ultimately show ?thesis
        using True run live(6) write_world_db(2) [OF cfs, of ?t] by (intro exI [of _ "write_world R ?ops ?t"]) simp
    next
      case False
      then have "S - set xs = S" using fin by auto
      moreover have "srem R ctx (k # xs) s = (Inr (Integer (of_nat ?n)), ?t)"
        unfolding run using False by (simp only: if_False)
      ultimately show ?thesis using assms(2) by (intro exI [of _ ?t]) simp
    qed
  qed
qed

end

section \<open>Set algebra\<close>

lemma for_each_filter:
  assumes "\<And>x acc. f x acc s = (Inr (Continue (if P x then acc @ [g x] else acc)), s)"
  shows "for_each f xs acc s = (Inr (Continue (acc @ map g (filter P xs))), s)"
  by (induction xs arbitrary: acc) (simp_all add: and_then_def assms)

lemma sorted_list_of_set_filter:
  "finite A \<Longrightarrow> filter (\<lambda>x. x \<in> B) (sorted_list_of_set A) = sorted_list_of_set (A \<inter> B)"
  by (intro sorted_distinct_set_unique) (auto simp: sorted_wrt_filter)

text \<open>
  The sets of several keys: every key holds the set \<open>S k\<close>, and none of them expires while the
  command runs.
\<close>

definition sets_rep :: "('db \<Rightarrow> string \<Rightarrow> bytes \<rightharpoonup> bytes) \<Rightarrow> bytes \<Rightarrow> ('db, 'x) world_scheme \<Rightarrow> bytes list
    \<Rightarrow> (bytes \<Rightarrow> i64) \<Rightarrow> (bytes \<Rightarrow> bytes set) \<Rightarrow> bool" where
  "sets_rep view ns s ks E S \<longleftrightarrow> (\<forall>k \<in> set ks. key_wf k \<and> set_rep (view (db s)) ns k (E k) (S k)
     \<and> (\<forall>j. \<not> expired_at (E k) (clock s j)))"

lemma sets_rep_later: "sets_rep view ns s ks E S \<Longrightarrow> later s t \<Longrightarrow> sets_rep view ns t ks E S"
  by (auto simp: sets_rep_def later_def)

context command_env
begin

lemma read_set_later: "later s (snd (read_set_metadata R ctx k s))"
  by (simp add: read_set_metadata_def kv_run split: option.split)

text \<open>One read of the metadata under \<open>sets_rep\<close>.\<close>

lemma read_set_sets_rep:
  fixes s :: "('db, 'x) world_scheme"
  assumes "sets_rep view (namespace ctx) s ks E S" and "k \<in> set ks"
  obtains (none) t where "read_set_metadata R ctx k s = (Inr None, t)" "later s t" "S k = {}"
  | (some) t md where "read_set_metadata R ctx k s = (Inr (Some md), t)" "later s t"
      "S k = dom (subkeys_of (view (db s)) CF_SUBKEY (namespace ctx) k (m_version md))"
proof -
  from assms have rep: "set_rep (view (db s)) (namespace ctx) k (E k) (S k)" and ex: "\<not> expired_at (E k) (clock s 0)"
    by (auto simp: sets_rep_def)
  have fst: "fst (read_set_metadata R ctx k s) = typed_meta DT_Set ''invalid set metadata'' (meta_of s k) (clock s 0)"
    by (rule set_reader.reader_fst)
  from rep show ?thesis
  proof (cases rule: set_rep_cases [where now = "clock s 0"])
    case gone
    with ex fst show ?thesis
      by (intro none [of "snd (read_set_metadata R ctx k s)"]) (auto simp: alive_def read_set_later prod_eq_iff)
  next
    case (live md)
    with fst show ?thesis
      by (intro some [of md "snd (read_set_metadata R ctx k s)"]) (auto simp: read_set_later prod_eq_iff)
  qed
qed

lemma member_exists_run:
  "unwrap_or_false (member_exists R ctx k v x) s
   = (Inr (x \<in> dom (subkeys_of (view (db s)) CF_SUBKEY (namespace ctx) k v)), s)"
  by (auto simp: unwrap_or_false_def member_exists_def kv_run sub_key_def subkeys_of_def)

lemma in_all_run: "in_all R ctx others x s =
    (Inr (\<forall>(k, v) \<in> set others. x \<in> dom (subkeys_of (view (db s)) CF_SUBKEY (namespace ctx) k v)), s)"
proof (induction others)
  case (Cons p others)
  then show ?case by (cases p) (simp add: and_then_def member_exists_run)
qed simp

lemma in_any_run: "in_any R ctx others x s =
    (Inr (\<exists>(k, v) \<in> set others. x \<in> dom (subkeys_of (view (db s)) CF_SUBKEY (namespace ctx) k v)), s)"
proof (induction others)
  case (Cons p others)
  then show ?case by (cases p) (simp add: and_then_def member_exists_run)
qed simp

end

context command_env
begin

lemma sinter_metas:
  fixes s :: "('db, 'x) world_scheme"
  assumes "sets_rep view (namespace ctx) s ks E S"
  shows "\<exists>t. later s t \<and>
    (for_each (sinter_meta R ctx) ks acc s = (Inr (Break (Array [])), t) \<and> (\<exists>k \<in> set ks. S k = {})
     \<or> (\<exists>ms. for_each (sinter_meta R ctx) ks acc s = (Inr (Continue (acc @ ms)), t) \<and> map fst ms = ks
          \<and> (\<forall>(k, m) \<in> set ms. S k = dom (subkeys_of (view (db s)) CF_SUBKEY (namespace ctx) k (m_version m)))))"
  using assms
proof (induction ks arbitrary: s acc)
  case Nil
  then show ?case by (intro exI [of _ s]) simp
next
  case (Cons k ks)
  have "k \<in> set (k # ks)" by simp
  with Cons.prems show ?case
  proof (cases rule: read_set_sets_rep)
    case (none t)
    then show ?thesis by (intro exI [of _ t]) (simp add: sinter_meta_def and_then_def)
  next
    case (some t md)
    have step: "sinter_meta R ctx k acc s = (Inr (Continue (acc @ [(k, md)])), t)"
      using some(1) by (simp add: sinter_meta_def and_then_def)
    note run = and_then_Inr [where m = "sinter_meta R ctx k acc", OF step]
    have db: "db t = db s" using some(2) by (simp add: later_def)
    have "sets_rep view (namespace ctx) t ks E S"
      using sets_rep_later [OF Cons.prems some(2)] by (simp add: sets_rep_def)
    from Cons.IH [OF this, of "acc @ [(k, md)]"] obtain u where u: "later t u"
      and rest: "for_each (sinter_meta R ctx) ks (acc @ [(k, md)]) t = (Inr (Break (Array [])), u) \<and> (\<exists>k \<in> set ks. S k = {})
        \<or> (\<exists>ms. for_each (sinter_meta R ctx) ks (acc @ [(k, md)]) t = (Inr (Continue ((acc @ [(k, md)]) @ ms)), u)
          \<and> map fst ms = ks \<and> (\<forall>(k, m) \<in> set ms. S k = dom (subkeys_of (view (db s)) CF_SUBKEY (namespace ctx) k (m_version m))))"
      by (auto simp: db)
    have all: "for_each (sinter_meta R ctx) (k # ks) acc s = for_each (sinter_meta R ctx) ks (acc @ [(k, md)]) t"
      by (simp add: run)
    from rest show ?thesis
    proof
      assume "for_each (sinter_meta R ctx) ks (acc @ [(k, md)]) t = (Inr (Break (Array [])), u) \<and> (\<exists>k \<in> set ks. S k = {})"
      then show ?thesis unfolding all using later_trans [OF some(2) u] by (intro exI [of _ u]) auto
    next
      assume "\<exists>ms. for_each (sinter_meta R ctx) ks (acc @ [(k, md)]) t = (Inr (Continue ((acc @ [(k, md)]) @ ms)), u)
          \<and> map fst ms = ks \<and> (\<forall>(k, m) \<in> set ms. S k = dom (subkeys_of (view (db s)) CF_SUBKEY (namespace ctx) k (m_version m)))"
      then obtain ms where "for_each (sinter_meta R ctx) ks (acc @ [(k, md)]) t = (Inr (Continue (acc @ (k, md) # ms)), u)"
        and "map fst ((k, md) # ms) = k # ks"
        and "\<forall>(k, m) \<in> set ((k, md) # ms). S k = dom (subkeys_of (view (db s)) CF_SUBKEY (namespace ctx) k (m_version m))"
        using some(3) by auto
      then show ?thesis unfolding all using later_trans [OF some(2) u]
        by (intro exI [of _ u] conjI disjI2 exI [of _ "(k, md) # ms"])
    qed
  qed
qed

lemma scan_filter:
  fixes t :: "('db, 'x) world_scheme"
  assumes "key_wf k" and "\<And>x acc (u :: ('db, 'x) world_scheme). db u = db t \<Longrightarrow>
      f x acc u = (Inr (Continue (if P x then acc @ [bulk x] else acc)), u)"
  shows "scan_pages (iter_members_page R ctx k ver) [] (for_each f) [] t
    = (Inr (Continue (map bulk (filter P (sorted_list_of_set (dom (subkeys_of (view (db t)) CF_SUBKEY (namespace ctx) k ver)))))), t)"
proof -
  have "scan_pages (iter_members_page R ctx k ver) [] (for_each f) [] t
      = for_each f (sorted_list_of_set (dom (subkeys_of (view (db t)) CF_SUBKEY (namespace ctx) k ver))) [] t"
    by (rule scan_members [OF assms(1)]) (simp add: assms(2))
  with for_each_filter [of f t P bulk] assms(2) [of t] show ?thesis by simp
qed

lemma sinter_rep:
  fixes s :: "('db, 'x) world_scheme"
  assumes "sets_rep view (namespace ctx) s ks E S" and "ks \<noteq> []"
  shows "fst (sinter R ctx ks s) = Inr (Array (map bulk (sorted_list_of_set (\<Inter>k \<in> set ks. S k))))"
proof -
  have args: "Suc 0 \<le> length ks" using assms(2) by (simp add: Suc_le_eq)
  obtain t where t: "later s t" and "for_each (sinter_meta R ctx) ks [] s = (Inr (Break (Array [])), t) \<and> (\<exists>k \<in> set ks. S k = {})
     \<or> (\<exists>ms. for_each (sinter_meta R ctx) ks [] s = (Inr (Continue ([] @ ms)), t) \<and> map fst ms = ks
          \<and> (\<forall>(k, m) \<in> set ms. S k = dom (subkeys_of (view (db s)) CF_SUBKEY (namespace ctx) k (m_version m))))"
    using sinter_metas [OF assms(1), of "[]"] by blast
  then consider (empty) "for_each (sinter_meta R ctx) ks [] s = (Inr (Break (Array [])), t)" "\<exists>k \<in> set ks. S k = {}"
    | (all) ms where "for_each (sinter_meta R ctx) ks [] s = (Inr (Continue ms), t)" "map fst ms = ks"
        "\<forall>(k, m) \<in> set ms. S k = dom (subkeys_of (view (db s)) CF_SUBKEY (namespace ctx) k (m_version m))"
    by auto
  then show ?thesis
  proof cases
    case empty
    then have "(\<Inter>k \<in> set ks. S k) = {}" by auto
    with args show ?thesis
      by (simp add: sinter_def run_expect_min_arg_count and_then_Inr [where m = "for_each (sinter_meta R ctx) ks []", OF empty(1)])
  next
    case (all ms)
    have db: "db t = db s" using t by (simp add: later_def)
    let ?sorted = "sort_key (\<lambda>(k, m). m_size m) ms"
    have "?sorted \<noteq> []" using all(2) assms(2) by (metis length_0_conv length_map length_sort)
    then obtain k m rest where srt: "?sorted = (k, m) # rest" by (cases ?sorted) auto
    have ms: "set ms = insert (k, m) (set rest)" using srt by (metis list.simps(15) set_sort)
    have ks: "set ks = insert k (fst ` set rest)" using all(2) ms by (metis image_insert fst_conv list.set_map)
    have "key_wf k" using assms(1) ks by (auto simp: sets_rep_def)
    moreover have "sinter_member R ctx (map (\<lambda>(k, m). (k, m_version m)) rest) x acc u
        = (Inr (Continue (if x \<in> (\<Inter>k \<in> fst ` set rest. S k) then acc @ [bulk x] else acc)), u)"
      if "db u = db t" for x acc and u :: "('db, 'x) world_scheme"
      using all(3) ms that db by (fastforce simp: sinter_member_def and_then_def in_all_run)
    ultimately have scan: "scan_pages (iter_members_page R ctx k (m_version m)) []
        (for_each (sinter_member R ctx (map (\<lambda>(k, m). (k, m_version m)) rest))) [] t
      = (Inr (Continue (map bulk (filter (\<lambda>x. x \<in> (\<Inter>k \<in> fst ` set rest. S k)) (sorted_list_of_set (dom (subkeys_of (view (db t)) CF_SUBKEY (namespace ctx) k (m_version m))))))), t)"
      by (rule scan_filter [where P = "\<lambda>x. x \<in> (\<Inter>k \<in> fst ` set rest. S k)"])
    have "S k = dom (subkeys_of (view (db s)) CF_SUBKEY (namespace ctx) k (m_version m))" using all(3) ms by auto
    moreover have "(\<Inter>k \<in> set ks. S k) = S k \<inter> (\<Inter>k \<in> fst ` set rest. S k)" using ks by simp
    ultimately have "filter (\<lambda>x. x \<in> (\<Inter>k \<in> fst ` set rest. S k)) (sorted_list_of_set (dom (subkeys_of (view (db t)) CF_SUBKEY (namespace ctx) k (m_version m))))
        = sorted_list_of_set (\<Inter>k \<in> set ks. S k)"
      using sorted_list_of_set_filter [of "S k" "\<Inter>k \<in> fst ` set rest. S k"] finite_subkeys
      by (simp only: db)
    with args srt scan show ?thesis
      by (simp add: sinter_def run_expect_min_arg_count and_then_Inr [where m = "for_each (sinter_meta R ctx) ks []", OF all(1)]
          and_then_Inr [where m = "scan_pages _ _ _ _", OF scan])
  qed
qed

end

lemma sunion_members:
  assumes "distinct seen" and "result = map bulk (rev seen)" and "finite U" and "card U < SET_UNION_RESULT_LIMIT"
    and "set seen \<union> set xs \<subseteq> U"
  shows "\<exists>seen'. for_each sunion_member xs (seen, result) s = (Inr (Continue (seen', map bulk (rev seen'))), s)
    \<and> distinct seen' \<and> set seen' = set seen \<union> set xs"
  using assms
proof (induction xs arbitrary: seen result)
  case Nil
  then show ?case by simp
next
  case (Cons x xs)
  let ?seen = "if x \<in> set seen then seen else x # seen"
  have "length seen = card (set seen)" using Cons.prems(1) by (simp add: distinct_card)
  also have "\<dots> \<le> card U" using Cons.prems by (intro card_mono) auto
  finally have "\<not> SET_UNION_RESULT_LIMIT \<le> length seen" using Cons.prems(4) by simp
  then have "sunion_member x (seen, result) s = (Inr (Continue (?seen, map bulk (rev ?seen))), s)"
    using Cons.prems(2) by (simp add: sunion_member_def)
  then have "for_each sunion_member (x # xs) (seen, result) s = for_each sunion_member xs (?seen, map bulk (rev ?seen)) s"
    by (simp add: and_then_def)
  moreover have "set ?seen \<union> set xs = set seen \<union> set (x # xs)" by auto
  ultimately show ?case using Cons.IH [of ?seen "map bulk (rev ?seen)"] Cons.prems by auto
qed

context command_env
begin

lemma sdiff_others:
  fixes s :: "('db, 'x) world_scheme"
  assumes "sets_rep view (namespace ctx) s ks E S"
  shows "\<exists>t os. later s t \<and> for_loop (sdiff_other R ctx) ks acc s = (Inr (acc @ os), t)
    \<and> (\<Union>(k, ver) \<in> set os. dom (subkeys_of (view (db s)) CF_SUBKEY (namespace ctx) k ver)) = (\<Union>k \<in> set ks. S k)"
  using assms
proof (induction ks arbitrary: s acc)
  case Nil
  then show ?case by (intro exI [of _ s] exI [of _ "[]"]) simp
next
  case (Cons k ks)
  have "k \<in> set (k # ks)" by simp
  with Cons.prems have "\<exists>t os. later s t \<and> sdiff_other R ctx k acc s = (Inr (acc @ os), t)
    \<and> (\<Union>(k, ver) \<in> set os. dom (subkeys_of (view (db s)) CF_SUBKEY (namespace ctx) k ver)) = S k"
  proof (cases rule: read_set_sets_rep)
    case (none t)
    then show ?thesis by (intro exI [of _ t] exI [of _ "[]"]) (simp add: sdiff_other_def)
  next
    case (some t md)
    then show ?thesis by (intro exI [of _ t] exI [of _ "[(k, m_version md)]"]) (simp add: sdiff_other_def)
  qed
  then obtain t os where t: "later s t" and step: "sdiff_other R ctx k acc s = (Inr (acc @ os), t)"
    and os: "(\<Union>(k, ver) \<in> set os. dom (subkeys_of (view (db s)) CF_SUBKEY (namespace ctx) k ver)) = S k" by blast
  have db: "db t = db s" using t by (simp add: later_def)
  have "sets_rep view (namespace ctx) t ks E S"
    using sets_rep_later [OF Cons.prems t] by (simp add: sets_rep_def)
  from Cons.IH [OF this, of "acc @ os"] obtain u os' where u: "later t u"
    and rest: "for_loop (sdiff_other R ctx) ks (acc @ os) t = (Inr ((acc @ os) @ os'), u)"
      "(\<Union>(k, ver) \<in> set os'. dom (subkeys_of (view (db s)) CF_SUBKEY (namespace ctx) k ver)) = (\<Union>k \<in> set ks. S k)"
    unfolding db by blast
  show ?case
    using later_trans [OF t u] rest os for_loop_step [where f = "sdiff_other R ctx", OF step, of ks]
    by (intro exI [of _ u] exI [of _ "os @ os'"]) (simp add: UN_Un)
qed

lemma sdiff_rep:
  fixes s :: "('db, 'x) world_scheme"
  assumes "sets_rep view (namespace ctx) s (k # ks) E S"
  shows "fst (sdiff R ctx (k # ks) s) = Inr (Array (map bulk (sorted_list_of_set (S k - (\<Union>k \<in> set ks. S k)))))"
proof -
  have "k \<in> set (k # ks)" by simp
  with assms show ?thesis
  proof (cases rule: read_set_sets_rep)
    case (none t)
    then show ?thesis
      by (simp add: sdiff_def run_expect_min_arg_count and_then_Inr [where m = "read_set_metadata R ctx k"])
  next
    case (some t md)
    have "sets_rep view (namespace ctx) t ks E S"
      using sets_rep_later [OF assms some(2)] by (simp add: sets_rep_def)
    from sdiff_others [OF this, of "[]"] obtain u os where u: "later t u"
      and loop: "for_loop (sdiff_other R ctx) ks [] t = (Inr os, u)"
      and os: "(\<Union>(k, ver) \<in> set os. dom (subkeys_of (view (db t)) CF_SUBKEY (namespace ctx) k ver)) = (\<Union>k \<in> set ks. S k)"
      by auto
    have db: "db t = db s" "db u = db s" using some(2) u by (simp_all add: later_def)
    let ?B = "\<Union>k \<in> set ks. S k"
    have "key_wf k" using assms by (simp add: sets_rep_def)
    moreover have "sdiff_member R ctx os x acc w = (Inr (Continue (if x \<in> - ?B then acc @ [bulk x] else acc)), w)"
      if "db w = db u" for x acc and w :: "('db, 'x) world_scheme"
      unfolding os [symmetric] using that db by (simp add: sdiff_member_def and_then_def in_any_run case_prod_beta)
    ultimately have scan: "scan_pages (iter_members_page R ctx k (m_version md)) [] (for_each (sdiff_member R ctx os)) [] u
      = (Inr (Continue (map bulk (filter (\<lambda>x. x \<in> - ?B) (sorted_list_of_set (dom (subkeys_of (view (db u)) CF_SUBKEY (namespace ctx) k (m_version md))))))), u)"
      by (rule scan_filter [where P = "\<lambda>x. x \<in> - ?B"])
    have "filter (\<lambda>x. x \<in> - ?B) (sorted_list_of_set (S k)) = sorted_list_of_set (S k - ?B)"
      using sorted_list_of_set_filter [of "S k" "- ?B"] finite_subkeys some(3) by (simp only: Diff_eq)
    with scan have "scan_pages (iter_members_page R ctx k (m_version md)) [] (for_each (sdiff_member R ctx os)) [] u
      = (Inr (Continue (map bulk (sorted_list_of_set (S k - ?B)))), u)" by (simp only: db some(3))
    then show ?thesis
      by (simp add: sdiff_def run_expect_min_arg_count and_then_Inr [where m = "read_set_metadata R ctx k", OF some(1)]
          and_then_Inr [where m = "for_loop (sdiff_other R ctx) ks []", OF loop]
          and_then_Inr [where m = "scan_pages _ _ _ _"])
  qed
qed

lemma sunion_keys:
  fixes s :: "('db, 'x) world_scheme"
  assumes "sets_rep view (namespace ctx) s ks E S" and "distinct seen" and "finite U" and "card U < SET_UNION_RESULT_LIMIT"
    and "set seen \<union> (\<Union>k \<in> set ks. S k) \<subseteq> U"
  shows "\<exists>t seen'. for_each (sunion_key R ctx) ks (seen, map bulk (rev seen)) s = (Inr (Continue (seen', map bulk (rev seen'))), t)
    \<and> distinct seen' \<and> set seen' = set seen \<union> (\<Union>k \<in> set ks. S k)"
  using assms
proof (induction ks arbitrary: s seen)
  case Nil
  then show ?case by simp
next
  case (Cons k ks)
  have "k \<in> set (k # ks)" by simp
  with Cons.prems(1) have "\<exists>t seen'. later s t \<and> sunion_key R ctx k (seen, map bulk (rev seen)) s
      = (Inr (Continue (seen', map bulk (rev seen'))), t) \<and> distinct seen' \<and> set seen' = set seen \<union> S k"
  proof (cases rule: read_set_sets_rep)
    case (none t)
    then show ?thesis using Cons.prems(2)
      by (intro exI [of _ t] exI [of _ seen]) (simp add: sunion_key_def and_then_Inr [where m = "read_set_metadata R ctx k"])
  next
    case (some t md)
    let ?xs = "sorted_list_of_set (dom (subkeys_of (view (db t)) CF_SUBKEY (namespace ctx) k (m_version md)))"
    have xs: "set ?xs = S k" using some(2,3) finite_subkeys by (simp add: later_def)
    have "key_wf k" using Cons.prems(1) by (simp add: sets_rep_def)
    then have scan: "scan_pages (iter_members_page R ctx k (m_version md)) [] (for_each sunion_member) (seen, map bulk (rev seen)) t
        = for_each sunion_member ?xs (seen, map bulk (rev seen)) t"
      by (rule scan_members) (auto simp: sunion_member_def)
    have "set seen \<union> set ?xs \<subseteq> U" using Cons.prems(5) xs by auto
    from sunion_members [OF Cons.prems(2) refl Cons.prems(3,4) this, of t]
    show ?thesis using some(2) xs scan
      by (intro exI [of _ t]) (auto simp: sunion_key_def and_then_Inr [where m = "read_set_metadata R ctx k", OF some(1)])
  qed
  then obtain t seen1 where t: "later s t" and step: "sunion_key R ctx k (seen, map bulk (rev seen)) s
      = (Inr (Continue (seen1, map bulk (rev seen1))), t)" and seen1: "distinct seen1" "set seen1 = set seen \<union> S k" by blast
  have "sets_rep view (namespace ctx) t ks E S"
    using sets_rep_later [OF Cons.prems(1) t] by (simp add: sets_rep_def)
  then have "\<exists>u seen'. for_each (sunion_key R ctx) ks (seen1, map bulk (rev seen1)) t = (Inr (Continue (seen', map bulk (rev seen'))), u)
      \<and> distinct seen' \<and> set seen' = set seen1 \<union> (\<Union>k \<in> set ks. S k)"
    using Cons.prems(3-5) seen1 by (intro Cons.IH) auto
  then show ?case using seen1(2)
    by (auto simp: and_then_Inr [where m = "sunion_key R ctx k (seen, map bulk (rev seen))", OF step])
qed

lemma sunion_rep:
  fixes s :: "('db, 'x) world_scheme"
  assumes "sets_rep view (namespace ctx) s ks E S" and "ks \<noteq> []"
    and "card (\<Union>k \<in> set ks. S k) < SET_UNION_RESULT_LIMIT"
  shows "\<exists>xs. fst (sunion R ctx ks s) = Inr (Array (map bulk xs)) \<and> distinct xs \<and> set xs = (\<Union>k \<in> set ks. S k)"
proof -
  have "finite (S k)" if "k \<in> set ks" for k
    using assms(1) that by (rule read_set_sets_rep) (simp_all add: finite_subkeys)
  then have "finite (\<Union>k \<in> set ks. S k)" by simp
  from sunion_keys [OF assms(1) _ this assms(3), of "[]"] obtain t seen where
    run: "for_each (sunion_key R ctx) ks ([], []) s = (Inr (Continue (seen, map bulk (rev seen))), t)"
    and seen: "distinct seen" "set seen = (\<Union>k \<in> set ks. S k)" by auto
  have args: "Suc 0 \<le> length ks" using assms(2) by (simp add: Suc_le_eq)
  show ?thesis using seen args
    by (intro exI [of _ "rev seen"]) (simp add: sunion_def run_expect_min_arg_count
        and_then_Inr [where m = "for_each (sunion_key R ctx) ks ([], [])", OF run])
qed

end

section \<open>Properties\<close>

text \<open>A store with two sets, \<open>{a, b}\<close> under \<open>s\<close> and \<open>{b, c}\<close> under \<open>t\<close>.\<close>

definition sample_sets :: mem where
  "sample_sets =
    [((CF_METADATA, metadata_key (bytes_of ''s'') []), encode_metadata ((metadata_new DT_Set 9)\<lparr>m_size := 2\<rparr>)),
     ((CF_METADATA, metadata_key (bytes_of ''t'') []), encode_metadata ((metadata_new DT_Set 8)\<lparr>m_size := 2\<rparr>)),
     ((CF_SUBKEY, subkey (bytes_of ''s'') 9 (bytes_of ''a'') []), []),
     ((CF_SUBKEY, subkey (bytes_of ''s'') 9 (bytes_of ''b'') []), []),
     ((CF_SUBKEY, subkey (bytes_of ''t'') 8 (bytes_of ''b'') []), []),
     ((CF_SUBKEY, subkey (bytes_of ''t'') 8 (bytes_of ''c'') []), [])]"

lemma sample_subkeys:
  "dom (subkeys_of (mem_view sample_sets) CF_SUBKEY [] (bytes_of ''s'') 9) = {bytes_of ''a'', bytes_of ''b''}"
  "dom (subkeys_of (mem_view sample_sets) CF_SUBKEY [] (bytes_of ''t'') 8) = {bytes_of ''b'', bytes_of ''c''}"
  by (auto simp: subkeys_of_def mem_view_def sample_sets_def subkey_def metadata_key_def split: if_splits)

lemma sample_sets_rep:
  "set_rep (mem_view sample_sets) [] (bytes_of ''s'') 0 {bytes_of ''a'', bytes_of ''b''}"
  "set_rep (mem_view sample_sets) [] (bytes_of ''t'') 0 {bytes_of ''b'', bytes_of ''c''}"
proof -
  have s: "lookup_meta (mem_view sample_sets) [] (bytes_of ''s'') = Some (encode_metadata ((metadata_new DT_Set 9)\<lparr>m_size := 2\<rparr>))"
    and t: "lookup_meta (mem_view sample_sets) [] (bytes_of ''t'') = Some (encode_metadata ((metadata_new DT_Set 8)\<lparr>m_size := 2\<rparr>))"
    by (simp_all add: lookup_meta_def mem_view_def sample_sets_def metadata_key_def)
  show "set_rep (mem_view sample_sets) [] (bytes_of ''s'') 0 {bytes_of ''a'', bytes_of ''b''}"
    unfolding set_rep_def s using sample_subkeys(1)
    unfolding option.case by (intro exI [of _ "(metadata_new DT_Set 9)\<lparr>m_size := 2\<rparr>"]) (simp add: meta_wf_def metadata_data_type_def)
  show "set_rep (mem_view sample_sets) [] (bytes_of ''t'') 0 {bytes_of ''b'', bytes_of ''c''}"
    unfolding set_rep_def t using sample_subkeys(2)
    unfolding option.case by (intro exI [of _ "(metadata_new DT_Set 8)\<lparr>m_size := 2\<rparr>"]) (simp add: meta_wf_def metadata_data_type_def)
qed

text \<open>C17: SADD implements union. For a key that represents the set \<open>S\<close>, SADD replies how many of the
  given members, counted once each, were not in the set as it stands at the time of the call (an
  expired set is empty); afterwards the key represents that set with the members added, its stored
  size again its number of members, its deadline kept, and every other key is as before. A set that
  starts anew must get a version under which no subkeys are left.\<close>

theorem sadd_refines:
  fixes s :: "('db, 'x) world_scheme"
  assumes "command_env R view ctx" and "key_wf k" and "set_rep (view (db s)) (namespace ctx) k e S" and "xs \<noteq> []"
    and "alive e (clock s 0) S = {} \<longrightarrow>
      fresh_version (view (db s)) (namespace ctx) k (next_version (snd (read_set_metadata R ctx k s)))"
    and "card (alive e (clock s 0) S) + card (set xs) < 2 ^ 63"
    and "s2 = snd (sadd R ctx (k # xs) s)"
  shows "fst (sadd R ctx (k # xs) s) = Inr (Integer (of_nat (card (set xs - alive e (clock s 0) S))))
    \<and> set_rep (view (db s2)) (namespace ctx) k (deadline e (clock s 0)) (alive e (clock s 0) S \<union> set xs)
    \<and> (\<forall>k' ns. key_wf k' \<and> ns_wf ns \<and> k' \<noteq> k \<longrightarrow> object_view (view (db s2)) ns k' = object_view (view (db s)) ns k')"
  using command_env.sadd_rep [OF assms(1-6)] assms(7) by auto

theorem sadd_refines_witness:
  "fst (sadd mem_store (tenant_context []) [bytes_of ''s'', bytes_of ''b'', bytes_of ''d'', bytes_of ''d''] (mem_world sample_sets))
     = Inr (Integer 1)
   \<and> set_rep (mem_view (db (snd (sadd mem_store (tenant_context []) [bytes_of ''s'', bytes_of ''b'', bytes_of ''d'', bytes_of ''d''] (mem_world sample_sets)))))
       [] (bytes_of ''s'') 0 {bytes_of ''a'', bytes_of ''b'', bytes_of ''d''}"
  using sadd_refines [OF mem_env.command_env_axioms [of "[]"], of "bytes_of ''s''" "mem_world sample_sets" 0
      "{bytes_of ''a'', bytes_of ''b''}" "[bytes_of ''b'', bytes_of ''d'', bytes_of ''d'']"] sample_sets_rep(1)
  by (simp add: key_wf_def mem_world_def alive_def deadline_def insert_Diff_if insert_commute)

text \<open>C18: SREM implements difference. For a key that represents the set \<open>S\<close>, SREM replies how many of
  the given members, counted once each, were in it; afterwards the key represents the set without
  them, its stored size again its number of members, and every other key is as before.\<close>

theorem srem_refines:
  fixes s :: "('db, 'x) world_scheme"
  assumes "command_env R view ctx" and "key_wf k" and "set_rep (view (db s)) (namespace ctx) k e S" and "xs \<noteq> []"
    and "card S < 2 ^ 63" and "\<not> expired_at e (clock s 0)" and "s2 = snd (srem R ctx (k # xs) s)"
  shows "fst (srem R ctx (k # xs) s) = Inr (Integer (of_nat (card (set xs \<inter> S))))
    \<and> set_rep (view (db s2)) (namespace ctx) k e (S - set xs)
    \<and> (\<forall>k' ns. key_wf k' \<and> ns_wf ns \<and> k' \<noteq> k \<longrightarrow> object_view (view (db s2)) ns k' = object_view (view (db s)) ns k')"
  using command_env.srem_rep [OF assms(1-6)] assms(7) by auto

theorem srem_refines_witness:
  "fst (srem mem_store (tenant_context []) [bytes_of ''s'', bytes_of ''b'', bytes_of ''d''] (mem_world sample_sets))
     = Inr (Integer 1)
   \<and> set_rep (mem_view (db (snd (srem mem_store (tenant_context []) [bytes_of ''s'', bytes_of ''b'', bytes_of ''d''] (mem_world sample_sets)))))
       [] (bytes_of ''s'') 0 {bytes_of ''a''}"
  using srem_refines [OF mem_env.command_env_axioms [of "[]"], of "bytes_of ''s''" "mem_world sample_sets" 0
      "{bytes_of ''a'', bytes_of ''b''}" "[bytes_of ''b'', bytes_of ''d'']"] sample_sets_rep(1)
  by (simp add: key_wf_def mem_world_def alive_def insert_Diff_if)

text \<open>C19: The reading commands of a key that represents the set \<open>S\<close> answer from the set as it stands
  at the time of the call, the empty one once the deadline has passed: SISMEMBER tests membership,
  SCARD is the number of members, and SMEMBERS lists the members in the order the hash set of the
  implementation has, which is a permutation of them.\<close>

theorem set_reads:
  fixes s :: "('db, 'x) world_scheme"
  assumes "command_env R view ctx" and "key_wf k" and "set_rep (view (db s)) (namespace ctx) k e S"
    and "\<And>xs. mset (hash_order xs) = mset xs"
  shows "fst (sismember R ctx [k, x] s) = Inr (Integer (if x \<in> alive e (clock s 0) S then 1 else 0))
    \<and> fst (scard R ctx [k] s) = Inr (Integer (of_nat (card (alive e (clock s 0) S))))
    \<and> (\<exists>xs. fst (smembers hash_order R ctx [k] s) = Inr (Array (map bulk xs)) \<and> distinct xs
          \<and> set xs = alive e (clock s 0) S)"
proof -
  let ?xs = "hash_order (sorted_list_of_set (alive e (clock s 0) S))"
  have "hash_order [] = []" using assms(4) [of "[]"] by simp
  moreover have "finite S" by (rule command_env.set_rep_finite [OF assms(1,3)])
  then have "distinct ?xs \<and> set ?xs = alive e (clock s 0) S"
    using mset_eq_imp_distinct_iff [OF assms(4)] mset_eq_setD [OF assms(4)] by (auto simp: alive_def)
  ultimately show ?thesis
    using command_env.smembers_rep [OF assms(1,3,2)] command_env.sismember_rep [OF assms(1,3)]
      command_env.scard_rep [OF assms(1,3)] by blast
qed

theorem set_reads_witness:
  "fst (sismember mem_store (tenant_context []) [bytes_of ''s'', bytes_of ''b''] (mem_world sample_sets)) = Inr (Integer 1)
   \<and> fst (scard mem_store (tenant_context []) [bytes_of ''s''] (mem_world sample_sets)) = Inr (Integer 2)"
  using set_reads [OF mem_env.command_env_axioms [of "[]"], of "bytes_of ''s''" "mem_world sample_sets" 0
      "{bytes_of ''a'', bytes_of ''b''}" rev "bytes_of ''b''"] sample_sets_rep(1)
  by (simp add: key_wf_def mem_world_def alive_def)

text \<open>C20: SINTER, SDIFF and SUNION compute the intersection, the difference and the union of the sets
  of their keys, whatever the order of the keys, the sizes and the number of pages: SINTER and SDIFF
  list the result in the order of the members, SUNION lists it once each. The keys must not expire
  while the command runs, and the union must stay below the result limit.\<close>

theorem set_algebra:
  fixes s :: "('db, 'x) world_scheme"
  assumes "command_env R view ctx" and "sets_rep view (namespace ctx) s (k # ks) E S"
    and "card (\<Union>k \<in> set (k # ks). S k) < SET_UNION_RESULT_LIMIT"
  shows "fst (sinter R ctx (k # ks) s) = Inr (Array (map bulk (sorted_list_of_set (\<Inter>k \<in> set (k # ks). S k))))
    \<and> fst (sdiff R ctx (k # ks) s) = Inr (Array (map bulk (sorted_list_of_set (S k - (\<Union>k \<in> set ks. S k)))))
    \<and> (\<exists>xs. fst (sunion R ctx (k # ks) s) = Inr (Array (map bulk xs)) \<and> distinct xs
          \<and> set xs = (\<Union>k \<in> set (k # ks). S k))"
  using command_env.sinter_rep [OF assms(1,2)] command_env.sdiff_rep [OF assms(1,2)]
    command_env.sunion_rep [OF assms(1,2) _ assms(3)] by blast

theorem set_algebra_witness:
  "fst (sinter mem_store (tenant_context []) [bytes_of ''s'', bytes_of ''t''] (mem_world sample_sets)) = Inr (Array [bulk (bytes_of ''b'')])
   \<and> fst (sdiff mem_store (tenant_context []) [bytes_of ''s'', bytes_of ''t''] (mem_world sample_sets)) = Inr (Array [bulk (bytes_of ''a'')])"
proof -
  let ?S = "\<lambda>k. if k = bytes_of ''s'' then {bytes_of ''a'', bytes_of ''b''} else {bytes_of ''b'', bytes_of ''c''}"
  have "sets_rep mem_view (namespace (tenant_context [])) (mem_world sample_sets) [bytes_of ''s'', bytes_of ''t''] (\<lambda>_. 0) ?S"
    using sample_sets_rep by (simp add: sets_rep_def key_wf_def mem_world_def)
  moreover have "card (\<Union>k \<in> set [bytes_of ''s'', bytes_of ''t'']. ?S k) < SET_UNION_RESULT_LIMIT"
    by (simp add: SET_UNION_RESULT_LIMIT_def card_insert_if)
  ultimately show ?thesis
    using set_algebra [OF mem_env.command_env_axioms [of "[]"]] by (fastforce simp: insert_Diff_if)
qed

end
