(* ===== verification/Cmd_List.thy ===== *)
theory Cmd_List
  imports Kv_Object
begin

text \<open>
  The list commands of \<open>src/src/cmd/list.rs\<close>. A list is a metadata entry with the indices of its
  head and tail, and one subkey per element: the index as a signed 64-bit number, encoded so that
  the byte order of the keys is the order of the indices. LPUSH grows the indices downwards from 0,
  RPUSH upwards from -1.

  The model's list is an Isabelle list together with the index of its head. The theorems show that
  the commands are the list operations, as long as the indices stay in the range of \<open>i64\<close>.
\<close>

section \<open>Definitions\<close>

unbundle bit_operations_syntax

definition LIST_PAGE_SIZE :: nat where "LIST_PAGE_SIZE = 1024"

definition load_list_meta :: "'db rocksdb \<Rightarrow> command_context \<Rightarrow> bytes
    \<Rightarrow> (('db, 'x) world_scheme, metadata option) kv" where
  "load_list_meta R ctx user_key = and_then (get_meta R ctx user_key) (\<lambda>r. case r of
      None \<Rightarrow> ret None
    | Some v \<Rightarrow>
        if v = [] then raise (Protocol ''empty metadata value'')
        else if v ! 0 AND FLAGS_TYPE_MASK = code DT_String then raise wrong_type_error
        else and_then (lift (ok_or (decode_metadata v) (Protocol ''invalid list metadata''))) (\<lambda>meta.
          if metadata_data_type meta \<noteq> Some DT_List then raise wrong_type_error
          else and_then now_ms (\<lambda>now. if is_expired meta now then ret None else ret (Some meta))))"

definition parse_i64 :: "bytes \<Rightarrow> failure + i64" where
  "parse_i64 data = ok_or (str_parse_i64 data) NotInteger"

definition parse_usize :: "bytes \<Rightarrow> failure + nat" where
  "parse_usize data = ok_or (str_parse_usize data) NotInteger"

text \<open>The constant \<open>1u64 << 63\<close>.\<close>

definition sign_bit :: u64 where "sign_bit = push_bit 63 1"

definition encode_index :: "i64 \<Rightarrow> bytes" where
  "encode_index idx = be64 (idx XOR sign_bit)"

text \<open>The slice \<open>bytes[..8]\<close> panics on a shorter one; eight bytes always convert.\<close>

definition decode_index :: "bytes \<Rightarrow> failure + i64" where
  "decode_index bs = (if length bs < 8 then Inl Panic else Inr (of_be64 (take 8 bs) XOR sign_bit))"

definition push_step :: "'db rocksdb \<Rightarrow> command_context \<Rightarrow> bytes \<Rightarrow> bool \<Rightarrow> bytes
    \<Rightarrow> metadata \<times> batch_op list \<Rightarrow> (('db, 'x) world_scheme, metadata \<times> batch_op list) kv" where
  "push_step R ctx user_key left element = (\<lambda>(meta, batch).
     if left then
       let meta = meta\<lparr>m_head := m_head meta - 1\<rparr> in
       and_then (batch_put R batch CF_SUBKEY (sub_key ctx user_key (m_version meta) (encode_index (m_head meta))) element)
         (\<lambda>batch. ret (meta\<lparr>m_size := m_size meta + 1\<rparr>, batch))
     else
       let meta = meta\<lparr>m_tail := m_tail meta + 1\<rparr> in
       and_then (batch_put R batch CF_SUBKEY (sub_key ctx user_key (m_version meta) (encode_index (m_tail meta))) element)
         (\<lambda>batch. ret (meta\<lparr>m_size := m_size meta + 1\<rparr>, batch)))"

definition push_meta :: "'db rocksdb \<Rightarrow> command_context \<Rightarrow> bytes \<Rightarrow> (('db, 'x) world_scheme, metadata) kv" where
  "push_meta R ctx user_key = and_then (load_list_meta R ctx user_key) (\<lambda>r. case r of
      Some m \<Rightarrow> ret m
    | None \<Rightarrow> and_then generate_version (\<lambda>v. ret (metadata_new DT_List v)))"

definition push :: "'db rocksdb \<Rightarrow> bool \<Rightarrow> ('db, 'x) world_scheme command_fn" where
  "push R left ctx args = and_then (expect_min_arg_count (if left then ''LPUSH'' else ''RPUSH'') args 2) (\<lambda>_.
     and_then (push_meta R ctx (args ! 0)) (\<lambda>meta.
     and_then (for_loop (push_step R ctx (args ! 0) left) (drop 1 args) (meta, [])) (\<lambda>(meta, batch).
     and_then (batch_put R batch CF_METADATA (meta_key ctx (args ! 0)) (encode_metadata meta)) (\<lambda>batch.
     and_then (storage_write R batch) (\<lambda>_. ret (Integer (m_size meta)))))))"

definition lpush :: "'db rocksdb \<Rightarrow> ('db, 'x) world_scheme command_fn" where
  "lpush R = push R True"

definition rpush :: "'db rocksdb \<Rightarrow> ('db, 'x) world_scheme command_fn" where
  "rpush R = push R False"

text \<open>Moving the head or the tail past a removed element; an empty list starts again at its origin.\<close>

definition shrink :: "bool \<Rightarrow> metadata \<Rightarrow> metadata" where
  "shrink left meta =
     (if left then meta\<lparr>m_head := m_head meta + 1\<rparr> else meta\<lparr>m_tail := m_tail meta - 1\<rparr>)
       \<lparr>m_size := m_size meta - 1\<rparr>"

definition reset_empty :: "metadata \<Rightarrow> metadata" where
  "reset_empty meta = (if m_size meta = 0 then meta\<lparr>m_head := 0, m_tail := -1\<rparr> else meta)"

definition pop_one :: "'db rocksdb \<Rightarrow> command_context \<Rightarrow> bytes \<Rightarrow> bool \<Rightarrow> (('db, 'x) world_scheme, resp_value) kv" where
  "pop_one R ctx user_key left = and_then (load_list_meta R ctx user_key) (\<lambda>r. case r of
      None \<Rightarrow> ret (BulkString None)
    | Some meta \<Rightarrow>
        if m_size meta = 0 then ret (BulkString None)
        else let index = if left then m_head meta else m_tail meta;
                 sk = sub_key ctx user_key (m_version meta) (encode_index index) in
          and_then (storage_get R CF_SUBKEY sk) (\<lambda>v.
          and_then (batch_delete R [] CF_SUBKEY sk) (\<lambda>batch.
          and_then (batch_put R batch CF_METADATA (meta_key ctx user_key) (encode_metadata (reset_empty (shrink left meta)))) (\<lambda>batch.
          and_then (storage_write R batch) (\<lambda>_. ret (BulkString v))))))"

definition pop_step :: "'db rocksdb \<Rightarrow> command_context \<Rightarrow> bytes \<Rightarrow> bool \<Rightarrow> nat
    \<Rightarrow> metadata \<times> resp_value list \<times> batch_op list
    \<Rightarrow> (('db, 'x) world_scheme, metadata \<times> resp_value list \<times> batch_op list) kv" where
  "pop_step R ctx user_key left i = (\<lambda>(meta, result, batch).
     let index = if left then m_head meta else m_tail meta;
         sk = sub_key ctx user_key (m_version meta) (encode_index index) in
     and_then (storage_get R CF_SUBKEY sk) (\<lambda>r. case r of
       Some v \<Rightarrow> and_then (batch_delete R batch CF_SUBKEY sk) (\<lambda>batch. ret (shrink left meta, result @ [bulk v], batch))
     | None \<Rightarrow> ret (shrink left meta, result, batch)))"

definition pop_many :: "'db rocksdb \<Rightarrow> command_context \<Rightarrow> bytes \<Rightarrow> nat \<Rightarrow> bool \<Rightarrow> (('db, 'x) world_scheme, resp_value) kv" where
  "pop_many R ctx user_key count left =
     (if count = 0 then ret (Array [])
      else and_then (load_list_meta R ctx user_key) (\<lambda>r. case r of
        None \<Rightarrow> ret (Array [])
      | Some meta \<Rightarrow>
          if m_size meta = 0 then ret (Array [])
          else let actual = min count (unat (m_size meta)) in
            and_then (for_loop (pop_step R ctx user_key left) [0..<actual] (meta, [], [])) (\<lambda>(meta, result, batch).
            and_then (batch_put R batch CF_METADATA (meta_key ctx user_key) (encode_metadata (reset_empty meta))) (\<lambda>batch.
            and_then (storage_write R batch) (\<lambda>_. ret (Array result))))))"

definition pop :: "'db rocksdb \<Rightarrow> bool \<Rightarrow> ('db, 'x) world_scheme command_fn" where
  "pop R left ctx args =
     (if length args \<noteq> 1 \<and> length args \<noteq> 2 then raise (WrongArgCount (if left then ''LPOP'' else ''RPOP''))
      else if length args = 1 then pop_one R ctx (args ! 0) left
      else and_then (lift (parse_usize (args ! 1))) (\<lambda>count. pop_many R ctx (args ! 0) count left))"

definition lpop :: "'db rocksdb \<Rightarrow> ('db, 'x) world_scheme command_fn" where
  "lpop R = pop R True"

definition rpop :: "'db rocksdb \<Rightarrow> ('db, 'x) world_scheme command_fn" where
  "rpop R = pop R False"

text \<open>The index range LRANGE reads, as offsets from the head; \<open>None\<close> when it is empty.\<close>

definition lrange_bounds :: "i64 \<Rightarrow> i64 \<Rightarrow> i64 \<Rightarrow> (i64 \<times> i64) option" where
  "lrange_bounds len start stop =
     (let s = if start <s 0 then start + len else start;
          e = if stop <s 0 then stop + len else stop;
          s = if s <s 0 then 0 else s;
          e = if len \<le>s e then len - 1 else e
      in if e <s s then None else Some (s, e))"

definition lrange_item :: "command_context \<Rightarrow> i64 \<Rightarrow> i64 \<Rightarrow> nat \<Rightarrow> entry \<Rightarrow> resp_value list
    \<Rightarrow> (('db, 'x) world_scheme, (resp_value list, resp_value) control_flow) kv" where
  "lrange_item ctx start_idx end_idx count = (\<lambda>(k, v) result.
     and_then (lift (ok_or (ctx_parse_subkey ctx k) (Protocol ''invalid list subkey''))) (\<lambda>(_, _, sub).
     and_then (lift (if length sub < 8 then Inl Panic else decode_index (take 8 sub))) (\<lambda>idx.
       if idx <s start_idx then ret (Continue result)
       else if end_idx <s idx then ret (Break (Array result))
       else let result = result @ [bulk v] in
         if count \<le> length result then ret (Break (Array result)) else ret (Continue result))))"

definition lrange :: "'db rocksdb \<Rightarrow> ('db, 'x) world_scheme command_fn" where
  "lrange R ctx args = and_then (expect_arg_count ''LRANGE'' args 3) (\<lambda>_.
     and_then (lift (parse_i64 (args ! 1))) (\<lambda>start.
     and_then (lift (parse_i64 (args ! 2))) (\<lambda>stop.
     and_then (load_list_meta R ctx (args ! 0)) (\<lambda>r. case r of
       None \<Rightarrow> ret (Array [])
     | Some meta \<Rightarrow>
         if m_size meta = 0 then ret (Array [])
         else case lrange_bounds (m_size meta) start stop of
           None \<Rightarrow> ret (Array [])
         | Some (s, e) \<Rightarrow>
             and_then (scan_pages (\<lambda>current_key. prefix_scan_page R CF_SUBKEY
                 (sub_key ctx (args ! 0) (m_version meta) []) current_key LIST_PAGE_SIZE) []
                 (for_each (lrange_item ctx (m_head meta + s) (m_head meta + e) (unat (e - s + 1)))) [])
               (\<lambda>flow. case flow of Continue result \<Rightarrow> ret (Array result) | Break r \<Rightarrow> ret r)))))"

definition lindex :: "'db rocksdb \<Rightarrow> ('db, 'x) world_scheme command_fn" where
  "lindex R ctx args = and_then (expect_arg_count ''LINDEX'' args 2) (\<lambda>_.
     and_then (lift (parse_i64 (args ! 1))) (\<lambda>index.
     and_then (load_list_meta R ctx (args ! 0)) (\<lambda>r. case r of
       None \<Rightarrow> ret (BulkString None)
     | Some meta \<Rightarrow>
         if m_size meta = 0 then ret (BulkString None)
         else let len = m_size meta; i = if index <s 0 then index + len else index in
           if i <s 0 \<or> len \<le>s i then ret (BulkString None)
           else and_then (storage_get R CF_SUBKEY (sub_key ctx (args ! 0) (m_version meta) (encode_index (m_head meta + i))))
             (\<lambda>v. ret (BulkString v)))))"

definition llen :: "'db rocksdb \<Rightarrow> ('db, 'x) world_scheme command_fn" where
  "llen R ctx args = and_then (expect_arg_count ''LLEN'' args 1) (\<lambda>_.
     and_then (load_list_meta R ctx (args ! 0)) (\<lambda>r.
       ret (Integer (case r of Some m \<Rightarrow> m_size m | None \<Rightarrow> 0))))"

section \<open>Indices\<close>

lemma flip_sign_involution [simp]: "(w XOR sign_bit) XOR sign_bit = (w :: i64)"
  by (simp add: xor.assoc)

lemma uint_xor_sign_bit [simp]: "uint (w XOR sign_bit) = sint w + 2 ^ 63"
  unfolding sign_bit_def by (rule uint_flip_sign)

lemma length_encode_index [simp]: "length (encode_index w) = 8"
  by (simp add: encode_index_def)

lemma decode_encode_index [simp]: "decode_index (encode_index w) = Inr w"
  by (simp add: decode_index_def encode_index_def)

lemma encode_index_inj [simp]: "encode_index v = encode_index w \<longleftrightarrow> v = w"
  by (metis Inr_inject decode_encode_index)

lemma encode_index_surj: "length bs = 8 \<Longrightarrow> \<exists>w. bs = encode_index w"
  by (rule exI [of _ "of_be64 bs XOR sign_bit"]) (simp add: encode_index_def be64_of_be64)

lemma encode_index_less: "encode_index v < encode_index w \<longleftrightarrow> sint v < sint w"
  by (simp add: encode_index_def be64_less_iff word_less_def)

text \<open>The byte order of the encoded indices is the order of the integers they stand for.\<close>

interpretation list_index: order_codec "\<lambda>i. encode_index (word_of_int i)"
  "\<lambda>bs. if length bs = 8 then Some (sint (of_be64 bs XOR sign_bit)) else None"
  "\<lambda>i. - (2 ^ 63) \<le> i \<and> i < (2 ^ 63 :: int)"
proof
  fix i :: int
  assume "- (2 ^ 63) \<le> i \<and> i < 2 ^ 63"
  then show "(if length (encode_index (word_of_int i)) = 8
      then Some (sint (of_be64 (encode_index (word_of_int i)) XOR sign_bit)) else None) = Some i"
    by (simp add: encode_index_def sint_word_of_int_i64)
next
  fix i j :: int
  assume "- (2 ^ 63) \<le> i \<and> i < 2 ^ 63" and "- (2 ^ 63) \<le> j \<and> j < 2 ^ 63" and "i < j"
  then show "encode_index (word_of_int i) < encode_index (word_of_int j)"
    by (simp add: encode_index_less sint_word_of_int_i64)
qed

section \<open>The list a key represents\<close>

text \<open>The subkeys of a list whose head has index \<open>h\<close>.\<close>

definition index_map :: "int \<Rightarrow> bytes list \<Rightarrow> (bytes \<rightharpoonup> bytes)" where
  "index_map h xs sub = (case decode_index sub of
      Inl _ \<Rightarrow> None
    | Inr w \<Rightarrow> if length sub = 8 \<and> h \<le> sint w \<and> sint w < h + int (length xs) then Some (xs ! nat (sint w - h)) else None)"

definition list_inv :: "(string \<Rightarrow> bytes \<rightharpoonup> bytes) \<Rightarrow> bytes \<Rightarrow> bytes \<Rightarrow> metadata \<Rightarrow> int \<Rightarrow> bytes list \<Rightarrow> bool" where
  "list_inv m ns k md h xs \<longleftrightarrow> m_size md = of_nat (length xs) \<and> length xs < 2 ^ 63
     \<and> - (2 ^ 63) < h \<and> h + int (length xs) < 2 ^ 63 \<and> sint (m_head md) = h \<and> sint (m_tail md) = h + int (length xs) - 1
     \<and> subkeys_of m CF_SUBKEY ns k (m_version md) = index_map h xs"

definition list_rep :: "(string \<Rightarrow> bytes \<rightharpoonup> bytes) \<Rightarrow> bytes \<Rightarrow> bytes \<Rightarrow> i64 \<Rightarrow> int \<Rightarrow> bytes list \<Rightarrow> bool" where
  "list_rep m ns k e h xs = typed_rep DT_List m ns k e (\<lambda>r. case r of
      None \<Rightarrow> h = 0 \<and> xs = []
    | Some md \<Rightarrow> list_inv m ns k md h xs)"

lemma index_map_encode [simp]:
  "index_map h xs (encode_index w) =
   (if h \<le> sint w \<and> sint w < h + int (length xs) then Some (xs ! nat (sint w - h)) else None)"
  by (simp add: index_map_def)

lemma index_map_other: "length sub \<noteq> 8 \<Longrightarrow> index_map h xs sub = None"
  by (simp add: index_map_def split: sum.split)

lemma index_map_Nil [simp]: "index_map h [] = Map.empty"
  by (rule ext) (auto simp: index_map_def split: sum.split)

lemma index_map_eqI:
  assumes "\<And>w. f (encode_index w) = index_map h xs (encode_index w)" and "\<And>sub. length sub \<noteq> 8 \<Longrightarrow> f sub = None"
  shows "f = index_map h xs"
proof
  fix sub
  show "f sub = index_map h xs sub"
    using assms encode_index_surj [of sub] by (cases "length sub = 8") (auto simp: index_map_other)
qed

lemma index_map_Cons:
  assumes "sint w = h - 1"
  shows "(index_map h xs)(encode_index w \<mapsto> x) = index_map (h - 1) (x # xs)"
proof (rule index_map_eqI)
  fix v
  show "((index_map h xs)(encode_index w \<mapsto> x)) (encode_index v) = index_map (h - 1) (x # xs) (encode_index v)"
    using assms i64_eq_iff [of v w] by (auto simp: nth_Cons' intro!: arg_cong [where f = "\<lambda>n. xs ! n"])
qed (use assms in \<open>auto simp: index_map_other\<close>)

lemma index_map_snoc:
  assumes "sint w = h + int (length xs)"
  shows "(index_map h xs)(encode_index w \<mapsto> x) = index_map h (xs @ [x])"
proof (rule index_map_eqI)
  fix v
  show "((index_map h xs)(encode_index w \<mapsto> x)) (encode_index v) = index_map h (xs @ [x]) (encode_index v)"
    using assms i64_eq_iff [of v w] by (auto simp: nth_append)
qed (use assms in \<open>auto simp: index_map_other\<close>)

lemma index_map_tl:
  assumes "xs \<noteq> []" and "sint w = h"
  shows "(index_map h xs)(encode_index w := None) = index_map (h + 1) (tl xs)"
proof (rule index_map_eqI)
  fix v
  show "((index_map h xs)(encode_index w := None)) (encode_index v) = index_map (h + 1) (tl xs) (encode_index v)"
    using assms i64_eq_iff [of v w]
    by (auto simp: nth_tl Suc_nat_eq_nat_zadd1 intro!: arg_cong [where f = "\<lambda>n. xs ! n"])
qed (use assms in \<open>auto simp: index_map_other\<close>)

lemma index_map_butlast:
  assumes "xs \<noteq> []" and "sint w = h + int (length xs) - 1"
  shows "(index_map h xs)(encode_index w := None) = index_map h (butlast xs)"
proof (rule index_map_eqI)
  fix v
  show "((index_map h xs)(encode_index w := None)) (encode_index v) = index_map h (butlast xs) (encode_index v)"
    using assms i64_eq_iff [of v w] by (auto simp: nth_butlast)
qed (use assms in \<open>auto simp: index_map_other\<close>)

text \<open>The fields of the metadata that the list operations leave alone.\<close>

definition same_object :: "metadata \<Rightarrow> metadata \<Rightarrow> bool" where
  "same_object md md' \<longleftrightarrow> m_flags md' = m_flags md \<and> m_expire md' = m_expire md \<and> m_version md' = m_version md"

lemma same_object_wf:
  "same_object md md' \<Longrightarrow> metadata_data_type md = Some DT_List \<Longrightarrow> meta_wf md' \<and> metadata_data_type md' = Some DT_List"
  by (simp add: same_object_def meta_wf_def metadata_data_type_def)

text \<open>What pushing the elements \<open>ys\<close> one by one makes of the list and of the index of its head.\<close>

definition pushed :: "bool \<Rightarrow> bytes list \<Rightarrow> bytes list \<Rightarrow> bytes list" where
  "pushed left ys xs = (if left then rev ys @ xs else xs @ ys)"

definition pushed_head :: "bool \<Rightarrow> bytes list \<Rightarrow> int \<Rightarrow> int" where
  "pushed_head left ys h = (if left then h - int (length ys) else h)"

text \<open>The indices of the new elements are in range.\<close>

definition push_room :: "bool \<Rightarrow> bytes list \<Rightarrow> int \<Rightarrow> bytes list \<Rightarrow> bool" where
  "push_room left ys h xs \<longleftrightarrow> length xs + length ys < 2 ^ 63 \<and>
     (if left then - (2 ^ 63) < h - int (length ys) else h + int (length xs + length ys) < 2 ^ 63)"

lemma length_pushed [simp]: "length (pushed left ys xs) = length xs + length ys"
  by (simp add: pushed_def)

lemma pushed_Cons: "pushed left (y # ys) xs = pushed left ys (pushed left [y] xs)"
  by (simp add: pushed_def)

lemma pushed_head_Cons: "pushed_head left (y # ys) h = pushed_head left ys (pushed_head left [y] h)"
  by (simp add: pushed_head_def)

context command_env
begin

lemma push_step_inv:
  fixes s :: "('db, 'x) world_scheme"
  assumes "list_inv (fold apply_op ops m) (namespace ctx) k md h xs" and "push_room left [x] h xs"
  obtains md' op where "push_step R ctx k left x (md, ops) s = (Inr (md', ops @ [op]), s)"
    and "list_inv (fold apply_op (ops @ [op]) m) (namespace ctx) k md' (pushed_head left [x] h) (pushed left [x] xs)"
    and "same_object md md'" and "op_of (namespace ctx) k op" and "op_cf op = CF_SUBKEY"
proof (cases left)
  case True
  let ?md = "md\<lparr>m_head := m_head md - 1, m_size := m_size md + 1\<rparr>"
  let ?op = "Put CF_SUBKEY (subkey k (m_version md) (encode_index (m_head md - 1)) (namespace ctx)) x"
  have h: "sint (m_head md - 1) = h - 1"
    using assms True by (subst sint_sub_1) (auto simp: list_inv_def push_room_def)
  show ?thesis
  proof (rule that [of ?md ?op])
    show "push_step R ctx k left x (md, ops) s = (Inr (?md, ops @ [?op]), s)"
      using True by (simp add: push_step_def kv_run sub_key_def)
    show "list_inv (fold apply_op (ops @ [?op]) m) (namespace ctx) k ?md (pushed_head left [x] h) (pushed left [x] xs)"
      using assms True h index_map_Cons [OF h, of xs x]
      by (auto simp: list_inv_def pushed_head_def pushed_def push_room_def simp del: apply_op.simps)
  qed (simp_all add: same_object_def)
next
  case False
  let ?md = "md\<lparr>m_tail := m_tail md + 1, m_size := m_size md + 1\<rparr>"
  let ?op = "Put CF_SUBKEY (subkey k (m_version md) (encode_index (m_tail md + 1)) (namespace ctx)) x"
  have t: "sint (m_tail md + 1) = h + int (length xs)"
    using assms False by (subst sint_add_1) (auto simp: list_inv_def push_room_def)
  show ?thesis
  proof (rule that [of ?md ?op])
    show "push_step R ctx k left x (md, ops) s = (Inr (?md, ops @ [?op]), s)"
      using False by (simp add: push_step_def kv_run sub_key_def)
    show "list_inv (fold apply_op (ops @ [?op]) m) (namespace ctx) k ?md (pushed_head left [x] h) (pushed left [x] xs)"
      using assms False t index_map_snoc [OF t, of x]
      by (auto simp: list_inv_def pushed_head_def pushed_def push_room_def simp del: apply_op.simps)
  qed (simp_all add: same_object_def)
qed

lemma push_loop:
  fixes s :: "('db, 'x) world_scheme"
  assumes "list_inv (fold apply_op ops m) (namespace ctx) k md h xs" and "push_room left ys h xs"
  shows "\<exists>md' new. for_loop (push_step R ctx k left) ys (md, ops) s = (Inr (md', ops @ new), s)
    \<and> list_inv (fold apply_op (ops @ new) m) (namespace ctx) k md' (pushed_head left ys h) (pushed left ys xs)
    \<and> same_object md md' \<and> (\<forall>op \<in> set new. op_of (namespace ctx) k op \<and> op_cf op = CF_SUBKEY)"
  using assms
proof (induction ys arbitrary: md ops h xs)
  case Nil
  then show ?case
    by (intro exI [of _ md] exI [of _ "[]"]) (simp add: pushed_def pushed_head_def same_object_def)
next
  case (Cons y ys)
  have room: "push_room left [y] h xs" "push_room left ys (pushed_head left [y] h) (pushed left [y] xs)"
    using Cons.prems(2) by (auto simp: push_room_def pushed_head_def split: if_splits)
  obtain md1 op where step: "push_step R ctx k left y (md, ops) s = (Inr (md1, ops @ [op]), s)"
    and inv: "list_inv (fold apply_op (ops @ [op]) m) (namespace ctx) k md1 (pushed_head left [y] h) (pushed left [y] xs)"
    and op: "same_object md md1" "op_of (namespace ctx) k op" "op_cf op = CF_SUBKEY"
    by (rule push_step_inv [OF Cons.prems(1) room(1)])
  from Cons.IH [OF inv room(2)] obtain md2 new where
    loop: "for_loop (push_step R ctx k left) ys (md1, ops @ [op]) s = (Inr (md2, (ops @ [op]) @ new), s)"
    and rest: "list_inv (fold apply_op ((ops @ [op]) @ new) m) (namespace ctx) k md2
        (pushed_head left ys (pushed_head left [y] h)) (pushed left ys (pushed left [y] xs))"
      "same_object md1 md2" "\<forall>op \<in> set new. op_of (namespace ctx) k op \<and> op_cf op = CF_SUBKEY" by blast
  show ?case
    unfolding pushed_Cons [of left y ys] pushed_head_Cons [of left y ys]
    using rest op loop for_loop_step [where f = "push_step R ctx k left", OF step, of ys]
    by (intro exI [of _ md2] exI [of _ "op # new"]) (auto simp: same_object_def)
qed

end

section \<open>Pushing\<close>

sublocale command_env \<subseteq> list_reader: typed_reader R view ctx "load_list_meta R ctx" DT_List "''invalid list metadata''"
proof
  fix k and s :: "('db, 'x) world_scheme"
  show "fst (load_list_meta R ctx k s) = typed_meta DT_List ''invalid list metadata'' (meta_of s k) (clock s 0)"
    by (simp add: load_list_meta_def kv_run typed_meta_def split: option.split)
  show "same_world s (snd (load_list_meta R ctx k s))"
    by (simp add: load_list_meta_def kv_run split: option.split)
qed

text \<open>The list and the index of its head at a time: an expired list is empty and starts at index 0.\<close>

lemma list_rep_cases:
  assumes "list_rep m ns k e h xs"
  obtains (gone) "typed_meta DT_List msg (lookup_meta m ns k) now = Inr None" "unexpired e now [] xs = []"
      "unexpired e now 0 h = 0" "unexpired e now 0 e = 0" "lookup_meta m ns k = None \<or> expired_at e now"
  | (live) md where "typed_meta DT_List msg (lookup_meta m ns k) now = Inr (Some md)"
      "unexpired e now [] xs = xs" "unexpired e now 0 h = h" "unexpired e now 0 e = e"
      "metadata_data_type md = Some DT_List" "m_expire md = e" "list_inv m ns k md h xs"
proof -
  have dt: "DT_List \<noteq> DT_String" by simp
  from assms [unfolded list_rep_def] dt show ?thesis
  proof (cases rule: typed_rep_cases [where msg = msg and now = now])
    case gone
    then show ?thesis
      by (intro that(1)) (auto simp: unexpired_def)
  next
    case (live md)
    then show ?thesis by (intro that(2) [of md]) (auto simp: unexpired_def)
  qed
qed

lemma list_rep_write:
  assumes "ns_wf ns" and "key_wf k" and "\<forall>op \<in> set ops. op_cf op \<noteq> CF_METADATA"
    and "list_inv (fold apply_op ops m) ns k md h xs" and "metadata_data_type md = Some DT_List"
  shows "list_rep (fold apply_op (ops @ [Put CF_METADATA (metadata_key k ns) (encode_metadata md)]) m) ns k (m_expire md) h xs"
  unfolding list_rep_def
  by (rule typed_rep_write [OF assms(1-3)])
    (use assms(4,5) in \<open>auto simp: meta_wf_def list_inv_def subkeys_of_put_meta simp del: fold_append\<close>)

context command_env
begin

lemma push_target:
  fixes s :: "('db, 'x) world_scheme"
  assumes "list_rep (view (db s)) (namespace ctx) k e h xs"
    and "lookup_meta (view (db s)) (namespace ctx) k = None \<or> expired_at e (clock s 0) \<longrightarrow>
      fresh_version (view (db s)) (namespace ctx) k (next_version (snd (load_list_meta R ctx k s)))"
  obtains md t where "push_meta R ctx k s = (Inr md, t)" and "db t = db s"
    and "metadata_data_type md = Some DT_List" and "m_expire md = unexpired e (clock s 0) 0 e"
    and "list_inv (view (db s)) (namespace ctx) k md (unexpired e (clock s 0) 0 h) (unexpired e (clock s 0) [] xs)"
  using assms(1)
proof (cases rule: list_rep_cases [where msg = "''invalid list metadata''" and now = "clock s 0"])
  case gone
  let ?t = "snd (load_list_meta R ctx k s)"
  have "subkeys_of (view (db s)) CF_SUBKEY (namespace ctx) k (next_version ?t) = Map.empty"
    using gone assms(2) by (simp add: fresh_version_def)
  with gone show ?thesis
    by (intro that [of "metadata_new DT_List (next_version ?t)"
          "?t\<lparr>clock := \<lambda>i. clock ?t (Suc i), rng := \<lambda>i. rng ?t (Suc i)\<rparr>"])
      (simp_all add: push_meta_def kv_run list_inv_def next_version_def)
next
  case (live md)
  then show ?thesis
    by (intro that [of md "snd (load_list_meta R ctx k s)"]) (simp_all add: push_meta_def kv_run)
qed

lemma push_rep:
  fixes s :: "('db, 'x) world_scheme"
  assumes "key_wf k" and "list_rep (view (db s)) (namespace ctx) k e h xs" and "ys \<noteq> []"
    and "lookup_meta (view (db s)) (namespace ctx) k = None \<or> expired_at e (clock s 0) \<longrightarrow>
      fresh_version (view (db s)) (namespace ctx) k (next_version (snd (load_list_meta R ctx k s)))"
    and "push_room left ys (unexpired e (clock s 0) 0 h) (unexpired e (clock s 0) [] xs)"
  shows "\<exists>t. push R left ctx (k # ys) s = (Inr (Integer (of_nat (length (unexpired e (clock s 0) [] xs) + length ys))), t)
    \<and> list_rep (view (db t)) (namespace ctx) k (unexpired e (clock s 0) 0 e)
        (pushed_head left ys (unexpired e (clock s 0) 0 h)) (pushed left ys (unexpired e (clock s 0) [] xs))
    \<and> lookup_meta (view (db t)) (namespace ctx) k \<noteq> None
    \<and> (\<forall>k' ns. key_wf k' \<and> ns_wf ns \<and> k' \<noteq> k \<longrightarrow> object_view (view (db t)) ns k' = object_view (view (db s)) ns k')"
proof -
  let ?ns = "namespace ctx"
  obtain md t where target: "push_meta R ctx k s = (Inr md, t)" and t: "db t = db s"
    and md: "metadata_data_type md = Some DT_List" "m_expire md = unexpired e (clock s 0) 0 e"
    and inv: "list_inv (view (db s)) ?ns k md (unexpired e (clock s 0) 0 h) (unexpired e (clock s 0) [] xs)"
    by (rule push_target [OF assms(2,4)])
  obtain md' new where loop: "for_loop (push_step R ctx k left) ys (md, []) t = (Inr (md', new), t)"
    and inv': "list_inv (fold apply_op new (view (db s))) ?ns k md'
        (pushed_head left ys (unexpired e (clock s 0) 0 h)) (pushed left ys (unexpired e (clock s 0) [] xs))"
    and same: "same_object md md'" and new: "\<forall>op \<in> set new. op_of ?ns k op \<and> op_cf op = CF_SUBKEY"
    using push_loop [of "[]" "view (db s)" k md "unexpired e (clock s 0) 0 h" "unexpired e (clock s 0) [] xs" left ys t]
      inv assms(5) by auto
  let ?ops = "new @ [Put CF_METADATA (metadata_key k ?ns) (encode_metadata md')]"
  have ops: "\<forall>op \<in> set ?ops. op_of ?ns k op" using new by auto
  then have cfs: "\<forall>op \<in> set ?ops. op_cf op \<in> set ALL_CFS" using op_of_cf by blast
  have args: "2 \<le> length (k # ys)" using assms(3) by (cases ys) auto
  have "push R left ctx (k # ys) s = (Inr (Integer (m_size md')), write_world R ?ops t)"
    using args unfolding push_def
    by (simp add: run_expect_min_arg_count and_then_Inr [where m = "push_meta R ctx k", OF target]
        and_then_Inr [where m = "for_loop (push_step R ctx k left) ys (md, [])", OF loop]
        run_batch_put run_write [OF cfs] meta_key_def)
  moreover have "m_size md' = of_nat (length (unexpired e (clock s 0) [] xs) + length ys)"
    using inv' by (simp add: list_inv_def)
  moreover have "m_expire md' = unexpired e (clock s 0) 0 e" using same md(2) by (simp add: same_object_def)
  then have "list_rep (fold apply_op ?ops (view (db s))) ?ns k (unexpired e (clock s 0) 0 e)
      (pushed_head left ys (unexpired e (clock s 0) 0 h)) (pushed left ys (unexpired e (clock s 0) [] xs))"
    using list_rep_write [OF namespace_wf assms(1) _ inv'] same_object_wf [OF same md(1)] new by force
  moreover have "lookup_meta (fold apply_op ?ops (view (db s))) ?ns k \<noteq> None"
    using new by (subst lookup_meta_write [OF namespace_wf assms(1,1)]) auto
  moreover have "object_view (fold apply_op ?ops (view (db s))) ns k' = object_view (view (db s)) ns k'"
    if "key_wf k'" "ns_wf ns" "k' \<noteq> k" for k' ns
    by (rule object_view_batch [OF ops namespace_wf assms(1) that])
  ultimately show ?thesis
    using t write_world_db(2) [OF cfs, of t] by (intro exI [of _ "write_world R ?ops t"]) simp
qed

end

section \<open>Popping\<close>

text \<open>The elements that popping \<open>n\<close> times delivers, what it leaves, and the index of the head then.\<close>

definition taken :: "bool \<Rightarrow> nat \<Rightarrow> bytes list \<Rightarrow> bytes list" where
  "taken left n xs = (if left then take n xs else take n (rev xs))"

definition left_over :: "bool \<Rightarrow> nat \<Rightarrow> bytes list \<Rightarrow> bytes list" where
  "left_over left n xs = (if left then drop n xs else rev (drop n (rev xs)))"

definition popped_head :: "bool \<Rightarrow> nat \<Rightarrow> int \<Rightarrow> int" where
  "popped_head left n h = (if left then h + int n else h)"

lemma length_left_over [simp]: "length (left_over left n xs) = length xs - n"
  by (simp add: left_over_def)

lemma taken_Suc: "n < length xs \<Longrightarrow> taken left (Suc n) xs = taken left (Suc 0) xs @ taken left n (left_over left (Suc 0) xs)"
  by (cases xs; cases "rev xs") (auto simp: taken_def left_over_def)

lemma left_over_Suc: "left_over left (Suc n) xs = left_over left n (left_over left (Suc 0) xs)"
  by (simp add: left_over_def)

lemma popped_head_Suc: "popped_head left (Suc n) h = popped_head left n (popped_head left (Suc 0) h)"
  by (simp add: popped_head_def)

lemma left_over_1: "left_over left (Suc 0) xs = (if left then tl xs else butlast xs)"
  by (simp add: left_over_def drop_Suc butlast_rev [of "rev xs", simplified])

lemma taken_1: "xs \<noteq> [] \<Longrightarrow> taken left (Suc 0) xs = [if left then hd xs else last xs]"
  by (cases xs rule: rev_cases) (auto simp: taken_def take_Suc hd_append Suc_le_eq)

lemma shrink_same [simp]: "same_object md (shrink left md)"
  by (simp add: shrink_def same_object_def)

lemma reset_same [simp]: "same_object md (reset_empty md)"
  by (simp add: reset_empty_def same_object_def)

lemma same_object_trans: "same_object a b \<Longrightarrow> same_object b c \<Longrightarrow> same_object a c"
  by (simp add: same_object_def)

lemma shrink_inv:
  assumes "list_inv m ns k md h xs" and "xs \<noteq> []"
  shows "list_inv (apply_op (Delete CF_SUBKEY (subkey k (m_version md) (encode_index (if left then m_head md else m_tail md)) ns)) m)
     ns k (shrink left md) (popped_head left (Suc 0) h) (left_over left (Suc 0) xs)"
proof (cases left)
  case True
  have "sint (m_head md + 1) = h + 1"
    using assms by (subst sint_add_1) (auto simp: list_inv_def)
  moreover have "(index_map h xs)(encode_index (m_head md) := None) = index_map (h + 1) (tl xs)"
    using assms by (intro index_map_tl) (auto simp: list_inv_def)
  ultimately show ?thesis
    using assms True by (cases xs) (auto simp: list_inv_def shrink_def popped_head_def left_over_1 simp del: apply_op.simps)
next
  case False
  have "1 \<le> int (length xs)" using assms(2) by (simp add: Suc_le_eq int_one_le_iff_zero_less)
  then have "sint (m_tail md - 1) = h + int (length xs) - 2"
    using assms by (subst sint_sub_1) (auto simp: list_inv_def)
  moreover have "(index_map h xs)(encode_index (m_tail md) := None) = index_map h (butlast xs)"
    using assms by (intro index_map_butlast) (auto simp: list_inv_def)
  ultimately show ?thesis
    using assms False by (cases xs rule: rev_cases) (auto simp: list_inv_def shrink_def popped_head_def left_over_1 simp del: apply_op.simps)
qed

lemma reset_inv:
  assumes "list_inv m ns k md h xs"
  shows "list_inv m ns k (reset_empty md) (if xs = [] then 0 else h) xs"
proof -
  have "unat (m_size md) = length xs" using assms by (simp add: list_inv_def unat_of_nat)
  then have "m_size md = 0 \<longleftrightarrow> xs = []" by (metis length_0_conv unat_eq_zero)
  with assms show ?thesis by (auto simp: list_inv_def reset_empty_def)
qed

lemma index_map_head:
  assumes "list_inv m ns k md h xs" and "xs \<noteq> []"
  shows "index_map h xs (encode_index (if left then m_head md else m_tail md)) = Some (if left then hd xs else last xs)"
  using assms by (auto simp: list_inv_def hd_conv_nth last_conv_nth nat_diff_distrib' intro!: arg_cong [where f = "\<lambda>n. xs ! n"])

context command_env
begin

lemma pop_step_run:
  fixes s :: "('db, 'x) world_scheme"
  assumes "list_inv (fold apply_op ops m) (namespace ctx) k md h xs" and "xs \<noteq> []"
    and "index_map h xs \<subseteq>\<^sub>m subkeys_of (view (db s)) CF_SUBKEY (namespace ctx) k (m_version md)"
  shows "pop_step R ctx k left i (md, result, ops) s = (Inr (shrink left md, result @ map bulk (taken left (Suc 0) xs),
      ops @ [Delete CF_SUBKEY (subkey k (m_version md) (encode_index (if left then m_head md else m_tail md)) (namespace ctx))]), s)"
proof -
  let ?i = "encode_index (if left then m_head md else m_tail md)"
  have "subkeys_of (view (db s)) CF_SUBKEY (namespace ctx) k (m_version md) ?i = Some (if left then hd xs else last xs)"
    using assms(3) index_map_head [OF assms(1,2), of left] unfolding map_le_def by (metis domI)
  then show ?thesis
    using assms(2) by (simp add: pop_step_def Let_def kv_run sub_key_def subkeys_of_def taken_1)
qed

lemma index_map_left_over:
  assumes "list_inv m ns k md h xs" and "xs \<noteq> []"
  shows "index_map (popped_head left (Suc 0) h) (left_over left (Suc 0) xs) \<subseteq>\<^sub>m index_map h xs"
proof (cases left)
  case True
  then have "index_map (popped_head left (Suc 0) h) (left_over left (Suc 0) xs) = (index_map h xs)(encode_index (m_head md) := None)"
    using assms by (subst index_map_tl) (auto simp: list_inv_def popped_head_def left_over_1)
  then show ?thesis by (simp add: map_le_def)
next
  case False
  then have "index_map (popped_head left (Suc 0) h) (left_over left (Suc 0) xs) = (index_map h xs)(encode_index (m_tail md) := None)"
    using assms by (subst index_map_butlast) (auto simp: list_inv_def popped_head_def left_over_1)
  then show ?thesis by (simp add: map_le_def)
qed

lemma pop_loop:
  fixes s :: "('db, 'x) world_scheme"
  assumes "list_inv (fold apply_op ops m) (namespace ctx) k md h xs" and "length is \<le> length xs"
    and "index_map h xs \<subseteq>\<^sub>m subkeys_of (view (db s)) CF_SUBKEY (namespace ctx) k (m_version md)"
  shows "\<exists>md' new. for_loop (pop_step R ctx k left) is (md, result, ops) s
      = (Inr (md', result @ map bulk (taken left (length is) xs), ops @ new), s)
    \<and> list_inv (fold apply_op (ops @ new) m) (namespace ctx) k md' (popped_head left (length is) h) (left_over left (length is) xs)
    \<and> same_object md md' \<and> (\<forall>op \<in> set new. op_of (namespace ctx) k op \<and> op_cf op = CF_SUBKEY)"
  using assms
proof (induction "is" arbitrary: md ops h xs result)
  case Nil
  then show ?case
    by (intro exI [of _ md] exI [of _ "[]"]) (simp add: taken_def left_over_def popped_head_def same_object_def)
next
  case (Cons i "is")
  have ne: "xs \<noteq> []" using Cons.prems(2) by auto
  let ?md = "shrink left md" and ?h = "popped_head left (Suc 0) h" and ?xs = "left_over left (Suc 0) xs"
  let ?op = "Delete CF_SUBKEY (subkey k (m_version md) (encode_index (if left then m_head md else m_tail md)) (namespace ctx))"
  note step = pop_step_run [OF Cons.prems(1) ne Cons.prems(3), of left i result]
  have inv: "list_inv (fold apply_op (ops @ [?op]) m) (namespace ctx) k ?md ?h ?xs"
    using shrink_inv [OF Cons.prems(1) ne, of left] by simp
  have ver: "m_version ?md = m_version md" by (simp add: shrink_def)
  have le: "index_map ?h ?xs \<subseteq>\<^sub>m subkeys_of (view (db s)) CF_SUBKEY (namespace ctx) k (m_version ?md)"
    unfolding ver using map_le_trans [OF index_map_left_over [OF Cons.prems(1) ne] Cons.prems(3)] .
  have "length is \<le> length ?xs" using Cons.prems(2) by simp
  from Cons.IH [OF inv this le, of "result @ map bulk (taken left (Suc 0) xs)"] obtain md' new where
    loop: "for_loop (pop_step R ctx k left) is (?md, result @ map bulk (taken left (Suc 0) xs), ops @ [?op]) s
      = (Inr (md', (result @ map bulk (taken left (Suc 0) xs)) @ map bulk (taken left (length is) ?xs), (ops @ [?op]) @ new), s)"
    and rest: "list_inv (fold apply_op ((ops @ [?op]) @ new) m) (namespace ctx) k md' (popped_head left (length is) ?h) (left_over left (length is) ?xs)"
      "same_object ?md md'" "\<forall>op \<in> set new. op_of (namespace ctx) k op \<and> op_cf op = CF_SUBKEY"
    by blast
  have "taken left (length (i # is)) xs = taken left (Suc 0) xs @ taken left (length is) ?xs"
    using Cons.prems(2) taken_Suc [of "length is" xs left] by simp
  then have eqs: "map bulk (taken left (length (i # is)) xs) = map bulk (taken left (Suc 0) xs) @ map bulk (taken left (length is) ?xs)"
      "left_over left (length (i # is)) xs = left_over left (length is) ?xs"
      "popped_head left (length (i # is)) h = popped_head left (length is) ?h"
    by (simp_all add: left_over_Suc [of left "length is"] popped_head_Suc [of left "length is"])
  have "for_loop (pop_step R ctx k left) (i # is) (md, result, ops) s
      = (Inr (md', result @ map bulk (taken left (length (i # is)) xs), ops @ ?op # new), s)"
    unfolding for_loop_step [where f = "pop_step R ctx k left", OF step, of "is"] loop eqs by simp
  moreover have "list_inv (fold apply_op (ops @ ?op # new) m) (namespace ctx) k md'
      (popped_head left (length (i # is)) h) (left_over left (length (i # is)) xs)"
    unfolding eqs using rest(1) by (simp only: append_assoc append_Cons append_Nil)
  moreover have "\<forall>op \<in> set (?op # new). op_of (namespace ctx) k op \<and> op_cf op = CF_SUBKEY" using rest(3) by simp
  ultimately show ?case using same_object_trans [OF shrink_same rest(2)] by blast
qed

end

text \<open>The index of the head after popping \<open>n\<close> times: an emptied list starts again at index 0.\<close>

definition rest_head :: "bool \<Rightarrow> nat \<Rightarrow> int \<Rightarrow> bytes list \<Rightarrow> int" where
  "rest_head left n h xs = (if xs = [] then h else if length xs \<le> n then 0 else popped_head left n h)"

lemma size_zero_iff: "list_inv m ns k md h xs \<Longrightarrow> m_size md = 0 \<longleftrightarrow> xs = []"
  by (auto simp: list_inv_def unat_of_nat dest: arg_cong [where f = unat])

lemma taken_min: "taken left (min n (length xs)) xs = taken left n xs"
  by (simp add: taken_def min_def)

lemma left_over_min: "left_over left (min n (length xs)) xs = left_over left n xs"
  by (simp add: left_over_def min_def)

context command_env
begin

text \<open>The batch of a pop, written: the object afterwards, and that no other one is touched.\<close>

lemma pop_write:
  fixes t :: "('db, 'x) world_scheme"
  assumes "key_wf k" and "list_inv (fold apply_op ops (view (db t))) (namespace ctx) k md' h' xs'"
    and "same_object md md'" and "metadata_data_type md = Some DT_List"
    and "\<forall>op \<in> set ops. op_of (namespace ctx) k op \<and> op_cf op = CF_SUBKEY"
  defines "ops' \<equiv> ops @ [Put CF_METADATA (metadata_key k (namespace ctx)) (encode_metadata (reset_empty md'))]"
  shows "\<forall>op \<in> set ops'. op_cf op \<in> set ALL_CFS"
    and "list_rep (view (db (write_world R ops' t))) (namespace ctx) k (m_expire md) (if xs' = [] then 0 else h') xs'"
    and "lookup_meta (view (db (write_world R ops' t))) (namespace ctx) k \<noteq> None"
    and "key_wf k' \<Longrightarrow> ns_wf ns \<Longrightarrow> k' \<noteq> k \<Longrightarrow>
      object_view (view (db (write_world R ops' t))) ns k' = object_view (view (db t)) ns k'"
proof -
  have ops: "\<forall>op \<in> set ops'. op_of (namespace ctx) k op" using assms(5) by (auto simp: ops'_def)
  then show cfs: "\<forall>op \<in> set ops'. op_cf op \<in> set ALL_CFS" using op_of_cf by blast
  have same: "same_object md (reset_empty md')" using assms(3) by (rule same_object_trans) simp
  have "list_rep (fold apply_op ops' (view (db t))) (namespace ctx) k (m_expire (reset_empty md')) (if xs' = [] then 0 else h') xs'"
    unfolding ops'_def
    by (rule list_rep_write [OF namespace_wf assms(1) _ reset_inv [OF assms(2)]])
      (use assms(5) same_object_wf [OF same assms(4)] in auto)
  then show "list_rep (view (db (write_world R ops' t))) (namespace ctx) k (m_expire md) (if xs' = [] then 0 else h') xs'"
    using same write_world_db(2) [OF cfs, of t] by (simp add: same_object_def)
  have "lookup_meta (fold apply_op ops' (view (db t))) (namespace ctx) k \<noteq> None"
    unfolding ops'_def using assms(5) by (subst lookup_meta_write [OF namespace_wf assms(1,1)]) auto
  then show "lookup_meta (view (db (write_world R ops' t))) (namespace ctx) k \<noteq> None"
    using write_world_db(2) [OF cfs, of t] by simp
  show "object_view (view (db (write_world R ops' t))) ns k' = object_view (view (db t)) ns k'"
    if "key_wf k'" "ns_wf ns" "k' \<noteq> k"
    using object_view_batch [OF ops namespace_wf assms(1) that] write_world_db(2) [OF cfs, of t] by simp
qed

lemma pop_many_rep:
  fixes s :: "('db, 'x) world_scheme"
  assumes "key_wf k" and "list_rep (view (db s)) (namespace ctx) k e h xs" and "\<not> expired_at e (clock s 0)"
  shows "\<exists>t. pop_many R ctx k n left s = (Inr (Array (map bulk (taken left n xs))), t)
    \<and> list_rep (view (db t)) (namespace ctx) k e (if n = 0 then h else rest_head left n h xs) (left_over left n xs)
    \<and> (lookup_meta (view (db s)) (namespace ctx) k \<noteq> None \<longrightarrow> lookup_meta (view (db t)) (namespace ctx) k \<noteq> None)
    \<and> (\<forall>k' ns. key_wf k' \<and> ns_wf ns \<and> k' \<noteq> k \<longrightarrow> object_view (view (db t)) ns k' = object_view (view (db s)) ns k')"
proof (cases "n = 0")
  case True
  with assms(2) show ?thesis
    by (intro exI [of _ s]) (simp add: pop_many_def taken_def left_over_def)
next
  case False
  from assms(2) show ?thesis
  proof (cases rule: list_rep_cases [where msg = "''invalid list metadata''" and now = "clock s 0"])
    case gone
    then have "xs = []" using assms(3) by (simp add: unexpired_def)
    with gone False assms(2) show ?thesis
      by (intro exI [of _ "snd (load_list_meta R ctx k s)"])
        (simp add: pop_many_def kv_run taken_def left_over_def rest_head_def)
  next
    case (live md)
    let ?t = "snd (load_list_meta R ctx k s)"
    note inv = live(7)
    show ?thesis
    proof (cases "xs = []")
      case True
      with live(1) inv False assms(2) show ?thesis
        by (intro exI [of _ ?t])
          (simp add: pop_many_def kv_run taken_def left_over_def rest_head_def size_zero_iff [OF inv])
    next
      case ne: False
      let ?n = "min n (length xs)"
      have size: "unat (m_size md) = length xs" "m_size md \<noteq> 0"
        using inv ne size_zero_iff [OF inv] by (auto simp: list_inv_def unat_of_nat)
      obtain md' new where loop: "for_loop (pop_step R ctx k left) [0..<?n] (md, [], []) ?t
            = (Inr (md', map bulk (taken left n xs), new), ?t)"
        and inv': "list_inv (fold apply_op new (view (db ?t))) (namespace ctx) k md' (popped_head left ?n h) (left_over left n xs)"
        and same: "same_object md md'" and new: "\<forall>op \<in> set new. op_of (namespace ctx) k op \<and> op_cf op = CF_SUBKEY"
        using pop_loop [of "[]" "view (db ?t)" k md h xs "[0..<?n]" ?t left "[]"] inv
        by (auto simp: list_inv_def taken_min left_over_min)
      note written = pop_write [OF assms(1) inv' same live(5) new]
      let ?ops = "new @ [Put CF_METADATA (metadata_key k (namespace ctx)) (encode_metadata (reset_empty md'))]"
      have "pop_many R ctx k n left s = (Inr (Array (map bulk (taken left n xs))), write_world R ?ops ?t)"
        using live(1) False size unfolding pop_many_def
        by (simp add: list_reader.run_reader and_then_Inr [where m = "for_loop (pop_step R ctx k left) [0..<?n] (md, [], [])", OF loop]
            run_batch_put run_write [OF written(1)] meta_key_def)
      moreover have "(if left_over left n xs = [] then 0 else popped_head left ?n h) = rest_head left n h xs"
        using ne length_left_over [of left n xs] by (auto simp: rest_head_def min_def simp del: length_left_over)
      ultimately show ?thesis using written(2-4) live(6) False by (intro exI [of _ "write_world R ?ops ?t"]) auto
    qed
  qed
qed

lemma pop_one_rep:
  fixes s :: "('db, 'x) world_scheme"
  assumes "key_wf k" and "list_rep (view (db s)) (namespace ctx) k e h xs" and "\<not> expired_at e (clock s 0)"
  shows "\<exists>t. pop_one R ctx k left s =
      (Inr (BulkString (if xs = [] then None else Some (if left then hd xs else last xs))), t)
    \<and> list_rep (view (db t)) (namespace ctx) k e (rest_head left 1 h xs) (left_over left 1 xs)
    \<and> (\<forall>k' ns. key_wf k' \<and> ns_wf ns \<and> k' \<noteq> k \<longrightarrow> object_view (view (db t)) ns k' = object_view (view (db s)) ns k')"
  using assms(2)
proof (cases rule: list_rep_cases [where msg = "''invalid list metadata''" and now = "clock s 0"])
  case gone
  then have "xs = []" using assms(3) by (simp add: unexpired_def)
  with gone assms(2) show ?thesis
    by (intro exI [of _ "snd (load_list_meta R ctx k s)"]) (simp add: pop_one_def kv_run left_over_def rest_head_def)
next
  case (live md)
  let ?t = "snd (load_list_meta R ctx k s)"
  note inv = live(7)
  show ?thesis
  proof (cases "xs = []")
    case True
    with live(1) inv assms(2) show ?thesis
      by (intro exI [of _ ?t]) (simp add: pop_one_def kv_run left_over_def rest_head_def size_zero_iff [OF inv])
  next
    case False
    let ?i = "if left then m_head md else m_tail md"
    let ?del = "Delete CF_SUBKEY (subkey k (m_version md) (encode_index ?i) (namespace ctx))"
    have val: "view (db s) CF_SUBKEY (subkey k (m_version md) (encode_index ?i) (namespace ctx)) = Some (if left then hd xs else last xs)"
      using index_map_head [OF inv False, of left] inv by (simp add: list_inv_def subkeys_of_def fun_eq_iff)
    have inv': "list_inv (fold apply_op [?del] (view (db ?t))) (namespace ctx) k (shrink left md) (popped_head left (Suc 0) h) (left_over left (Suc 0) xs)"
      using shrink_inv [OF inv False, of left] by simp
    note written = pop_write [OF assms(1) inv' shrink_same live(5)]
    let ?ops = "[?del] @ [Put CF_METADATA (metadata_key k (namespace ctx)) (encode_metadata (reset_empty (shrink left md)))]"
    have cfs: "\<forall>op \<in> set ?ops. op_cf op \<in> set ALL_CFS" by simp
    have "pop_one R ctx k left s = (Inr (BulkString (Some (if left then hd xs else last xs))), write_world R ?ops ?t)"
      using live(1) size_zero_iff [OF inv] False val unfolding pop_one_def Let_def
      by (simp add: list_reader.run_reader run_get run_batch_delete run_batch_put run_write meta_key_def sub_key_def)
    moreover have "(if left_over left (Suc 0) xs = [] then 0 else popped_head left (Suc 0) h) = rest_head left 1 h xs"
      using False length_left_over [of left "Suc 0" xs] by (auto simp: rest_head_def simp del: length_left_over)
    ultimately show ?thesis using written(2,4) live(6) False by (intro exI [of _ "write_world R ?ops ?t"]) auto
  qed
qed

end

section \<open>Reading\<close>

text \<open>The element at a position, a negative one counting from the end.\<close>

definition list_at :: "int \<Rightarrow> 'a list \<Rightarrow> 'a option" where
  "list_at i xs = (let j = if i < 0 then i + int (length xs) else i in
     if 0 \<le> j \<and> j < int (length xs) then Some (xs ! nat j) else None)"

lemma lrange_bounds:
  assumes "n < 2 ^ 63" and "0 < n"
    and s_def: "s = max 0 (if sint start < 0 then sint start + int n else sint start)"
    and e_def: "e = min (int n - 1) (if sint stop < 0 then sint stop + int n else sint stop)"
  shows "if e < s then lrange_bounds (of_nat n) start stop = None
    else \<exists>a b. lrange_bounds (of_nat n) start stop = Some (a, b) \<and> sint a = s \<and> sint b = e"
proof -
  have n: "sint (of_nat n :: i64) = int n" using assms(1) by (rule sint_of_nat_i64)
  have shift: "sint (w + of_nat n) = sint w + int n" if "sint w < 0" for w :: i64
    using that assms(1) sint_u64_range [of w] n sint_add_range [of w "of_nat n"] by simp
  have pred: "sint (of_nat n - 1 :: i64) = int n - 1"
    using assms(1,2) n by (subst sint_sub_1) auto
  show ?thesis
    unfolding s_def e_def lrange_bounds_def Let_def word_sless_alt word_sle_eq
    using shift [of start] shift [of stop] pred n by (auto simp: max_def min_def)
qed

lemma entries_index_map:
  assumes "- (2 ^ 63) \<le> h" and "h + int (length xs) \<le> 2 ^ 63"
  shows "entries (index_map h xs) = map (\<lambda>i. (encode_index (word_of_int (h + int i)), xs ! i)) [0..<length xs]"
proof -
  let ?is = "map (\<lambda>i. h + int i) [0..<length xs]"
  have wf: "\<forall>i \<in> set ?is. - (2 ^ 63) \<le> i \<and> i < 2 ^ 63" using assms by auto
  have idx: "index_map h xs (encode_index (word_of_int (h + int i))) = Some (xs ! i)" if "i < length xs" for i
    using that assms sint_word_of_int_i64 [of "h + int i"] by (simp del: of_int_add)
  have "dom (index_map h xs) = (\<lambda>i. encode_index (word_of_int (h + int i))) ` {0..<length xs}"
  proof (intro equalityI subsetI)
    fix sub
    assume "sub \<in> dom (index_map h xs)"
    then obtain w where w: "sub = encode_index w" "h \<le> sint w" "sint w < h + int (length xs)"
      using index_map_other encode_index_surj by (metis domIff index_map_encode)
    then have "sub = encode_index (word_of_int (h + int (nat (sint w - h))))" by simp
    moreover have "nat (sint w - h) \<in> {0..<length xs}" using w by simp
    ultimately show "sub \<in> (\<lambda>i. encode_index (word_of_int (h + int i))) ` {0..<length xs}" by (rule image_eqI)
  next
    fix sub
    assume "sub \<in> (\<lambda>i. encode_index (word_of_int (h + int i))) ` {0..<length xs}"
    then obtain i where "i < length xs" "sub = encode_index (word_of_int (h + int i))" by fastforce
    with idx show "sub \<in> dom (index_map h xs)" by blast
  qed
  then have "dom (index_map h xs) = set (map (\<lambda>i. encode_index (word_of_int i)) ?is)"
    by (simp only: set_map image_image set_upt)
  moreover have "sorted_wrt (<) (map (\<lambda>i. encode_index (word_of_int i)) ?is)"
    using list_index.sorted_map_enc [OF _ wf, of "[]"] by (simp add: sorted_wrt_map)
  ultimately have "sorted_list_of_set (dom (index_map h xs)) = map (\<lambda>i. encode_index (word_of_int i)) ?is"
    using sorted_list_of_set.idem_if_sorted_distinct [of "map (\<lambda>i. encode_index (word_of_int i)) ?is"]
    by (simp only: strict_sorted_iff)
  then show ?thesis using idx by (simp add: entries_def comp_def del: of_int_add index_map_encode)
qed

lemma index_at: "- (2 ^ 63) \<le> h \<Longrightarrow> h + int i < 2 ^ 63 \<Longrightarrow> sint (word_of_int (h + int i) :: i64) = h + int i"
  by (rule sint_word_of_int_i64) auto

context command_env
begin

lemma lrange_item_run:
  fixes s :: "('db, 'x) world_scheme"
  assumes "key_wf k"
  shows "lrange_item ctx a b count (subkey k ver (encode_index w) (namespace ctx), v) acc s =
    (Inr (if sint w < sint a then Continue acc
      else if sint b < sint w \<or> count \<le> Suc (length acc) \<and> sint w \<le> sint b then Break (Array (if sint b < sint w then acc else acc @ [bulk v]))
      else Continue (acc @ [bulk v])), s)"
  using parse_subkey_subkey [OF key_wf_length [OF assms] namespace_wf, of ver "encode_index w"]
  by (auto simp: lrange_item_def ctx_parse_subkey_def kv_run word_sless_alt Let_def)

lemma lrange_items:
  fixes t :: "('db, 'x) world_scheme"
  assumes "key_wf k" and "- (2 ^ 63) \<le> h" and "h + int (length xs) \<le> 2 ^ 63"
    and "sint a = h + int i" and "sint b = h + int j" and "i \<le> j" and "j < length xs"
  shows "for_each (lrange_item ctx a b (Suc j - i)) (map (\<lambda>i. (subkey k ver (encode_index (word_of_int (h + int i))) (namespace ctx), xs ! i)) [0..<length xs]) [] t
    = (Inr (Break (Array (map bulk (take (Suc j - i) (drop i xs))))), t)"
proof -
  let ?f = "\<lambda>i. (subkey k ver (encode_index (word_of_int (h + int i))) (namespace ctx), xs ! i)"
  let ?item = "lrange_item ctx a b (Suc j - i)"
  have run: "?item (?f n) acc t = (Inr (if n < i then Continue acc
      else if j < n \<or> Suc j - i \<le> Suc (length acc) \<and> n \<le> j then Break (Array (if j < n then acc else acc @ [bulk (xs ! n)]))
      else Continue (acc @ [bulk (xs ! n)])), t)" if "n < length xs" for n acc
    unfolding lrange_item_run [OF assms(1)]
    using that assms(3-5) index_at [OF assms(2), of n] by auto
  have skip: "for_each ?item (map ?f ns) [] t = (Inr (Continue []), t)" if "\<forall>n \<in> set ns. n < i" for ns
    using that by (induction ns) (use run assms(6,7) in \<open>simp_all add: and_then_def\<close>)
  have collect: "for_each ?item (map ?f [n..<length xs]) (map bulk (take (n - i) (drop i xs))) t
      = (Inr (Break (Array (map bulk (take (Suc j - i) (drop i xs))))), t)" if "i \<le> n" "n \<le> j" for n
    using that
  proof (induction "j - n" arbitrary: n)
    case 0
    then have n: "n = j" by simp
    have "map bulk (take (j - i) (drop i xs)) @ [bulk (xs ! j)] = map bulk (take (Suc j - i) (drop i xs))"
      using assms(6,7) by (simp add: Suc_diff_le take_Suc_conv_app_nth)
    then show ?case
      using assms(6,7) run [of j] Suc_diff_le [OF assms(6)] by (simp add: n upt_conv_Cons and_then_def min_def)
  next
    case (Suc d)
    then have n: "n < j" "n < length xs" using assms(7) by auto
    have "map bulk (take (n - i) (drop i xs)) @ [bulk (xs ! n)] = map bulk (take (Suc n - i) (drop i xs))"
      using Suc.prems n by (simp add: Suc_diff_le take_Suc_conv_app_nth)
    moreover have "for_each ?item (map ?f [Suc n..<length xs]) (map bulk (take (Suc n - i) (drop i xs))) t
      = (Inr (Break (Array (map bulk (take (Suc j - i) (drop i xs))))), t)"
      using Suc n by (intro Suc.hyps(1)) auto
    ultimately show ?case
      using n Suc.prems run [of n] by (simp add: upt_conv_Cons and_then_def min_def)
  qed
  have "[0..<length xs] = [0..<i] @ [i..<length xs]"
    using assms(6,7) upt_add_eq_append [of 0 i "length xs - i"] by simp
  moreover have first: "for_each ?item (map ?f [0..<i]) [] t = (Inr (Continue []), t)" by (rule skip) simp
  ultimately show ?thesis
    using collect [of i] assms(6)
    by (simp add: for_each_append and_then_Inr [where m = "for_each ?item (map ?f [0..<i]) []", OF first] del: of_int_add)
qed

lemma lrange_rep:
  fixes s :: "('db, 'x) world_scheme"
  assumes "key_wf k" and "list_rep (view (db s)) (namespace ctx) k e h xs"
    and "str_parse_i64 start = Some a" and "str_parse_i64 stop = Some b"
  shows "fst (lrange R ctx [k, start, stop] s) = Inr (Array (map bulk (list_range (sint a) (sint b) (unexpired e (clock s 0) [] xs))))"
  using assms(2)
proof (cases rule: list_rep_cases [where msg = "''invalid list metadata''" and now = "clock s 0"])
  case gone
  with assms(3,4) show ?thesis by (simp add: lrange_def kv_run parse_i64_def list_range_def Let_def)
next
  case (live md)
  note inv = live(7)
  let ?t = "snd (load_list_meta R ctx k s)"
  show ?thesis
  proof (cases "xs = []")
    case True
    with live(1,2) assms(3,4) show ?thesis
      by (simp add: lrange_def kv_run parse_i64_def list_range_def Let_def size_zero_iff [OF inv])
  next
    case False
    let ?s = "max 0 (if sint a < 0 then sint a + int (length xs) else sint a)"
      and ?e = "min (int (length xs) - 1) (if sint b < 0 then sint b + int (length xs) else sint b)"
    have size: "m_size md = of_nat (length xs)" "length xs < 2 ^ 63" "m_size md \<noteq> 0"
      using inv False size_zero_iff [OF inv] by (auto simp: list_inv_def)
    have bounds: "if ?e < ?s then lrange_bounds (m_size md) a b = None
        else \<exists>u v. lrange_bounds (m_size md) a b = Some (u, v) \<and> sint u = ?s \<and> sint v = ?e"
      unfolding size(1) using False size(2) by (intro lrange_bounds) auto
    show ?thesis
    proof (cases "?e < ?s")
      case True
      with bounds live(1,2) size(3) assms(3,4) show ?thesis
        by (simp add: lrange_def kv_run parse_i64_def list_range_def Let_def)
    next
      case ge: False
      with bounds obtain u v where uv: "lrange_bounds (m_size md) a b = Some (u, v)" "sint u = ?s" "sint v = ?e" by auto
      define i j where "i = nat ?s" and "j = nat ?e"
      have ij: "?s = int i" "?e = int j" "i \<le> j" "j < length xs"
        using ge False by (auto simp: i_def j_def)
      let ?p = "sub_key ctx k (m_version md) []" and ?item = "lrange_item ctx (m_head md + u) (m_head md + v) (unat (v - u + 1))"
      have head: "sint (m_head md) = h" "- (2 ^ 63) < h" "h + int (length xs) < 2 ^ 63" using inv by (auto simp: list_inv_def)
      have idx: "sint (m_head md + u) = h + int i" "sint (m_head md + v) = h + int j"
        using uv(2,3) ij head sint_add_range [of "m_head md" u] sint_add_range [of "m_head md" v] by simp_all
      have "sint (v - u) = int j - int i" using uv(2,3) ij size(2) by (subst sint_diff_range) auto
      then have "sint (v - u + 1) = int j - int i + 1" using ij size(2) by (subst sint_add_1) auto
      then have count: "unat (v - u + 1) = Suc j - i" using ij(3) by (subst unat_sint) auto
      have keep: "db (snd (?item x acc w)) = db ?t" if "db w = db ?t" for x acc and w :: "('db, 'x) world_scheme"
        using that by (simp add: lrange_item_def decode_index_def kv_run Let_def split: prod.split option.split)
      have "scan_pages (\<lambda>start. prefix_scan_page R CF_SUBKEY ?p start LIST_PAGE_SIZE) [] (for_each ?item) [] ?t
          = for_each ?item (scan_entries (view (db ?t) CF_SUBKEY) ?p) [] ?t"
        by (rule scan_all_pages) (simp_all add: sub_key_def keep with_capacity_ok_def LIST_PAGE_SIZE_def)
      also have "scan_entries (view (db ?t) CF_SUBKEY) ?p
          = map (\<lambda>i. (subkey k (m_version md) (encode_index (word_of_int (h + int i))) (namespace ctx), xs ! i)) [0..<length xs]"
        using inv head by (simp add: sub_key_def scan_subkeys list_inv_def entries_index_map)
      also have "for_each ?item \<dots> [] ?t = (Inr (Break (Array (map bulk (take (Suc j - i) (drop i xs))))), ?t)"
        unfolding count by (rule lrange_items [OF assms(1) _ _ idx]) (use head ij in auto)
      finally have scan: "scan_pages (\<lambda>start. prefix_scan_page R CF_SUBKEY ?p start LIST_PAGE_SIZE) [] (for_each ?item) [] ?t
          = (Inr (Break (Array (map bulk (take (Suc j - i) (drop i xs))))), ?t)" .
      have "take (Suc j - i) (drop i xs) = list_range (sint a) (sint b) xs"
        unfolding list_range_def Let_def ij(1,2) using nat_int [of "Suc j - i"] ij(3) by (simp add: of_nat_diff algebra_simps)
      then show ?thesis
        using live(1,2) size(3) assms(3,4) uv(1)
        by (simp add: lrange_def kv_run parse_i64_def and_then_Inr [where m = "scan_pages _ _ _ _", OF scan] del: of_nat_Suc)
    qed
  qed
qed

end

context command_env
begin

lemma lindex_rep:
  fixes s :: "('db, 'x) world_scheme"
  assumes "list_rep (view (db s)) (namespace ctx) k e h xs" and "str_parse_i64 i = Some a"
  shows "fst (lindex R ctx [k, i] s) = Inr (BulkString (list_at (sint a) (unexpired e (clock s 0) [] xs)))"
  using assms(1)
proof (cases rule: list_rep_cases [where msg = "''invalid list metadata''" and now = "clock s 0"])
  case gone
  with assms(2) show ?thesis by (simp add: lindex_def kv_run parse_i64_def list_at_def Let_def)
next
  case (live md)
  note inv = live(7)
  have size: "m_size md = of_nat (length xs)" "length xs < 2 ^ 63" "sint (m_size md) = int (length xs)"
    using inv sint_of_nat_i64 [of "length xs"] by (auto simp: list_inv_def)
  define j where "j = (if a <s 0 then a + m_size md else a)"
  have j: "sint j = (if sint a < 0 then sint a + int (length xs) else sint a)"
    using size sint_u64_range [of a] sint_add_range [of a "m_size md"] by (simp add: j_def word_sless_alt)
  have get: "view (db s) CF_SUBKEY (subkey k (m_version md) (encode_index (m_head md + j)) (namespace ctx)) = Some (xs ! nat (sint j))"
    if "0 \<le> sint j" "sint j < int (length xs)"
  proof -
    have "sint (m_head md + j) = h + sint j"
      using inv that sint_add_range [of "m_head md" j] by (simp add: list_inv_def)
    with inv that show ?thesis by (simp add: list_inv_def subkeys_of_def fun_eq_iff)
  qed
  show ?thesis
  proof (cases "xs = []")
    case True
    with live(1,2) assms(2) size_zero_iff [OF inv] show ?thesis
      by (simp add: lindex_def kv_run parse_i64_def list_at_def Let_def)
  next
    case False
    have "lindex R ctx [k, i] s = (if j <s 0 \<or> m_size md \<le>s j then (Inr (BulkString None), snd (load_list_meta R ctx k s))
        else (Inr (BulkString (view (db s) CF_SUBKEY (subkey k (m_version md) (encode_index (m_head md + j)) (namespace ctx)))), snd (load_list_meta R ctx k s)))"
      using live(1) assms(2) False size_zero_iff [OF inv]
      by (simp add: lindex_def kv_run parse_i64_def Let_def sub_key_def j_def [symmetric])
    moreover have "j <s 0 \<longleftrightarrow> sint j < 0" "m_size md \<le>s j \<longleftrightarrow> int (length xs) \<le> sint j"
      using size(3) by (simp_all add: word_sless_alt word_sle_eq)
    ultimately show ?thesis
      using get live(2) by (auto simp: list_at_def Let_def j [symmetric])
  qed
qed

lemma llen_rep:
  assumes "list_rep (view (db s)) (namespace ctx) k e h xs"
  shows "fst (llen R ctx [k] s) = Inr (Integer (of_nat (length (unexpired e (clock s 0) [] xs))))"
  using assms
  by (cases rule: list_rep_cases [where msg = "''invalid list metadata''" and now = "clock s 0"])
    (simp_all add: llen_def kv_run list_inv_def)

end

section \<open>Histories\<close>

text \<open>
  A sequence of pushes and pops on one key, and what it makes of a list: the replies and the list
  at the end.
\<close>

datatype list_op = Push bool "bytes list" | Pop bool nat

definition list_op_run :: "'db rocksdb \<Rightarrow> command_context \<Rightarrow> bytes \<Rightarrow> list_op \<Rightarrow> (('db, 'x) world_scheme, resp_value) kv" where
  "list_op_run R ctx k op = (case op of
      Push left ys \<Rightarrow> push R left ctx (k # ys)
    | Pop left n \<Rightarrow> pop R left ctx [k, dec_digits n])"

definition list_op_reply :: "list_op \<Rightarrow> bytes list \<Rightarrow> resp_value" where
  "list_op_reply op xs = (case op of
      Push left ys \<Rightarrow> Integer (of_nat (length xs + length ys))
    | Pop left n \<Rightarrow> Array (map bulk (taken left n xs)))"

definition list_op_next :: "list_op \<Rightarrow> bytes list \<Rightarrow> bytes list" where
  "list_op_next op xs = (case op of Push left ys \<Rightarrow> pushed left ys xs | Pop left n \<Rightarrow> left_over left n xs)"

definition list_op_size :: "list_op \<Rightarrow> nat" where
  "list_op_size op = (case op of Push left ys \<Rightarrow> length ys | Pop left n \<Rightarrow> 0)"

definition list_op_ok :: "list_op \<Rightarrow> bool" where
  "list_op_ok op = (case op of Push left ys \<Rightarrow> ys \<noteq> [] | Pop left n \<Rightarrow> n < 2 ^ 64)"

fun run_list_ops :: "'db rocksdb \<Rightarrow> command_context \<Rightarrow> bytes \<Rightarrow> list_op list
    \<Rightarrow> (('db, 'x) world_scheme, resp_value list) kv" where
  "run_list_ops R ctx k [] = ret []"
| "run_list_ops R ctx k (op # ops) = and_then (list_op_run R ctx k op) (\<lambda>r.
     and_then (run_list_ops R ctx k ops) (\<lambda>rs. ret (r # rs)))"

fun list_replies :: "list_op list \<Rightarrow> bytes list \<Rightarrow> resp_value list" where
  "list_replies [] xs = []"
| "list_replies (op # ops) xs = list_op_reply op xs # list_replies ops (list_op_next op xs)"

lemma str_parse_usize_digits: "n < 2 ^ 64 \<Longrightarrow> str_parse_usize (dec_digits n) = Some n"
  by (simp add: str_parse_usize_def)

context command_env
begin

lemma list_op_rep:
  fixes s :: "('db, 'x) world_scheme"
  assumes "key_wf k" and "list_rep (view (db s)) (namespace ctx) k 0 h xs"
    and "lookup_meta (view (db s)) (namespace ctx) k \<noteq> None"
    and "- int b \<le> h" and "h + int (length xs) \<le> int b" and "length xs \<le> b" and "b + list_op_size op < 2 ^ 62" and "list_op_ok op"
  shows "\<exists>h' t. list_op_run R ctx k op s = (Inr (list_op_reply op xs), t)
    \<and> list_rep (view (db t)) (namespace ctx) k 0 h' (list_op_next op xs)
    \<and> lookup_meta (view (db t)) (namespace ctx) k \<noteq> None
    \<and> - int (b + list_op_size op) \<le> h' \<and> h' + int (length (list_op_next op xs)) \<le> int (b + list_op_size op)
    \<and> length (list_op_next op xs) \<le> b + list_op_size op"
proof (cases op)
  case (Push left ys)
  have "push_room left ys (unexpired 0 (clock s 0) 0 h) (unexpired 0 (clock s 0) [] xs)"
    using assms(4-7) by (auto simp: push_room_def Push list_op_size_def)
  with push_rep [OF assms(1,2), of ys left] assms(3,8) obtain t where
    "push R left ctx (k # ys) s = (Inr (Integer (of_nat (length xs + length ys))), t)"
    "list_rep (view (db t)) (namespace ctx) k 0 (pushed_head left ys h) (pushed left ys xs)"
    "lookup_meta (view (db t)) (namespace ctx) k \<noteq> None"
    by (auto simp: Push list_op_ok_def)
  then show ?thesis
    using assms(4-7)
    by (intro exI [of _ "pushed_head left ys h"] exI [of _ t])
      (auto simp: Push list_op_run_def list_op_reply_def list_op_next_def list_op_size_def pushed_head_def)
next
  case (Pop left n)
  from pop_many_rep [OF assms(1,2), of n left] obtain t where
    run: "pop_many R ctx k n left s = (Inr (Array (map bulk (taken left n xs))), t)"
    and rep: "list_rep (view (db t)) (namespace ctx) k 0 (if n = 0 then h else rest_head left n h xs) (left_over left n xs)"
    and ex: "lookup_meta (view (db t)) (namespace ctx) k \<noteq> None"
    using assms(3) by auto
  have "pop R left ctx [k, dec_digits n] s = (Inr (Array (map bulk (taken left n xs))), t)"
    using assms(8) run by (simp add: pop_def parse_usize_def str_parse_usize_digits Pop list_op_ok_def)
  moreover have "- int b \<le> (if n = 0 then h else rest_head left n h xs)"
      "(if n = 0 then h else rest_head left n h xs) + int (length xs - n) \<le> int b"
    using assms(4-6) by (auto simp: rest_head_def popped_head_def)
  ultimately show ?thesis
    using rep ex assms(6)
    by (intro exI [of _ "if n = 0 then h else rest_head left n h xs"] exI [of _ t])
      (simp add: Pop list_op_run_def list_op_reply_def list_op_next_def list_op_size_def)
qed

lemma list_ops_rep:
  fixes s :: "('db, 'x) world_scheme"
  assumes "key_wf k" and "list_rep (view (db s)) (namespace ctx) k 0 h xs"
    and "lookup_meta (view (db s)) (namespace ctx) k \<noteq> None"
    and "- int b \<le> h" and "h + int (length xs) \<le> int b" and "length xs \<le> b"
    and "b + sum_list (map list_op_size ops) < 2 ^ 62" and "\<forall>op \<in> set ops. list_op_ok op"
  shows "\<exists>h' t. run_list_ops R ctx k ops s = (Inr (list_replies ops xs), t)
    \<and> list_rep (view (db t)) (namespace ctx) k 0 h' (fold list_op_next ops xs)"
  using assms(2-)
proof (induction ops arbitrary: s h xs b)
  case Nil
  then show ?case by auto
next
  case (Cons op ops)
  have "b + list_op_size op < 2 ^ 62" "list_op_ok op" using Cons.prems(6,7) by auto
  from list_op_rep [OF assms(1) Cons.prems(1-5) this] obtain h' t where
    run: "list_op_run R ctx k op s = (Inr (list_op_reply op xs), t)"
    and t: "list_rep (view (db t)) (namespace ctx) k 0 h' (list_op_next op xs)"
      "lookup_meta (view (db t)) (namespace ctx) k \<noteq> None" "- int (b + list_op_size op) \<le> h'"
      "h' + int (length (list_op_next op xs)) \<le> int (b + list_op_size op)"
      "length (list_op_next op xs) \<le> b + list_op_size op" by blast
  have "b + list_op_size op + sum_list (map list_op_size ops) < 2 ^ 62" "\<forall>op \<in> set ops. list_op_ok op"
    using Cons.prems(6,7) by auto
  from Cons.IH [OF t this] obtain h2 u where
    rest: "run_list_ops R ctx k ops t = (Inr (list_replies ops (list_op_next op xs)), u)"
    and rep: "list_rep (view (db u)) (namespace ctx) k 0 h2 (fold list_op_next ops (list_op_next op xs))" by blast
  have "run_list_ops R ctx k (op # ops) s = (Inr (list_replies (op # ops) xs), u)"
    by (simp add: and_then_Inr [where m = "list_op_run R ctx k op", OF run]
        and_then_Inr [where m = "run_list_ops R ctx k ops", OF rest])
  with rep show ?case by auto
qed

end

section \<open>Properties\<close>

text \<open>A store with the list \<open>a, b\<close>, its head at index -1.\<close>

definition sample_list :: mem where
  "sample_list =
    [((CF_METADATA, metadata_key (bytes_of ''l'') []),
      encode_metadata ((metadata_new DT_List 9)\<lparr>m_size := 2, m_head := -1, m_tail := 0\<rparr>)),
     ((CF_SUBKEY, subkey (bytes_of ''l'') 9 (encode_index (-1)) []), bytes_of ''a''),
     ((CF_SUBKEY, subkey (bytes_of ''l'') 9 (encode_index 0) []), bytes_of ''b'')]"

lemma sample_list_rep:
  "list_rep (mem_view sample_list) [] (bytes_of ''l'') 0 (- 1) [bytes_of ''a'', bytes_of ''b'']"
  "lookup_meta (mem_view sample_list) [] (bytes_of ''l'') \<noteq> None"
proof -
  let ?md = "(metadata_new DT_List 9)\<lparr>m_size := 2, m_head := -1, m_tail := 0\<rparr>"
  have meta: "lookup_meta (mem_view sample_list) [] (bytes_of ''l'') = Some (encode_metadata ?md)"
    by (simp add: lookup_meta_def mem_view_def sample_list_def)
  have subs: "subkeys_of (mem_view sample_list) CF_SUBKEY [] (bytes_of ''l'') 9 =
      [encode_index (-1) \<mapsto> bytes_of ''a'', encode_index 0 \<mapsto> bytes_of ''b'']"
    by (auto simp: subkeys_of_def mem_view_def sample_list_def)
  also have "\<dots> = index_map (-1) [bytes_of ''a'', bytes_of ''b'']"
  proof (rule index_map_eqI)
    fix w
    show "[encode_index (-1) \<mapsto> bytes_of ''a'', encode_index 0 \<mapsto> bytes_of ''b''] (encode_index w)
        = index_map (-1) [bytes_of ''a'', bytes_of ''b''] (encode_index w)"
      using i64_eq_iff [of w 0] i64_eq_iff [of w "-1"] by (auto simp: nth_Cons')
  qed auto
  finally have "list_inv (mem_view sample_list) [] (bytes_of ''l'') ?md (-1) [bytes_of ''a'', bytes_of ''b'']"
    by (simp add: list_inv_def)
  with meta show "list_rep (mem_view sample_list) [] (bytes_of ''l'') 0 (- 1) [bytes_of ''a'', bytes_of ''b'']"
    by (auto simp: list_rep_def typed_rep_def meta_wf_def metadata_data_type_def intro!: exI [of _ ?md])
  show "lookup_meta (mem_view sample_list) [] (bytes_of ''l'') \<noteq> None" using meta by simp
qed

text \<open>C21: LPUSH and RPUSH implement pushing to the ends of a list. For a key that represents the list
  \<open>xs\<close>, the reply is the new length; afterwards the key represents the list with the elements pushed
  one by one at the front (so in reverse order) or at the back, an expired list counting as empty,
  and every other key is as before. The indices of the new elements must fit in 64 bits, and a list
  that starts anew must get a version under which no subkeys are left.\<close>

theorem push_refines:
  fixes s :: "('db, 'x) world_scheme"
  assumes "command_env R view ctx" and "key_wf k" and "list_rep (view (db s)) (namespace ctx) k e h xs" and "ys \<noteq> []"
    and "lookup_meta (view (db s)) (namespace ctx) k = None \<or> expired_at e (clock s 0) \<longrightarrow>
      fresh_version (view (db s)) (namespace ctx) k (next_version (snd (load_list_meta R ctx k s)))"
    and "push_room left ys (unexpired e (clock s 0) 0 h) (unexpired e (clock s 0) [] xs)"
    and "s2 = snd ((if left then lpush R else rpush R) ctx (k # ys) s)"
  shows "fst ((if left then lpush R else rpush R) ctx (k # ys) s)
      = Inr (Integer (of_nat (length (unexpired e (clock s 0) [] xs) + length ys)))
    \<and> list_rep (view (db s2)) (namespace ctx) k (unexpired e (clock s 0) 0 e)
        (if left then unexpired e (clock s 0) 0 h - int (length ys) else unexpired e (clock s 0) 0 h)
        (if left then rev ys @ unexpired e (clock s 0) [] xs else unexpired e (clock s 0) [] xs @ ys)
    \<and> (\<forall>k' ns. key_wf k' \<and> ns_wf ns \<and> k' \<noteq> k \<longrightarrow> object_view (view (db s2)) ns k' = object_view (view (db s)) ns k')"
  using command_env.push_rep [OF assms(1-6)] assms(7)
  by (auto simp: lpush_def rpush_def pushed_def pushed_head_def split: if_splits)

theorem push_refines_witness:
  "fst (lpush mem_store (tenant_context []) [bytes_of ''l'', bytes_of ''x'', bytes_of ''y''] (mem_world sample_list))
     = Inr (Integer 4)
   \<and> list_rep (mem_view (db (snd (lpush mem_store (tenant_context []) [bytes_of ''l'', bytes_of ''x'', bytes_of ''y''] (mem_world sample_list)))))
       [] (bytes_of ''l'') 0 (- 3) [bytes_of ''y'', bytes_of ''x'', bytes_of ''a'', bytes_of ''b'']"
  using push_refines [OF mem_env.command_env_axioms [of "[]"], of "bytes_of ''l''" "mem_world sample_list" 0
      "- 1" "[bytes_of ''a'', bytes_of ''b'']" "[bytes_of ''x'', bytes_of ''y'']" True] sample_list_rep
  by (simp add: key_wf_def mem_world_def push_room_def)

text \<open>C22: LPOP and RPOP implement removing from the ends of a list. For a key that represents the
  list \<open>xs\<close> and has not expired, the form with a count replies the first elements (RPOP: the last
  ones, from the back) and leaves the others; the form without replies the one element, or nil for
  an empty list. The stored size and indices again describe the list that is left, and every other
  key is as before.\<close>

theorem pop_refines:
  fixes s :: "('db, 'x) world_scheme"
  assumes "command_env R view ctx" and "key_wf k" and "list_rep (view (db s)) (namespace ctx) k e h xs"
    and "\<not> expired_at e (clock s 0)" and "str_parse_usize count = Some n"
    and "s1 = snd ((if left then lpop R else rpop R) ctx [k] s)"
    and "s2 = snd ((if left then lpop R else rpop R) ctx [k, count] s)"
  shows "fst ((if left then lpop R else rpop R) ctx [k] s)
      = Inr (BulkString (if xs = [] then None else Some (if left then hd xs else last xs)))
    \<and> (\<exists>h'. list_rep (view (db s1)) (namespace ctx) k e h' (if left then tl xs else butlast xs))
    \<and> fst ((if left then lpop R else rpop R) ctx [k, count] s)
      = Inr (Array (map bulk (if left then take n xs else take n (rev xs))))
    \<and> (\<exists>h'. list_rep (view (db s2)) (namespace ctx) k e h' (if left then drop n xs else rev (drop n (rev xs))))
    \<and> (\<forall>k' ns. key_wf k' \<and> ns_wf ns \<and> k' \<noteq> k \<longrightarrow> object_view (view (db s1)) ns k' = object_view (view (db s)) ns k'
         \<and> object_view (view (db s2)) ns k' = object_view (view (db s)) ns k')"
proof -
  have one: "(if left then lpop R else rpop R) ctx [k] s = pop_one R ctx k left s"
    and many: "(if left then lpop R else rpop R) ctx [k, count] s = pop_many R ctx k n left s"
    using assms(5) by (auto simp: lpop_def rpop_def pop_def parse_usize_def)
  show ?thesis
    using command_env.pop_one_rep [OF assms(1-4), of left] command_env.pop_many_rep [OF assms(1-4), of n left]
      assms(6,7) unfolding one many by (auto simp: taken_def left_over_1 left_over_def [of _ n])
qed

theorem pop_refines_witness:
  "fst (lpop mem_store (tenant_context []) [bytes_of ''l''] (mem_world sample_list)) = Inr (bulk (bytes_of ''a''))
   \<and> fst (rpop mem_store (tenant_context []) [bytes_of ''l'', bytes_of ''5''] (mem_world sample_list))
     = Inr (Array [bulk (bytes_of ''b''), bulk (bytes_of ''a'')])"
proof -
  have five: "str_parse_usize (bytes_of ''5'') = Some 5"
    by (simp add: str_parse_usize_def parse_unsigned_def parse_nat_def bytes_of_def)
  note rep = sample_list_rep(1)
  show ?thesis
    using pop_refines [OF mem_env.command_env_axioms [of "[]"], of "bytes_of ''l''" "mem_world sample_list" 0
        "- 1" "[bytes_of ''a'', bytes_of ''b'']" _ _ _ True, OF _ _ _ five refl refl]
      pop_refines [OF mem_env.command_env_axioms [of "[]"], of "bytes_of ''l''" "mem_world sample_list" 0
        "- 1" "[bytes_of ''a'', bytes_of ''b'']" _ _ _ False, OF _ _ _ five refl refl] rep
    by (simp add: key_wf_def mem_world_def)
qed

text \<open>C23: The reading commands of a key that represents the list \<open>xs\<close>: LRANGE replies the elements
  from start to stop, both included, negative positions counting from the end and positions outside
  the list cut off; LINDEX replies the element at a position or nil; LLEN the length. This holds for
  all 64-bit positions, lists of several scan pages and lists with negative indices; an expired
  list reads as empty.\<close>

theorem list_reads:
  fixes s :: "('db, 'x) world_scheme"
  assumes "command_env R view ctx" and "key_wf k" and "list_rep (view (db s)) (namespace ctx) k e h xs"
    and "str_parse_i64 start = Some a" and "str_parse_i64 stop = Some b"
  shows "fst (lrange R ctx [k, start, stop] s) = Inr (Array (map bulk (list_range (sint a) (sint b) (unexpired e (clock s 0) [] xs))))
    \<and> fst (lindex R ctx [k, start] s) = Inr (BulkString (list_at (sint a) (unexpired e (clock s 0) [] xs)))
    \<and> fst (llen R ctx [k] s) = Inr (Integer (of_nat (length (unexpired e (clock s 0) [] xs))))"
  using command_env.lrange_rep [OF assms] command_env.lindex_rep [OF assms(1,3,4)]
    command_env.llen_rep [OF assms(1,3)] by blast

theorem list_reads_witness:
  "fst (lrange mem_store (tenant_context []) [bytes_of ''l'', bytes_of ''-1'', bytes_of ''7''] (mem_world sample_list))
     = Inr (Array [bulk (bytes_of ''b'')])
   \<and> fst (lindex mem_store (tenant_context []) [bytes_of ''l'', bytes_of ''-1''] (mem_world sample_list)) = Inr (bulk (bytes_of ''b''))"
proof -
  have a: "str_parse_i64 (bytes_of ''-1'') = Some (- 1)"
    by (simp add: str_parse_i64_def parse_unsigned_def parse_nat_def bytes_of_def)
  have b: "str_parse_i64 (bytes_of ''7'') = Some 7"
    by (simp add: str_parse_i64_def parse_unsigned_def parse_nat_def bytes_of_def)
  have b7: "sint (7 :: i64) = 7" using sint_of_nat_i64 [of 7] by simp
  show ?thesis
    using list_reads [OF mem_env.command_env_axioms [of "[]"], of "bytes_of ''l''" "mem_world sample_list" 0
        "- 1" "[bytes_of ''a'', bytes_of ''b'']", OF _ _ a b] sample_list_rep(1)
    by (simp add: key_wf_def mem_world_def list_range_def list_at_def b7)
qed

text \<open>C24: Any sequence of pushes and pops on an existing list without a deadline gives the replies of
  the list operations, one after the other, and leaves the list they leave, whatever the order in
  which both ends are used, as long as no more than \<open>2 ^ 62\<close> elements are ever pushed.\<close>

theorem list_history:
  fixes s :: "('db, 'x) world_scheme"
  assumes "command_env R view ctx" and "key_wf k" and "list_rep (view (db s)) (namespace ctx) k 0 h xs"
    and "lookup_meta (view (db s)) (namespace ctx) k \<noteq> None"
    and "- int b \<le> h" and "h + int (length xs) \<le> int b" and "length xs \<le> b"
    and "b + sum_list (map list_op_size ops) < 2 ^ 62" and "\<forall>op \<in> set ops. list_op_ok op"
  shows "\<exists>h' t. run_list_ops R ctx k ops s = (Inr (list_replies ops xs), t)
    \<and> list_rep (view (db t)) (namespace ctx) k 0 h' (fold list_op_next ops xs)"
  using command_env.list_ops_rep [OF assms(1-4), of b ops] assms(5-) by blast

theorem list_history_witness:
  "fst (run_list_ops mem_store (tenant_context []) (bytes_of ''l'')
      [Push False [bytes_of ''c''], Pop True 2, Push True [bytes_of ''d''], Pop False 9] (mem_world sample_list))
   = Inr [Integer 3, Array [bulk (bytes_of ''a''), bulk (bytes_of ''b'')], Integer 2,
       Array [bulk (bytes_of ''c''), bulk (bytes_of ''d'')]]"
  using list_history [OF mem_env.command_env_axioms [of "[]"], of "bytes_of ''l''" "mem_world sample_list"
      "- 1" "[bytes_of ''a'', bytes_of ''b'']" 2 "[Push False [bytes_of ''c''], Pop True 2, Push True [bytes_of ''d''], Pop False 9]"]
    sample_list_rep
  by (auto simp: key_wf_def mem_world_def list_op_size_def list_op_ok_def list_op_reply_def list_op_next_def
      taken_def left_over_def pushed_def)

end
