(* ===== verification/Resp_Protocol.thy ===== *)
theory Resp_Protocol
  imports Cmd_Context
begin

text \<open>
  The wire protocol of \<open>src/src/protocol.rs\<close>: the parser for RESP messages and the serializer.

  The parser returns \<open>Incomplete\<close> where the code returns \<open>None\<close>, which covers both data that
  has not arrived yet and malformed data. \<open>Crash\<close> is the panic of \<open>Vec::with_capacity\<close> for a
  capacity that cannot be allocated: the largest number of values that can is the parameter \<open>cap\<close>
  (below \<open>2 ^ 63\<close>, since a vector never exceeds \<open>isize::MAX\<close> bytes), and a pair takes twice the
  space of a value.

  Nested messages are parsed by recursion on the rest of the data. The fuel bounds the nesting; the
  length of the data is enough, because every level takes at least its first line
  (\<open>parse_value_fuel\<close>).
\<close>

section \<open>Definitions\<close>

datatype 'a parse_result = Parsed 'a | Incomplete | Crash

definition parse_bind :: "'a parse_result \<Rightarrow> ('a \<Rightarrow> 'b parse_result) \<Rightarrow> 'b parse_result" where
  "parse_bind r f = (case r of Parsed x \<Rightarrow> f x | Incomplete \<Rightarrow> Incomplete | Crash \<Rightarrow> Crash)"

definition parse_opt :: "'a option \<Rightarrow> 'a parse_result" where
  "parse_opt r = (case r of Some x \<Rightarrow> Parsed x | None \<Rightarrow> Incomplete)"

fun find_crlf :: "bytes \<Rightarrow> nat option" where
  "find_crlf (a # b # rest) = (if a = 13 \<and> b = 10 then Some 0 else map_option Suc (find_crlf (b # rest)))"
| "find_crlf _ = None"

definition parse_line :: "bytes \<Rightarrow> (bytes \<times> nat) parse_result" where
  "parse_line data = parse_bind (parse_opt (find_crlf data)) (\<lambda>pos. Parsed (byte_slice 1 pos data, pos + 2))"

definition parse_simple :: "bytes \<Rightarrow> (resp_value \<times> nat) parse_result" where
  "parse_simple data = parse_bind (parse_line data) (\<lambda>(line, consumed).
     Parsed (SimpleString (string_of (from_utf8_lossy line)), consumed))"

definition parse_error :: "bytes \<Rightarrow> (resp_value \<times> nat) parse_result" where
  "parse_error data = parse_bind (parse_line data) (\<lambda>(line, consumed).
     Parsed (Error (string_of (from_utf8_lossy line)), consumed))"

definition parse_int :: "bytes \<Rightarrow> (resp_value \<times> nat) parse_result" where
  "parse_int data = parse_bind (parse_line data) (\<lambda>(line, consumed).
     parse_bind (parse_opt (str_parse_i64 line)) (\<lambda>n. Parsed (Integer n, consumed)))"

definition parse_bulk :: "bytes \<Rightarrow> (resp_value \<times> nat) parse_result" where
  "parse_bulk data = parse_bind (parse_line data) (\<lambda>(line, header_len).
     parse_bind (parse_opt (str_parse_i64 line)) (\<lambda>len.
       if sint len < 0 then Parsed (BulkString None, header_len)
       else let body_end = header_len + unat len + 2 in
         if length data < body_end then Incomplete
         else Parsed (bulk (byte_slice header_len (header_len + unat len) data), body_end)))"

definition parse_null :: "bytes \<Rightarrow> (resp_value \<times> nat) parse_result" where
  "parse_null data = parse_bind (parse_line data) (\<lambda>(_, consumed). Parsed (Null, consumed))"

definition parse_bool :: "bytes \<Rightarrow> (resp_value \<times> nat) parse_result" where
  "parse_bool data = parse_bind (parse_line data) (\<lambda>(line, consumed).
     if line = bytes_of ''t'' then Parsed (Boolean True, consumed)
     else if line = bytes_of ''f'' then Parsed (Boolean False, consumed)
     else Incomplete)"

definition parse_double :: "bytes \<Rightarrow> (resp_value \<times> nat) parse_result" where
  "parse_double data = parse_bind (parse_line data) (\<lambda>(line, consumed).
     parse_bind (parse_opt (str_parse_f64 line)) (\<lambda>f. Parsed (Double f, consumed)))"

text \<open>The messages with nested values; \<open>p\<close> is the parser for these.\<close>

primrec parse_items :: "(bytes \<Rightarrow> (resp_value \<times> nat) parse_result) \<Rightarrow> nat \<Rightarrow> bytes \<Rightarrow> nat \<Rightarrow> resp_value list
    \<Rightarrow> (resp_value list \<times> nat) parse_result" where
  "parse_items p 0 data consumed items = Parsed (items, consumed)"
| "parse_items p (Suc n) data consumed items =
     parse_bind (p (drop consumed data)) (\<lambda>(val, used).
       parse_items p n data (consumed + used) (items @ [val]))"

primrec parse_pairs :: "(bytes \<Rightarrow> (resp_value \<times> nat) parse_result) \<Rightarrow> nat \<Rightarrow> bytes \<Rightarrow> nat \<Rightarrow> (resp_value \<times> resp_value) list
    \<Rightarrow> ((resp_value \<times> resp_value) list \<times> nat) parse_result" where
  "parse_pairs p 0 data consumed m = Parsed (m, consumed)"
| "parse_pairs p (Suc n) data consumed m =
     parse_bind (p (drop consumed data)) (\<lambda>(k, used).
     parse_bind (p (drop (consumed + used) data)) (\<lambda>(v, used').
       parse_pairs p n data (consumed + used + used') (m @ [(k, v)])))"

definition parse_array :: "nat \<Rightarrow> (bytes \<Rightarrow> (resp_value \<times> nat) parse_result) \<Rightarrow> bytes \<Rightarrow> (resp_value \<times> nat) parse_result" where
  "parse_array cap p data = parse_bind (parse_line data) (\<lambda>(line, consumed).
     parse_bind (parse_opt (str_parse_i64 line)) (\<lambda>count.
       if sint count < 0 then Parsed (Null, consumed)
       else if cap < unat count then Crash
       else parse_bind (parse_items p (unat count) data consumed []) (\<lambda>(items, consumed).
         Parsed (Array items, consumed))))"

definition parse_map :: "nat \<Rightarrow> (bytes \<Rightarrow> (resp_value \<times> nat) parse_result) \<Rightarrow> bytes \<Rightarrow> (resp_value \<times> nat) parse_result" where
  "parse_map cap p data = parse_bind (parse_line data) (\<lambda>(line, consumed).
     parse_bind (parse_opt (str_parse_i64 line)) (\<lambda>count.
       if cap < 2 * unat count then Crash
       else parse_bind (parse_pairs p (unat count) data consumed []) (\<lambda>(m, consumed).
         Parsed (Map m, consumed))))"

definition parse_set :: "nat \<Rightarrow> (bytes \<Rightarrow> (resp_value \<times> nat) parse_result) \<Rightarrow> bytes \<Rightarrow> (resp_value \<times> nat) parse_result" where
  "parse_set cap p data = parse_bind (parse_line data) (\<lambda>(line, consumed).
     parse_bind (parse_opt (str_parse_i64 line)) (\<lambda>count.
       if cap < unat count then Crash
       else parse_bind (parse_items p (unat count) data consumed []) (\<lambda>(items, consumed).
         Parsed (Set items, consumed))))"

primrec parse_value :: "nat \<Rightarrow> nat \<Rightarrow> bytes \<Rightarrow> (resp_value \<times> nat) parse_result" where
  "parse_value cap 0 data = Incomplete"
| "parse_value cap (Suc fuel) data = (case data of
      [] \<Rightarrow> Incomplete
    | b # _ \<Rightarrow>
        if b = 43 then parse_simple data
        else if b = 45 then parse_error data
        else if b = 58 then parse_int data
        else if b = 36 then parse_bulk data
        else if b = 42 then parse_array cap (parse_value cap fuel) data
        else if b = 95 then parse_null data
        else if b = 35 then parse_bool data
        else if b = 44 then parse_double data
        else if b = 37 then parse_map cap (parse_value cap fuel) data
        else if b = 126 then parse_set cap (parse_value cap fuel) data
        else Incomplete)"

definition parse_one :: "nat \<Rightarrow> bytes \<Rightarrow> (resp_value \<times> nat) parse_result" where
  "parse_one cap data = parse_value cap (Suc (length data)) data"

text \<open>What a value stands for as an argument of a command.\<close>

definition cmd_arg :: "resp_value \<Rightarrow> bytes" where
  "cmd_arg v = (case v of
      BulkString (Some b) \<Rightarrow> b
    | BulkString None \<Rightarrow> []
    | SimpleString s \<Rightarrow> bytes_of s
    | _ \<Rightarrow> [])"

definition parse_cmd :: "nat \<Rightarrow> bytes \<Rightarrow> (bytes list \<times> nat) parse_result" where
  "parse_cmd cap buf = parse_bind (parse_one cap buf) (\<lambda>(val, consumed). case val of
      Array arr \<Rightarrow> Parsed (map cmd_arg arr, consumed)
    | BulkString (Some b) \<Rightarrow> Parsed ([b], consumed)
    | SimpleString s \<Rightarrow> Parsed ([bytes_of s], consumed)
    | _ \<Rightarrow> Incomplete)"

abbreviation crlf :: bytes where
  "crlf \<equiv> [13, 10]"

primrec serialize_into :: "resp_value \<Rightarrow> bytes \<Rightarrow> bytes" where
  "serialize_into (SimpleString s) = (\<lambda>buf. buf @ [43] @ bytes_of s @ crlf)"
| "serialize_into (Error s) = (\<lambda>buf. buf @ [45] @ bytes_of s @ crlf)"
| "serialize_into (Integer n) = (\<lambda>buf. buf @ [58] @ i64_to_string n @ crlf)"
| "serialize_into (BulkString r) = (\<lambda>buf. case r of
      None \<Rightarrow> buf @ [36, 45, 49] @ crlf
    | Some b \<Rightarrow> buf @ [36] @ dec_digits (length b) @ crlf @ b @ crlf)"
| "serialize_into (Array items) = (\<lambda>buf.
     fold (\<lambda>item buf. item buf) (map serialize_into items) (buf @ [42] @ dec_digits (length items) @ crlf))"
| "serialize_into Null = (\<lambda>buf. buf @ [95] @ crlf)"
| "serialize_into (Boolean v) = (\<lambda>buf. buf @ [35] @ [if v then 116 else 102] @ crlf)"
| "serialize_into (Double f) = (\<lambda>buf. buf @ [44] @ f64_to_string f @ crlf)"
| "serialize_into (Map m) = (\<lambda>buf.
     fold (\<lambda>(k, v) buf. v (k buf)) (map (map_prod serialize_into serialize_into) m)
       (buf @ [37] @ dec_digits (length m) @ crlf))"
| "serialize_into (Set items) = (\<lambda>buf.
     fold (\<lambda>item buf. item buf) (map serialize_into items) (buf @ [126] @ dec_digits (length items) @ crlf))"

definition serialize :: "resp_value \<Rightarrow> bytes" where
  "serialize v = serialize_into v []"

section \<open>Lines\<close>

lemma parse_bind_simps [simp]:
  "parse_bind (Parsed x) f = f x" "parse_bind Incomplete f = Incomplete" "parse_bind Crash f = Crash"
  by (simp_all add: parse_bind_def)

lemma parse_opt_simps [simp]: "parse_opt (Some x) = Parsed x" "parse_opt None = Incomplete"
  by (simp_all add: parse_opt_def)

lemma parse_bind_eq_Parsed: "parse_bind r f = Parsed y \<longleftrightarrow> (\<exists>x. r = Parsed x \<and> f x = Parsed y)"
  by (cases r) auto

lemma parse_opt_eq_Parsed: "parse_opt r = Parsed x \<longleftrightarrow> r = Some x"
  by (cases r) auto

lemma find_crlf_bound: "find_crlf data = Some pos \<Longrightarrow> pos + 2 \<le> length data"
  by (induction data arbitrary: pos rule: find_crlf.induct) (auto split: if_splits)

lemma find_crlf_append: "find_crlf data = Some pos \<Longrightarrow> find_crlf (data @ ext) = Some pos"
  by (induction data arbitrary: pos rule: find_crlf.induct) (auto split: if_splits)

text \<open>A line that the parser finds complete: no line break in it.\<close>

definition one_line :: "bytes \<Rightarrow> bool" where
  "one_line bs \<longleftrightarrow> find_crlf (bs @ [13]) = None"

lemma find_crlf_line: "one_line bs \<Longrightarrow> find_crlf (bs @ 13 # 10 # rest) = Some (length bs)"
  unfolding one_line_def
proof (induction bs)
  case (Cons b bs)
  then show ?case by (cases bs) (auto split: if_splits)
qed simp

lemma one_line_no_cr: "13 \<notin> set bs \<Longrightarrow> one_line bs"
  unfolding one_line_def
proof (induction bs)
  case (Cons b bs)
  then show ?case by (cases bs) auto
qed simp

lemma parse_line_bound: "parse_line data = Parsed (line, n) \<Longrightarrow> 0 < n \<and> n \<le> length data"
  using find_crlf_bound by (auto simp: parse_line_def parse_bind_eq_Parsed parse_opt_eq_Parsed)

lemma parse_line_append:
  assumes "parse_line data = Parsed (line, n)"
  shows "parse_line (data @ ext) = Parsed (line, n)"
proof -
  from assms obtain pos where pos: "find_crlf data = Some pos" "line = byte_slice 1 pos data" "n = pos + 2"
    by (auto simp: parse_line_def parse_bind_eq_Parsed parse_opt_eq_Parsed)
  then have "byte_slice 1 pos (data @ ext) = line" using find_crlf_bound [OF pos(1)] by simp
  with pos find_crlf_append [OF pos(1), of ext] show ?thesis by (simp add: parse_line_def)
qed

lemma parse_line_line: "one_line (b # bs) \<Longrightarrow> parse_line (b # bs @ 13 # 10 # rest) = Parsed (bs, length bs + 3)"
  using find_crlf_line [of "b # bs" rest] by (simp add: parse_line_def byte_slice_def)

lemma parse_line_not_Crash: "parse_line data \<noteq> Crash"
  by (cases "find_crlf data") (simp_all add: parse_line_def)

text \<open>A computation that starts with reading a line, on more data.\<close>

lemma parse_line_bind_append:
  assumes "parse_bind (parse_line data) f = r" and "r \<noteq> Incomplete"
    and "\<And>line n. parse_line data = Parsed (line, n) \<Longrightarrow> f (line, n) \<noteq> Incomplete \<Longrightarrow> g (line, n) = f (line, n)"
  shows "parse_bind (parse_line (data @ ext)) g = r"
proof (cases "parse_line data")
  case (Parsed x)
  obtain line n where x: "x = (line, n)" by (cases x)
  with Parsed parse_line_append [of data line n ext] assms show ?thesis by auto
qed (use assms parse_line_not_Crash in auto)

section \<open>What a parser of messages promises\<close>

text \<open>
  A parser consumes at least one byte and no more than it has, and a decision it has taken does
  not change when more data arrives: this is what the nested messages and the connection loop,
  which appends to its buffer and tries again, rely on.
\<close>

locale message_parser =
  fixes p :: "bytes \<Rightarrow> ('v \<times> nat) parse_result"
  assumes bounded: "p data = Parsed (v, n) \<Longrightarrow> 0 < n \<and> n \<le> length data"
    and stable: "p data = r \<Longrightarrow> r \<noteq> Incomplete \<Longrightarrow> p (data @ ext) = r"
begin

text \<open>On the strict prefixes of a message the parser waits.\<close>

lemma prefix_incomplete:
  assumes "p (data @ ext) = Parsed (v, length (data @ ext))" and "ext \<noteq> []"
  shows "p data = Incomplete"
proof (rule ccontr)
  assume ne: "p data \<noteq> Incomplete"
  then have "p (data @ ext) = p data" using stable [OF refl ne] by simp
  with assms(1) have "p data = Parsed (v, length (data @ ext))" by simp
  from bounded [OF this] assms(2) show False by simp
qed

end

lemma message_parserI:
  assumes "\<And>data v n. p data = Parsed (v, n) \<Longrightarrow> 0 < n \<and> n \<le> length data"
    and "\<And>data ext r. p data = r \<Longrightarrow> r \<noteq> Incomplete \<Longrightarrow> p (data @ ext) = r"
  shows "message_parser p"
  using assms by unfold_locales blast+

text \<open>The parsers of messages of one line.\<close>

lemma line_parser:
  assumes "\<And>data. p data = parse_bind (parse_line data) (\<lambda>(line, n). parse_bind (f line) (\<lambda>v. Parsed (v, n)))"
  shows "message_parser p"
proof (rule message_parserI)
  show "0 < n \<and> n \<le> length data" if "p data = Parsed (v, n)" for data v n
    using that parse_line_bound by (auto simp: assms parse_bind_eq_Parsed split: prod.splits)
  show "p (data @ ext) = r" if "p data = r" "r \<noteq> Incomplete" for data ext r
    using that unfolding assms by (rule parse_line_bind_append) simp
qed

interpretation simple_parser: message_parser parse_simple
  by (rule line_parser [where f = "\<lambda>line. Parsed (SimpleString (string_of (from_utf8_lossy line)))"])
    (simp add: parse_simple_def)

interpretation error_parser: message_parser parse_error
  by (rule line_parser [where f = "\<lambda>line. Parsed (Error (string_of (from_utf8_lossy line)))"])
    (simp add: parse_error_def)

interpretation int_parser: message_parser parse_int
  by (rule line_parser [where f = "\<lambda>line. parse_opt (map_option Integer (str_parse_i64 line))"])
    (simp add: parse_int_def parse_opt_def parse_bind_def split: option.split parse_result.split)

interpretation null_parser: message_parser parse_null
  by (rule line_parser [where f = "\<lambda>line. Parsed Null"]) (simp add: parse_null_def)

interpretation bool_parser: message_parser parse_bool
  by (rule line_parser [where f = "\<lambda>line. if line = bytes_of ''t'' then Parsed (Boolean True)
        else if line = bytes_of ''f'' then Parsed (Boolean False) else Incomplete"])
    (auto simp: parse_bool_def parse_bind_def split: parse_result.split)

interpretation double_parser: message_parser parse_double
  by (rule line_parser [where f = "\<lambda>line. parse_opt (map_option Double (str_parse_f64 line))"])
    (simp add: parse_double_def parse_opt_def parse_bind_def split: option.split parse_result.split)

interpretation bulk_parser: message_parser parse_bulk
proof (rule message_parserI)
  show "0 < n \<and> n \<le> length data" if "parse_bulk data = Parsed (v, n)" for data v n
    using that parse_line_bound
    by (auto simp: parse_bulk_def parse_bind_eq_Parsed parse_opt_eq_Parsed Let_def split: prod.splits if_splits)
  show "parse_bulk (data @ ext) = r" if "parse_bulk data = r" "r \<noteq> Incomplete" for data ext r
    using that unfolding parse_bulk_def
    by (rule parse_line_bind_append) (auto simp: parse_opt_def Let_def split: option.splits if_splits)
qed

section \<open>Nested messages\<close>

lemma items_bounded:
  assumes "message_parser p" and "c \<le> length data" and "parse_items p n data c acc = Parsed (vs, c')"
  shows "c \<le> c' \<and> c' \<le> length data"
  using assms(2,3)
proof (induction n arbitrary: c acc)
  case (Suc n)
  then obtain v m where v: "p (drop c data) = Parsed (v, m)" "parse_items p n data (c + m) (acc @ [v]) = Parsed (vs, c')"
    by (auto simp: parse_bind_eq_Parsed)
  have "c + m \<le> length data" using message_parser.bounded [OF assms(1) v(1)] Suc.prems(1) by auto
  with Suc.IH [OF this v(2)] show ?case by simp
qed simp

lemma items_stable:
  assumes "message_parser p" and "c \<le> length data" and "parse_items p n data c acc = r" and "r \<noteq> Incomplete"
  shows "parse_items p n (data @ ext) c acc = r"
  using assms(2-)
proof (induction n arbitrary: c acc)
  case (Suc n)
  then have "p (drop c data) \<noteq> Incomplete" by auto
  then have same: "p (drop c (data @ ext)) = p (drop c data)"
    using message_parser.stable [OF assms(1) refl, of "drop c data" ext] Suc.prems(1) by simp
  show ?case
  proof (cases "p (drop c data)")
    case (Parsed x)
    obtain v m where x: "x = (v, m)" by (cases x)
    have "c + m \<le> length data"
      using message_parser.bounded [OF assms(1) Parsed [unfolded x]] Suc.prems(1) by auto
    with Suc.IH [of "c + m" "acc @ [v]"] Suc.prems(2,3) Parsed same x show ?thesis by simp
  qed (use Suc.prems same in auto)
qed simp

text \<open>Pairs are values two by two.\<close>

fun pair_up :: "'a list \<Rightarrow> ('a \<times> 'a) list" where
  "pair_up (a # b # xs) = (a, b) # pair_up xs"
| "pair_up _ = []"

lemma parse_items_acc:
  "parse_items p n data c (acc @ acc') = parse_bind (parse_items p n data c acc') (\<lambda>(vs, c). Parsed (acc @ vs, c))"
proof (induction n arbitrary: c acc')
  case (Suc n)
  show ?case
  proof (cases "p (drop c data)")
    case (Parsed x)
    with Suc [of _ "acc' @ [fst x]"] show ?thesis by (cases x) simp
  qed simp_all
qed simp

lemma parse_pairs_acc:
  "parse_pairs p n data c (acc @ acc') = parse_bind (parse_pairs p n data c acc') (\<lambda>(vs, c). Parsed (acc @ vs, c))"
proof (induction n arbitrary: c acc')
  case (Suc n)
  show ?case
  proof (cases "p (drop c data)")
    case (Parsed x)
    obtain a m where x: "x = (a, m)" by (cases x)
    show ?thesis
    proof (cases "p (drop (c + m) data)")
      case (Parsed y)
      with Suc [of _ "acc' @ [(a, fst y)]"] \<open>p (drop c data) = Parsed x\<close> show ?thesis by (cases y) (simp add: x)
    qed (use \<open>p (drop c data) = Parsed x\<close> in \<open>simp_all add: x\<close>)
  qed simp_all
qed simp

lemma parse_pairs_items:
  "parse_pairs p n data c [] = parse_bind (parse_items p (2 * n) data c []) (\<lambda>(vs, c). Parsed (pair_up vs, c))"
proof (induction n arbitrary: c)
  case (Suc n)
  show ?case
  proof (cases "p (drop c data)")
    case (Parsed x)
    obtain a m where x: "x = (a, m)" by (cases x)
    show ?thesis
    proof (cases "p (drop (c + m) data)")
      case y: (Parsed y)
      obtain b m' where yy: "y = (b, m')" by (cases y)
      have "parse_items p (2 * n) data (c + m + m') [a, b]
          = parse_bind (parse_items p (2 * n) data (c + m + m') []) (\<lambda>(vs, c). Parsed ([a, b] @ vs, c))"
        using parse_items_acc [of p "2 * n" data "c + m + m'" "[a, b]" "[]"] by simp
      moreover have "parse_pairs p n data (c + m + m') [(a, b)]
          = parse_bind (parse_pairs p n data (c + m + m') []) (\<lambda>(vs, c). Parsed ([(a, b)] @ vs, c))"
        using parse_pairs_acc [of p n data "c + m + m'" "[(a, b)]" "[]"] by simp
      ultimately show ?thesis
        using Parsed y Suc [of "c + m + m'"] x yy by (cases "parse_items p (2 * n) data (c + m + m') []") auto
    qed (use Parsed in \<open>simp_all add: x\<close>)
  qed simp_all
qed simp

lemma pairs_stable:
  assumes "message_parser p" and "c \<le> length data" and "parse_pairs p n data c [] = r" and "r \<noteq> Incomplete"
  shows "parse_pairs p n (data @ ext) c [] = r"
proof -
  have "parse_items p (2 * n) data c [] \<noteq> Incomplete"
    using assms(3,4) unfolding parse_pairs_items by auto
  then have "parse_items p (2 * n) (data @ ext) c [] = parse_items p (2 * n) data c []"
    using items_stable [OF assms(1,2) refl] by blast
  with assms(3) show ?thesis unfolding parse_pairs_items by simp
qed

text \<open>A message with a count in its first line, then what \<open>body\<close> reads after it.\<close>

lemma counted_parser:
  assumes def: "\<And>data. p data = parse_bind (parse_line data) (\<lambda>(line, c).
      parse_bind (parse_opt (str_parse_i64 line)) (\<lambda>count. body count data c))"
    and bounded: "\<And>count data c v n. c \<le> length data \<Longrightarrow> body count data c = Parsed (v, n) \<Longrightarrow> c \<le> n \<and> n \<le> length data"
    and stable: "\<And>count data c ext. c \<le> length data \<Longrightarrow> body count data c \<noteq> Incomplete \<Longrightarrow> body count (data @ ext) c = body count data c"
  shows "message_parser p"
proof (rule message_parserI)
  fix data v n
  assume "p data = Parsed (v, n)"
  then obtain line c count where "parse_line data = Parsed (line, c)" "body count data c = Parsed (v, n)"
    by (auto simp: def parse_bind_eq_Parsed)
  with bounded parse_line_bound show "0 < n \<and> n \<le> length data" by (meson less_le_trans)
next
  fix data ext r
  assume "p data = r" and "r \<noteq> Incomplete"
  then show "p (data @ ext) = r"
    unfolding def
  proof (rule parse_line_bind_append)
    fix line c
    assume line: "parse_line data = Parsed (line, c)"
      and ok: "(case (line, c) of (line, c) \<Rightarrow> parse_bind (parse_opt (str_parse_i64 line)) (\<lambda>count. body count data c)) \<noteq> Incomplete"
    have "c \<le> length data" using parse_line_bound [OF line] by simp
    with ok stable [of c data _ ext]
    show "(case (line, c) of (line, c) \<Rightarrow> parse_bind (parse_opt (str_parse_i64 line)) (\<lambda>count. body count (data @ ext) c))
      = (case (line, c) of (line, c) \<Rightarrow> parse_bind (parse_opt (str_parse_i64 line)) (\<lambda>count. body count data c))"
      by (cases "str_parse_i64 line") simp_all
  qed
qed

lemma pairs_bounded:
  assumes "message_parser p" and "c \<le> length data" and "parse_pairs p n data c [] = Parsed (vs, c')"
  shows "c \<le> c' \<and> c' \<le> length data"
  using assms(3) items_bounded [OF assms(1,2)] unfolding parse_pairs_items
  by (auto simp: parse_bind_eq_Parsed split: prod.splits)

lemma bind_stable: "(r \<noteq> Incomplete \<Longrightarrow> r' = r) \<Longrightarrow> parse_bind r f \<noteq> Incomplete \<Longrightarrow> parse_bind r' f = parse_bind r f"
  by (cases r) auto

lemma array_parser:
  assumes "message_parser p"
  shows "message_parser (parse_array cap p)"
proof (rule counted_parser)
  show "parse_array cap p data = parse_bind (parse_line data) (\<lambda>(line, c).
      parse_bind (parse_opt (str_parse_i64 line)) (\<lambda>count.
        if sint count < 0 then Parsed (Null, c) else if cap < unat count then Crash
        else parse_bind (parse_items p (unat count) data c []) (\<lambda>(items, c). Parsed (Array items, c))))" for data
    by (simp add: parse_array_def)
qed (auto simp: parse_bind_eq_Parsed split: if_splits prod.splits
    dest: items_bounded [OF assms] intro!: bind_stable items_stable [OF assms])

lemma set_parser:
  assumes "message_parser p"
  shows "message_parser (parse_set cap p)"
proof (rule counted_parser)
  show "parse_set cap p data = parse_bind (parse_line data) (\<lambda>(line, c).
      parse_bind (parse_opt (str_parse_i64 line)) (\<lambda>count. if cap < unat count then Crash
        else parse_bind (parse_items p (unat count) data c []) (\<lambda>(items, c). Parsed (Set items, c))))" for data
    by (simp add: parse_set_def)
qed (auto simp: parse_bind_eq_Parsed split: if_splits prod.splits
    dest: items_bounded [OF assms] intro!: bind_stable items_stable [OF assms])

lemma map_parser:
  assumes "message_parser p"
  shows "message_parser (parse_map cap p)"
proof (rule counted_parser)
  show "parse_map cap p data = parse_bind (parse_line data) (\<lambda>(line, c).
      parse_bind (parse_opt (str_parse_i64 line)) (\<lambda>count. if cap < 2 * unat count then Crash
        else parse_bind (parse_pairs p (unat count) data c []) (\<lambda>(m, c). Parsed (Map m, c))))" for data
    by (simp add: parse_map_def)
qed (auto simp: parse_bind_eq_Parsed split: if_splits prod.splits
    dest: pairs_bounded [OF assms] intro!: bind_stable pairs_stable [OF assms])

lemma if_parser: "message_parser p \<Longrightarrow> message_parser q \<Longrightarrow> message_parser (\<lambda>data. if c then p data else q data)"
  by (cases c) simp_all

text \<open>The first byte selects the parser.\<close>

lemma parse_value_select:
  assumes "message_parser (parse_value cap fuel)"
  shows "\<exists>p. message_parser p \<and> (\<forall>rest. parse_value cap (Suc fuel) (b # rest) = p (b # rest))"
proof -
  let ?p = "\<lambda>data. if b = 43 then parse_simple data else if b = 45 then parse_error data
    else if b = 58 then parse_int data else if b = 36 then parse_bulk data
    else if b = 42 then parse_array cap (parse_value cap fuel) data else if b = 95 then parse_null data
    else if b = 35 then parse_bool data else if b = 44 then parse_double data
    else if b = 37 then parse_map cap (parse_value cap fuel) data
    else if b = 126 then parse_set cap (parse_value cap fuel) data else Incomplete"
  have none: "message_parser (\<lambda>data. Incomplete)" by (rule message_parserI) auto
  have "message_parser ?p"
    by (intro if_parser none simple_parser.message_parser_axioms error_parser.message_parser_axioms
        int_parser.message_parser_axioms bulk_parser.message_parser_axioms null_parser.message_parser_axioms
        bool_parser.message_parser_axioms double_parser.message_parser_axioms
        array_parser map_parser set_parser assms)
  moreover have "parse_value cap (Suc fuel) (b # rest) = ?p (b # rest)" for rest
    by (simp only: parse_value.simps list.case)
  ultimately show ?thesis by blast
qed

lemma value_parser: "message_parser (parse_value cap fuel)"
proof (induction fuel)
  case 0
  show ?case by (rule message_parserI) auto
next
  case (Suc fuel)
  show ?case
  proof (rule message_parserI)
    fix data v n
    assume run: "parse_value cap (Suc fuel) data = Parsed (v, n)"
    then obtain b rest where data: "data = b # rest" by (cases data) auto
    obtain p where "message_parser p" "parse_value cap (Suc fuel) (b # rest) = p (b # rest)"
      using parse_value_select [OF Suc, of b] by blast
    with run message_parser.bounded show "0 < n \<and> n \<le> length data" unfolding data by metis
  next
    fix data ext r
    assume run: "parse_value cap (Suc fuel) data = r" "r \<noteq> Incomplete"
    then obtain b rest where data: "data = b # rest" by (cases data) auto
    obtain p where "message_parser p" "\<And>rest. parse_value cap (Suc fuel) (b # rest) = p (b # rest)"
      using parse_value_select [OF Suc, of b] by blast
    with run message_parser.stable [of p data r ext] show "parse_value cap (Suc fuel) (data @ ext) = r"
      unfolding data by simp
  qed
qed

interpretation value_parser: message_parser "parse_value cap fuel" for cap fuel
  by (rule value_parser)

text \<open>The fuel does not matter once it exceeds the length of the data.\<close>

lemma parse_items_cong:
  assumes "\<And>c'. c \<le> c' \<Longrightarrow> p (drop c' data) = q (drop c' data)"
  shows "parse_items p n data c acc = parse_items q n data c acc"
  using assms
proof (induction n arbitrary: c acc)
  case (Suc n)
  have "parse_items p n data (c + m) acc = parse_items q n data (c + m) acc" for m acc
    using Suc.prems by (intro Suc.IH) simp
  with Suc.prems [of c] show ?case by simp
qed simp

lemma bind_line_cong:
  "(\<And>line c. parse_line data = Parsed (line, c) \<Longrightarrow> 0 < c \<Longrightarrow> f (line, c) = g (line, c)) \<Longrightarrow>
   parse_bind (parse_line data) f = parse_bind (parse_line data) g"
  using parse_line_bound by (cases "parse_line data") auto

lemma nested_cong:
  assumes "\<And>c. 0 < c \<Longrightarrow> p (drop c data) = q (drop c data)"
  shows "parse_array cap p data = parse_array cap q data" and "parse_map cap p data = parse_map cap q data"
    and "parse_set cap p data = parse_set cap q data"
proof -
  have "parse_items p n data c [] = parse_items q n data c []" if "0 < c" for n c
    using assms that by (intro parse_items_cong) simp
  then show "parse_array cap p data = parse_array cap q data" "parse_map cap p data = parse_map cap q data"
      "parse_set cap p data = parse_set cap q data"
    unfolding parse_array_def parse_map_def parse_set_def parse_pairs_items
    by (intro bind_line_cong, simp cong: if_cong)+
qed

lemma parse_value_fuel: "length data < fuel \<Longrightarrow> length data < fuel' \<Longrightarrow> parse_value cap fuel data = parse_value cap fuel' data"
proof (induction fuel arbitrary: data fuel')
  case (Suc fuel)
  then obtain f' where f': "fuel' = Suc f'" by (cases fuel') auto
  have "parse_value cap fuel (drop c data) = parse_value cap f' (drop c data)" if "0 < c" "data \<noteq> []" for c
    using Suc.prems that f' by (intro Suc.IH) (cases data; simp)+
  then have eqs: "parse_array cap (parse_value cap fuel) data = parse_array cap (parse_value cap f') data"
    "parse_map cap (parse_value cap fuel) data = parse_map cap (parse_value cap f') data"
    "parse_set cap (parse_value cap fuel) data = parse_set cap (parse_value cap f') data" if "data \<noteq> []"
    using that nested_cong [of "parse_value cap fuel" data "parse_value cap f'"] by blast+
  show ?case
  proof (cases "data = []")
    case False
    show ?thesis unfolding f' parse_value.simps by (simp only: eqs [OF False])
  qed (simp add: f')
qed simp

interpretation one_parser: message_parser "parse_one cap" for cap
proof (rule message_parserI)
  show "0 < n \<and> n \<le> length data" if "parse_one cap data = Parsed (v, n)" for data v n
    using that value_parser.bounded unfolding parse_one_def by blast
  show "parse_one cap (data @ ext) = r" if "parse_one cap data = r" "r \<noteq> Incomplete" for data ext r
  proof -
    have "parse_value cap (Suc (length (data @ ext))) data = r"
      using that(1) parse_value_fuel [of data "Suc (length (data @ ext))" "Suc (length data)"] unfolding parse_one_def by simp
    then show ?thesis using value_parser.stable that(2) unfolding parse_one_def by blast
  qed
qed

section \<open>Serializing\<close>

lemma fold_appending:
  assumes "\<And>x b. x \<in> set xs \<Longrightarrow> f x b = b @ f x []"
  shows "fold f xs b = b @ fold f xs []"
  using assms
proof (induction xs arbitrary: b)
  case (Cons x xs)
  have step: "f x b = b @ f x []" by (rule Cons.prems) simp
  have rest: "fold f xs c = c @ fold f xs []" for c by (rule Cons.IH) (rule Cons.prems, simp)
  have "fold f (x # xs) b = (b @ f x []) @ fold f xs []" using rest [of "f x b"] by (simp only: fold_simps step)
  moreover have "fold f (x # xs) [] = f x [] @ fold f xs []" using rest [of "f x []"] by (simp only: fold_simps)
  ultimately show ?case by (simp only: append_assoc)
qed simp

lemma serialize_into_append: "serialize_into v buf = buf @ serialize v"
  unfolding serialize_def
proof (induction v arbitrary: buf)
  case (Array items)
  have "fold (\<lambda>item buf. item buf) (map serialize_into items) b
      = b @ fold (\<lambda>item buf. item buf) (map serialize_into items) []" for b
    by (rule fold_appending) (auto intro: Array)
  from this [of "buf @ [42] @ dec_digits (length items) @ crlf"] this [of "[42] @ dec_digits (length items) @ crlf"]
  show ?case by simp
next
  case (Set items)
  have "fold (\<lambda>item buf. item buf) (map serialize_into items) b
      = b @ fold (\<lambda>item buf. item buf) (map serialize_into items) []" for b
    by (rule fold_appending) (auto intro: Set)
  from this [of "buf @ [126] @ dec_digits (length items) @ crlf"] this [of "[126] @ dec_digits (length items) @ crlf"]
  show ?case by simp
next
  case (Map m)
  have "v (k b) = b @ v (k [])" if "(k, v) \<in> map_prod serialize_into serialize_into ` set m" for k v b
  proof -
    from that obtain x y where xy: "(x, y) \<in> set m" "k = serialize_into x" "v = serialize_into y" by auto
    have x: "serialize_into x c = c @ serialize_into x []" for c by (rule Map [OF xy(1)]) simp
    have y: "serialize_into y c = c @ serialize_into y []" for c by (rule Map [OF xy(1)]) simp
    have "v (k b) = (b @ serialize_into x []) @ serialize_into y []"
      unfolding xy(2,3) x [of b] by (rule y)
    moreover have "v (k []) = serialize_into x [] @ serialize_into y []" unfolding xy(2,3) by (rule y)
    ultimately show ?thesis by (simp only: append_assoc)
  qed
  note pair = this
  have "fold (\<lambda>(k, v) buf. v (k buf)) (map (map_prod serialize_into serialize_into) m) b
      = b @ fold (\<lambda>(k, v) buf. v (k buf)) (map (map_prod serialize_into serialize_into) m) []" for b
    by (rule fold_appending) (auto simp del: serialize_into.simps intro: pair)
  from this [of "buf @ [37] @ dec_digits (length m) @ crlf"] this [of "[37] @ dec_digits (length m) @ crlf"]
  show ?case by simp
qed (simp_all split: option.split)

lemma fold_serialize: "fold (\<lambda>item buf. item buf) (map serialize_into items) buf = buf @ concat (map serialize items)"
  by (induction items arbitrary: buf) (simp_all add: serialize_into_append)

lemma fold_serialize_pairs: "fold (\<lambda>(k, v) buf. v (k buf)) (map (map_prod serialize_into serialize_into) m) buf
    = buf @ concat (map (\<lambda>(k, v). serialize k @ serialize v) m)"
  by (induction m arbitrary: buf) (auto simp: serialize_into_append)

lemma serialize_simps [simp]:
  "serialize (SimpleString s) = 43 # bytes_of s @ crlf"
  "serialize (Error s) = 45 # bytes_of s @ crlf"
  "serialize (Integer n) = 58 # i64_to_string n @ crlf"
  "serialize (BulkString None) = [36, 45, 49, 13, 10]"
  "serialize (bulk b) = 36 # dec_digits (length b) @ crlf @ b @ crlf"
  "serialize (Array items) = 42 # dec_digits (length items) @ crlf @ concat (map serialize items)"
  "serialize Null = [95, 13, 10]"
  "serialize (Boolean v) = [35, if v then 116 else 102, 13, 10]"
  "serialize (Double f) = 44 # f64_to_string f @ crlf"
  "serialize (Map m) = 37 # dec_digits (length m) @ crlf @ concat (map (\<lambda>(k, v). serialize k @ serialize v) m)"
  "serialize (Set items) = 126 # dec_digits (length items) @ crlf @ concat (map serialize items)"
  by (simp_all add: serialize_def fold_serialize fold_serialize_pairs)

text \<open>
  The values that survive the way over the wire: texts of one line, no number that is not a number,
  and lengths that fit.
\<close>

primrec resp_wf :: "resp_value \<Rightarrow> nat \<Rightarrow> bool" where
  "resp_wf (SimpleString s) = (\<lambda>cap. one_line (43 # bytes_of s) \<and> utf8_valid (bytes_of s))"
| "resp_wf (Error s) = (\<lambda>cap. one_line (45 # bytes_of s) \<and> utf8_valid (bytes_of s))"
| "resp_wf (Integer n) = (\<lambda>cap. True)"
| "resp_wf (BulkString r) = (\<lambda>cap. \<forall>b. r = Some b \<longrightarrow> length b < 2 ^ 63)"
| "resp_wf (Array items) = (\<lambda>cap. length items \<le> cap \<and> list_all (\<lambda>w. w cap) (map resp_wf items))"
| "resp_wf Null = (\<lambda>cap. True)"
| "resp_wf (Boolean v) = (\<lambda>cap. True)"
| "resp_wf (Double f) = (\<lambda>cap. \<not> is_nan f)"
| "resp_wf (Map m) = (\<lambda>cap. 2 * length m \<le> cap \<and>
     list_all (\<lambda>(w, w'). w cap \<and> w' cap) (map (map_prod resp_wf resp_wf) m))"
| "resp_wf (Set items) = (\<lambda>cap. length items \<le> cap \<and> list_all (\<lambda>w. w cap) (map resp_wf items))"

lemma str_parse_i64_digits: "n < 2 ^ 63 \<Longrightarrow> str_parse_i64 (dec_digits n) = Some (of_nat n)"
  by (simp add: str_parse_i64_def hd_dec_digits_sign)

lemma sint_of_nat_nonneg: "n < 2 ^ 63 \<Longrightarrow> \<not> sint (of_nat n :: i64) < 0"
  using sint_word_of_int_i64 [of "int n"] by simp

lemma unat_of_nat_i64: "n < 2 ^ 63 \<Longrightarrow> unat (of_nat n :: i64) = n"
  by (simp add: unat_of_nat)

lemma digits_no_cr: "13 \<notin> set (dec_digits n)"
  using dec_digits_digit [of 13 n] by (auto simp: word_le_nat_alt)

lemma parse_count_line:
  "b \<noteq> 13 \<Longrightarrow> parse_line (b # dec_digits n @ 13 # 10 # rest) = Parsed (dec_digits n, length (dec_digits n) + 3)"
  by (rule parse_line_line) (auto intro!: one_line_no_cr simp: digits_no_cr)

lemma i64_to_string_no_cr: "13 \<notin> set (i64_to_string n)"
  by (simp add: i64_to_string_def digits_no_cr)

lemma parse_int_line:
  "b \<noteq> 13 \<Longrightarrow> parse_line (b # i64_to_string n @ 13 # 10 # rest) = Parsed (i64_to_string n, length (i64_to_string n) + 3)"
  by (rule parse_line_line) (auto intro!: one_line_no_cr simp: i64_to_string_no_cr)

lemma unat_negative:
  assumes "sint (n :: i64) < 0"
  shows "2 ^ 63 \<le> unat n"
proof -
  have "bit n 63" using assms sint_i64_uint [of n] by (cases "bit n 63") simp_all
  with sint_i64_uint [of n] have eq: "uint n = sint n + 2 ^ 64" by simp
  have nn: "uint n = int (unat n)" by simp
  have ge: "- (2 ^ 63) \<le> sint n" using sint_greater_eq [of n] by simp
  have "(2 :: int) ^ 64 = 2 * 2 ^ 63" by simp
  with eq ge have "2 ^ 63 \<le> uint n" by linarith
  then show ?thesis by (simp only: nn of_nat_le_iff [symmetric, where 'a = int] of_nat_power of_nat_numeral)
qed

lemma decimal_string_no_cr: "13 \<notin> set (decimal_string D x)"
proof -
  have "set (strip_zeros ds) \<subseteq> set ds" for ds
    using set_dropWhileD by (fastforce simp: strip_zeros_def)
  moreover have "13 \<notin> set (pad_digits n v)" for n v using digits_no_cr [of v] by (auto simp: pad_digits_def)
  ultimately have "13 \<notin> set (strip_zeros (pad_digits n v))" for n v by blast
  then show ?thesis by (auto simp: decimal_string_def Let_def digits_no_cr)
qed

lemma f64_to_string_no_cr: "13 \<notin> set (f64_to_string f)"
  by (auto simp: f64_to_string_def decimal_string_no_cr bytes_of_def split: prod.split)

section \<open>Round trip\<close>

lemma parse_items_serialize:
  assumes "\<And>v rest. v \<in> set vs \<Longrightarrow> p (serialize v @ rest) = Parsed (v, length (serialize v))"
  shows "parse_items p (length vs) (pre @ concat (map serialize vs) @ rest) (length pre) acc
    = Parsed (acc @ vs, length pre + length (concat (map serialize vs)))"
  using assms
proof (induction vs arbitrary: pre acc)
  case (Cons v vs)
  have "p (serialize v @ concat (map serialize vs) @ rest) = Parsed (v, length (serialize v))"
    by (rule Cons.prems) simp
  moreover have "parse_items p (length vs) ((pre @ serialize v) @ concat (map serialize vs) @ rest) (length (pre @ serialize v)) (acc @ [v])
      = Parsed ((acc @ [v]) @ vs, length (pre @ serialize v) + length (concat (map serialize vs)))"
    by (rule Cons.IH) (rule Cons.prems, simp)
  ultimately show ?case by simp
qed simp

lemma parse_pairs_serialize:
  assumes "\<And>k v rest. (k, v) \<in> set m \<Longrightarrow> p (serialize k @ rest) = Parsed (k, length (serialize k))
      \<and> p (serialize v @ rest) = Parsed (v, length (serialize v))"
  shows "parse_pairs p (length m) (pre @ concat (map (\<lambda>(k, v). serialize k @ serialize v) m) @ rest) (length pre) acc
    = Parsed (acc @ m, length pre + length (concat (map (\<lambda>(k, v). serialize k @ serialize v) m)))"
  using assms
proof (induction m arbitrary: pre acc)
  case (Cons kv m)
  obtain k v where kv: "kv = (k, v)" by (cases kv)
  let ?tail = "concat (map (\<lambda>(k, v). serialize k @ serialize v) m)"
  have "p (serialize k @ serialize v @ ?tail @ rest) = Parsed (k, length (serialize k))"
    "p (serialize v @ ?tail @ rest) = Parsed (v, length (serialize v))"
    using Cons.prems [of k v] by (simp_all add: kv)
  moreover have "parse_pairs p (length m) ((pre @ serialize k @ serialize v) @ ?tail @ rest) (length (pre @ serialize k @ serialize v)) (acc @ [(k, v)])
      = Parsed ((acc @ [(k, v)]) @ m, length (pre @ serialize k @ serialize v) + length ?tail)"
    by (rule Cons.IH) (rule Cons.prems, simp)
  ultimately show ?case by (simp add: kv add.assoc)
qed simp

text \<open>A serialized value at the start of the data is parsed as itself, whatever follows.\<close>

lemma length_serialize_item: "v \<in> set items \<Longrightarrow> length (serialize v) \<le> length (concat (map serialize items))"
  by (induction items) auto

lemma length_serialize_pair:
  "(k, v) \<in> set m \<Longrightarrow> length (serialize k @ serialize v) \<le> length (concat (map (\<lambda>(k, v). serialize k @ serialize v) m))"
  by (induction m) auto

lemma parse_value_serialize:
  assumes "cap < 2 ^ 63" and "resp_wf v cap" and "length (serialize v) \<le> fuel"
  shows "parse_value cap (Suc fuel) (serialize v @ rest) = Parsed (v, length (serialize v))"
  using assms(2,3)
proof (induction v arbitrary: fuel rest)
  case (SimpleString s)
  then show ?case by (simp add: parse_simple_def parse_line_line from_utf8_lossy_valid)
next
  case (Error s)
  then show ?case by (simp add: parse_error_def parse_line_line from_utf8_lossy_valid)
next
  case (Integer n)
  then show ?case by (simp add: parse_int_def parse_int_line)
next
  case (BulkString r)
  show ?case
  proof (cases r)
    case None
    have "str_parse_i64 [45, 49] = Some (- 1)" by (simp add: str_parse_i64_def parse_nat_def)
    with None show ?thesis by (simp add: parse_bulk_def parse_line_line [of 36 "[45, 49]", simplified] one_line_no_cr)
  next
    case (Some b)
    with BulkString(1) have "length b < 2 ^ 63" by simp
    with Some show ?thesis
      by (simp add: parse_bulk_def parse_count_line str_parse_i64_digits sint_of_nat_nonneg unat_of_nat_i64
          byte_slice_def Let_def numeral_3_eq_3)
  qed
next
  case (Array items)
  then obtain f where f: "fuel = Suc f" by (cases fuel) auto
  have len: "length items < 2 ^ 63" using Array.prems(1) assms(1) by simp
  have item: "parse_value cap fuel (serialize v @ rest') = Parsed (v, length (serialize v))" if "v \<in> set items" for v rest'
    unfolding f
    by (rule Array.IH [OF that])
      (use Array.prems that f length_serialize_item [OF that] in \<open>auto simp: list_all_iff\<close>)
  from parse_items_serialize [of items "parse_value cap fuel" "42 # dec_digits (length items) @ crlf" rest "[]", OF item]
  have "parse_items (parse_value cap fuel) (length items) (serialize (Array items) @ rest) (length (dec_digits (length items)) + 3) []
      = Parsed (items, length (serialize (Array items)))" by (simp add: numeral_3_eq_3)
  with Array.prems(1) len show ?case
    by (simp add: parse_array_def parse_count_line str_parse_i64_digits sint_of_nat_nonneg unat_of_nat_i64)
next
  case Null
  then show ?case by (simp add: parse_null_def parse_line_line [of 95 "[]", simplified] one_line_no_cr)
next
  case (Boolean b)
  then show ?case
    by (simp add: parse_bool_def parse_line_line [of 35 "[116]", simplified] parse_line_line [of 35 "[102]", simplified]
        one_line_no_cr bytes_of_def)
next
  case (Double x)
  then show ?case
    using f64_to_string_no_cr [of x] parse_f64_to_string [of x] by (simp add: parse_double_def parse_line_line one_line_no_cr)
next
  case (Map m)
  then obtain f where f: "fuel = Suc f" by (cases fuel) auto
  have len: "length m < 2 ^ 63" using Map.prems(1) assms(1) by simp
  have item: "parse_value cap fuel (serialize k @ rest') = Parsed (k, length (serialize k))
      \<and> parse_value cap fuel (serialize v @ rest') = Parsed (v, length (serialize v))" if "(k, v) \<in> set m" for k v rest'
    unfolding f using Map.IH [OF that, of _ f rest'] Map.prems that f length_serialize_pair [OF that]
    by (auto simp: list_all_iff)
  from parse_pairs_serialize [of m "parse_value cap fuel" "37 # dec_digits (length m) @ crlf" rest "[]", OF item]
  have "parse_pairs (parse_value cap fuel) (length m) (serialize (Map m) @ rest) (length (dec_digits (length m)) + 3) []
      = Parsed (m, length (serialize (Map m)))" by (simp add: numeral_3_eq_3)
  with Map.prems(1) len show ?case
    by (simp add: parse_map_def parse_count_line str_parse_i64_digits unat_of_nat_i64)
next
  case (Set items)
  then obtain f where f: "fuel = Suc f" by (cases fuel) auto
  have len: "length items < 2 ^ 63" using Set.prems(1) assms(1) by simp
  have item: "parse_value cap fuel (serialize v @ rest') = Parsed (v, length (serialize v))" if "v \<in> set items" for v rest'
    unfolding f
    by (rule Set.IH [OF that])
      (use Set.prems that f length_serialize_item [OF that] in \<open>auto simp: list_all_iff\<close>)
  from parse_items_serialize [of items "parse_value cap fuel" "126 # dec_digits (length items) @ crlf" rest "[]", OF item]
  have "parse_items (parse_value cap fuel) (length items) (serialize (Set items) @ rest) (length (dec_digits (length items)) + 3) []
      = Parsed (items, length (serialize (Set items)))" by (simp add: numeral_3_eq_3)
  with Set.prems(1) len show ?case
    by (simp add: parse_set_def parse_count_line str_parse_i64_digits unat_of_nat_i64)
qed

lemma parse_one_serialize:
  "cap < 2 ^ 63 \<Longrightarrow> resp_wf v cap \<Longrightarrow> parse_one cap (serialize v @ rest) = Parsed (v, length (serialize v))"
  unfolding parse_one_def by (rule parse_value_serialize) auto

text \<open>A client's command, and several of them one after the other.\<close>

definition encode_command :: "bytes list \<Rightarrow> bytes" where
  "encode_command args = serialize (Array (map bulk args))"

definition command_wf :: "nat \<Rightarrow> bytes list \<Rightarrow> bool" where
  "command_wf cap args \<longleftrightarrow> length args \<le> cap \<and> (\<forall>a \<in> set args. length a < 2 ^ 63)"

lemma parse_cmd_encode:
  assumes "cap < 2 ^ 63" and "command_wf cap args"
  shows "parse_cmd cap (encode_command args @ rest) = Parsed (args, length (encode_command args))"
proof -
  have "resp_wf (Array (map bulk args)) cap"
    using assms(2) by (auto simp: command_wf_def list_all_iff)
  from parse_one_serialize [OF assms(1) this, of rest] show ?thesis
    by (simp add: parse_cmd_def encode_command_def cmd_arg_def comp_def del: serialize_simps)
qed

interpretation cmd_parser: message_parser "parse_cmd cap" for cap
proof (rule message_parserI)
  show "0 < n \<and> n \<le> length data" if "parse_cmd cap data = Parsed (v, n)" for data v n
  proof -
    from that obtain val m where val: "parse_one cap data = Parsed (val, m)"
      by (auto simp: parse_cmd_def parse_bind_eq_Parsed)
    with that have "m = n" by (cases val) (auto simp: parse_cmd_def split: option.splits)
    with one_parser.bounded [OF val] show ?thesis by simp
  qed
  show "parse_cmd cap (data @ ext) = r" if "parse_cmd cap data = r" "r \<noteq> Incomplete" for data ext r
    using that one_parser.stable [OF refl, of cap data ext] unfolding parse_cmd_def
    by (cases "parse_one cap data") auto
qed

lemma cmd_prefix_incomplete:
  assumes "cap < 2 ^ 63" and "command_wf cap args" and "k < length (encode_command args)"
  shows "parse_cmd cap (take k (encode_command args)) = Incomplete"
proof (rule cmd_parser.prefix_incomplete)
  show "parse_cmd cap (take k (encode_command args) @ drop k (encode_command args))
      = Parsed (args, length (take k (encode_command args) @ drop k (encode_command args)))"
    using parse_cmd_encode [OF assms(1,2), of "[]"] by simp
qed (use assms(3) in simp)

section \<open>Properties\<close>

text \<open>C25: A value that the serializer writes is read back by the parser, with exactly the bytes it was
  written to consumed and whatever follows left alone, for every nesting of values that meet these
  conditions: simple strings and errors are valid UTF-8 without a line break, doubles are not NaN, bulk
  strings are shorter than \<open>2 ^ 63\<close> bytes and aggregates can be allocated. The program does not enforce
  the first one: an error can carry a line break of the request, and is then cut there
  (\<open>error_line_break\<close> below).\<close>

theorem resp_roundtrip:
  assumes "cap < 2 ^ 63" and "resp_wf v cap"
  shows "parse_one cap (serialize v @ rest) = Parsed (v, length (serialize v))"
  by (rule parse_one_serialize [OF assms])

theorem resp_roundtrip_witness:
  "parse_one 10 (serialize (Array [Integer 5, Map [(SimpleString ''ok'', Boolean True)], bulk [13, 10]]) @ [1])
    = Parsed (Array [Integer 5, Map [(SimpleString ''ok'', Boolean True)], bulk [13, 10]],
        length (serialize (Array [Integer 5, Map [(SimpleString ''ok'', Boolean True)], bulk [13, 10]])))"
  by (rule resp_roundtrip) (simp_all add: one_line_def bytes_of_def utf8_valid_ascii)

text \<open>An error whose text contains a line break, as the one for an unknown command whose name has one, is
  written as it is; the reader takes the part before the break for the whole error, and the rest for the
  beginning of the next message.\<close>

lemma error_line_break:
  assumes "one_line (45 # bytes_of a)" and "utf8_valid (bytes_of a)"
  shows "parse_one cap (serialize (Error (a @ [CHR 0x0D, CHR 0x0A] @ b)) @ rest) = Parsed (Error a, length a + 3)"
proof -
  have "serialize (Error (a @ [CHR 0x0D, CHR 0x0A] @ b)) @ rest = 45 # bytes_of a @ 13 # 10 # bytes_of b @ crlf @ rest"
    by (simp add: bytes_of_def)
  then show ?thesis using assms by (simp add: parse_one_def parse_error_def parse_line_line from_utf8_lossy_valid)
qed

text \<open>C26: A message consumes at least one byte and no more than there are, and data that arrives later
  does not change what was read.\<close>

theorem parse_bounds:
  assumes "parse_one cap data = Parsed (v, n)"
  shows "0 < n \<and> n \<le> length data \<and> parse_one cap (data @ ext) = Parsed (v, n)"
  using one_parser.bounded [OF assms] one_parser.stable [OF assms] by simp

theorem parse_bounds_witness: "parse_one 10 ([43, 65, 13, 10] @ [36]) = Parsed (SimpleString (string_of [65]), 4)"
  using parse_bounds [of 10 "[43, 65, 13, 10]" "SimpleString (string_of [65])" 4 "[36]"]
  by (simp add: parse_one_def parse_simple_def parse_line_def byte_slice_def from_utf8_lossy_valid utf8_valid_ascii)

text \<open>The commands of a client are framed correctly however the network cuts the stream: the
  parser waits on every strict prefix of a command, and once the command is complete returns its
  arguments and its length, whatever follows.\<close>

theorem command_framing:
  assumes "cap < 2 ^ 63" and "command_wf cap args"
  shows "parse_cmd cap (encode_command args @ rest) = Parsed (args, length (encode_command args))
    \<and> (\<forall>k < length (encode_command args). parse_cmd cap (take k (encode_command args)) = Incomplete)"
  using parse_cmd_encode [OF assms] cmd_prefix_incomplete [OF assms] by blast

theorem command_framing_witness:
  "parse_cmd 10 (encode_command [[71], []] @ [42]) = Parsed ([[71], []], length (encode_command [[71], []]))"
  using command_framing [of 10 "[[71], []]" "[42]"] by (simp add: command_wf_def)

text \<open>C27: A map or a set announced with a negative size makes the parser panic, since the size is
  turned into a huge capacity before the loop that would read nothing; for an array the size is tested.\<close>

theorem negative_count_crash:
  assumes "cap < 2 ^ 63" and "sint n < 0"
  shows "parse_one cap (37 # i64_to_string n @ crlf @ rest) = Crash
    \<and> parse_one cap (126 # i64_to_string n @ crlf @ rest) = Crash
    \<and> parse_one cap (42 # i64_to_string n @ crlf @ rest) = Parsed (Null, length (i64_to_string n) + 3)"
proof -
  have "cap < unat n" using assms(1) unat_negative [OF assms(2)] by linarith
  with assms(2) show ?thesis
    by (simp add: parse_one_def parse_map_def parse_set_def parse_array_def parse_int_line)
qed

theorem negative_count_crash_witness: "parse_one 1000 (bytes_of ''%-1'' @ crlf @ []) = Crash"
proof -
  have "sint (- 1 :: i64) = - 1" by simp
  then have "i64_to_string (- 1) = bytes_of ''-1''" by (simp add: i64_to_string_def dec_digits.simps bytes_of_def)
  with negative_count_crash [of 1000 "- 1" "[]"] show ?thesis by (simp add: bytes_of_def)
qed

end
