(* ===== verification/Kv_Config.thy ===== *)
theory Kv_Config
  imports Kv_Encoding Rust_Std
begin

text \<open>
  The configuration of \<open>src/src/config.rs\<close>: the records with their defaults, the validation, the
  adjustment of the block cache and the manager, whose state is the configuration in force.

  The parameter \<open>mem\<close> is what \<open>sysinfo\<close> returns for \<open>System::total_memory\<close>, in bytes. Reading the
  configuration file and the TOML and YAML parsers are parameters of \<open>load\<close>. The sums and products of
  \<open>validate\<close> are those of 64-bit words and wrap around.
\<close>

section \<open>Definitions\<close>

type_synonym i32 = "32 word"

definition MIB :: u64 where "MIB = 1024 * 1024"

definition GIB :: u64 where "GIB = 1024 * MIB"

definition DEFAULT_BLOCK_CACHE :: u64 where "DEFAULT_BLOCK_CACHE = 512 * MIB"

definition LOW_MEM_BLOCK_CACHE :: u64 where "LOW_MEM_BLOCK_CACHE = 256 * MIB"

definition LOW_MEM_THRESHOLD :: u64 where "LOW_MEM_THRESHOLD = 8 * GIB"

datatype compression_type = CompressionNone | Snappy | Lz4 | Zstd

record server_config =
  bind :: string
  unix_socket :: "string option"
  worker_threads :: "nat option"
  maxclients :: i64
  tcp_keepalive :: u64
  timeout :: u64
  http_bind :: string
  server_namespace :: string

definition server_config_default :: server_config where
  "server_config_default = \<lparr>
     bind = ''127.0.0.1:6379'',
     unix_socket = None,
     worker_threads = None,
     maxclients = 10000,
     tcp_keepalive = 300,
     timeout = 0,
     http_bind = ''127.0.0.1:8080'',
     server_namespace = ''''\<rparr>"

record storage_config =
  db_path :: string
  wal_dir :: "string option"
  max_open_files :: i32
  write_buffer_size :: u64
  max_write_buffer_number :: i32
  min_write_buffer_number_to_merge :: i32
  target_file_size_base :: u64
  max_bytes_for_level_base :: u64
  level_compaction_dynamic_level_bytes :: bool
  compression :: compression_type
  bottommost_compression :: compression_type
  block_cache_size :: u64
  cache_index_and_filter_blocks :: bool
  wal_bytes_limit :: u64
  max_background_jobs :: i32
  max_subcompactions :: u32
  enable_pipelined_write :: bool
  use_fsync :: bool

definition storage_config_default :: storage_config where
  "storage_config_default = \<lparr>
     db_path = ''./data'',
     wal_dir = None,
     max_open_files = - 1,
     write_buffer_size = 64 * MIB,
     max_write_buffer_number = 6,
     min_write_buffer_number_to_merge = 2,
     target_file_size_base = 64 * MIB,
     max_bytes_for_level_base = 256 * MIB,
     level_compaction_dynamic_level_bytes = True,
     compression = Lz4,
     bottommost_compression = Zstd,
     block_cache_size = DEFAULT_BLOCK_CACHE,
     cache_index_and_filter_blocks = True,
     wal_bytes_limit = 64 * MIB,
     max_background_jobs = 4,
     max_subcompactions = 2,
     enable_pipelined_write = True,
     use_fsync = False\<rparr>"

record config =
  server :: server_config
  storage :: storage_config
  log_level :: string
  dynamic_config :: bool
  config_file :: "string option"

definition config_default :: config where
  "config_default = \<lparr>server = server_config_default, storage = storage_config_default,
     log_level = ''info'', dynamic_config = True, config_file = None\<rparr>"

definition merge :: "config \<Rightarrow> config \<Rightarrow> config" where
  "merge self other = self\<lparr>server := server other, storage := storage other,
     log_level := log_level other, dynamic_config := dynamic_config other\<rparr>"

definition total_mem :: "u64 \<Rightarrow> u64" where
  "total_mem mem = mem * 1024"

definition memory_budget :: "config \<Rightarrow> u64" where
  "memory_budget self =
     (let write_buffer_total = write_buffer_size (storage self) * scast (max_write_buffer_number (storage self))
      in block_cache_size (storage self) + write_buffer_total)"

definition validate :: "u64 \<Rightarrow> config \<Rightarrow> kvdb_error + unit" where
  "validate mem self =
     (if write_buffer_size (storage self) = 0 then Inl (Config ''write_buffer_size must be > 0'')
      else if sint (max_write_buffer_number (storage self)) \<le> 0 then Inl (Config ''max_write_buffer_number must be > 0'')
      else if total_mem mem div 2 < memory_budget self then
        Inl (Config (''memory budget '' @ string_of (u64_to_string (memory_budget self)) @
          '' exceeds 50% of physical memory '' @ string_of (u64_to_string (total_mem mem))))
      else if sint (maxclients (server self)) \<le> 0 then Inl (Config ''maxclients must be > 0'')
      else if 255 < length (bytes_of (server_namespace (server self))) then
        Inl (Config (''namespace length '' @ string_of (dec_digits (length (bytes_of (server_namespace (server self))))) @
          '' exceeds u8 max 255; would be silently truncated''))
      else Inr ())"

definition adjust_for_memory :: "u64 \<Rightarrow> config \<Rightarrow> config" where
  "adjust_for_memory mem self =
     (if total_mem mem < LOW_MEM_THRESHOLD \<and> LOW_MEM_BLOCK_CACHE < block_cache_size (storage self)
      then self\<lparr>storage := storage self\<lparr>block_cache_size := LOW_MEM_BLOCK_CACHE\<rparr>\<rparr>
      else self)"

text \<open>\<open>ConfigManager::load\<close> and \<open>ConfigManager::update\<close>; the latter returns the configuration in force
  afterwards.\<close>

definition parse_config :: "(string \<Rightarrow> string + config) \<Rightarrow> (string \<Rightarrow> string + config) \<Rightarrow> string \<Rightarrow> kvdb_error + config" where
  "parse_config toml yaml content = (case toml content of
      Inr c \<Rightarrow> Inr c
    | Inl _ \<Rightarrow> (case yaml content of
          Inr c \<Rightarrow> Inr c
        | Inl e \<Rightarrow> Inl (Config (''failed to parse config file: '' @ e))))"

definition finish_load :: "u64 \<Rightarrow> config \<Rightarrow> kvdb_error + config" where
  "finish_load mem config =
     (let config = adjust_for_memory mem config
      in case validate mem config of Inl e \<Rightarrow> Inl e | Inr _ \<Rightarrow> Inr config)"

definition load :: "u64 \<Rightarrow> (string \<Rightarrow> kvdb_error + string) \<Rightarrow> (string \<Rightarrow> string + config) \<Rightarrow> (string \<Rightarrow> string + config)
    \<Rightarrow> string option \<Rightarrow> kvdb_error + config" where
  "load mem read_to_string toml yaml path = (case path of
      None \<Rightarrow> finish_load mem config_default
    | Some p \<Rightarrow>
        let config = config_default\<lparr>config_file := Some p\<rparr> in
        (case read_to_string p of
           Inl e \<Rightarrow> Inl e
         | Inr content \<Rightarrow> (case parse_config toml yaml content of
             Inl e \<Rightarrow> Inl e
           | Inr file_config \<Rightarrow> finish_load mem (merge config file_config))))"

definition update :: "u64 \<Rightarrow> config \<Rightarrow> config \<Rightarrow> (kvdb_error + unit) \<times> config" where
  "update mem config current =
     (let config = adjust_for_memory mem config
      in case validate mem config of Inl e \<Rightarrow> (Inl e, current) | Inr _ \<Rightarrow> (Inr (), config))"

section \<open>What validation guarantees\<close>

text \<open>The memory the caches and buffers can take, as a number.\<close>

definition real_budget :: "config \<Rightarrow> nat" where
  "real_budget c = unat (block_cache_size (storage c))
     + unat (write_buffer_size (storage c)) * nat (sint (max_write_buffer_number (storage c)))"

text \<open>
  What the validation asks of a configuration, over numbers. The limit on the budget is the one the code
  has: \<open>mem\<close> is a number of bytes, which the program multiplies by 1024 once more, so half of the product
  is 512 times the memory of the machine.
\<close>

definition sound_config :: "u64 \<Rightarrow> config \<Rightarrow> bool" where
  "sound_config mem c \<longleftrightarrow> 0 < unat (write_buffer_size (storage c)) \<and> 0 < sint (max_write_buffer_number (storage c))
     \<and> 0 < sint (maxclients (server c)) \<and> length (bytes_of (server_namespace (server c))) \<le> 255
     \<and> real_budget c mod 2 ^ 64 \<le> (unat mem * 1024) mod 2 ^ 64 div 2"

text \<open>The block cache lowered to 256 MiB where the product is below 8 GiB.\<close>

definition lowered :: "u64 \<Rightarrow> config \<Rightarrow> config" where
  "lowered mem c = (if (unat mem * 1024) mod 2 ^ 64 < 2 ^ 33 \<and> 2 ^ 28 < unat (block_cache_size (storage c))
     then c\<lparr>storage := storage c\<lparr>block_cache_size := 2 ^ 28\<rparr>\<rparr> else c)"

lemma uint_scast_positive:
  assumes "0 < sint (n :: i32)"
  shows "uint (scast n :: u64) = sint n"
proof -
  have lt: "sint n < 2 ^ 31" using sint_less [of n] by simp
  have "uint (scast n :: u64) = take_bit 64 (sint n)" unfolding scast_eq uint_word_of_int_eq by simp
  also have "\<dots> = sint n" using assms lt by (intro take_bit_int_eq_self) simp_all
  finally show ?thesis .
qed

lemma unat_scast_positive: "0 < sint (n :: i32) \<Longrightarrow> unat (scast n :: u64) = nat (sint n)"
  by (drule uint_scast_positive) (simp only: unat_eq_nat_uint)

lemma memory_budget_mod:
  assumes "0 < sint (max_write_buffer_number (storage c))"
  shows "unat (memory_budget c) = real_budget c mod 2 ^ 64"
  using unat_scast_positive [OF assms]
  by (simp add: memory_budget_def real_budget_def Let_def unat_word_ariths mod_simps)

lemma unat_total_mem: "unat (total_mem mem) = (unat mem * 1024) mod 2 ^ 64"
  by (simp add: total_mem_def unat_word_ariths)

lemma validate_iff: "validate mem c = Inr () \<longleftrightarrow> sound_config mem c"
proof (cases "0 < sint (max_write_buffer_number (storage c))")
  case True
  have "total_mem mem div 2 < memory_budget c \<longleftrightarrow> (unat mem * 1024) mod 2 ^ 64 div 2 < real_budget c mod 2 ^ 64"
    by (simp only: word_less_nat_alt unat_div unat_total_mem memory_budget_mod [OF True]) simp
  with True show ?thesis
    by (simp add: validate_def sound_config_def unat_gt_0 not_less not_le)
qed (simp add: validate_def sound_config_def)

lemma validate_Inl: "validate mem c = Inl e \<Longrightarrow> \<exists>m. e = Config m"
  by (auto simp: validate_def split: if_splits)

lemma adjust_for_memory_lowered: "adjust_for_memory mem c = lowered mem c"
proof -
  have "total_mem mem < LOW_MEM_THRESHOLD \<longleftrightarrow> (unat mem * 1024) mod 2 ^ 64 < 2 ^ 33"
    by (simp only: word_less_nat_alt unat_total_mem) (simp add: LOW_MEM_THRESHOLD_def GIB_def MIB_def)
  moreover have "LOW_MEM_BLOCK_CACHE < x \<longleftrightarrow> 2 ^ 28 < unat x" for x
    by (simp add: word_less_nat_alt LOW_MEM_BLOCK_CACHE_def MIB_def)
  moreover have "LOW_MEM_BLOCK_CACHE = 2 ^ 28" by (simp add: LOW_MEM_BLOCK_CACHE_def MIB_def)
  ultimately show ?thesis by (simp add: adjust_for_memory_def lowered_def)
qed

lemma update_exact:
  "if sound_config mem (lowered mem config) then update mem config current = (Inr (), lowered mem config)
   else \<exists>e. update mem config current = (Inl (Config e), current)"
  using validate_iff [of mem "lowered mem config"] validate_Inl [of mem "lowered mem config"]
  by (cases "validate mem (lowered mem config)") (auto simp: update_def Let_def adjust_for_memory_lowered)

lemma update_sound: "sound_config mem current \<Longrightarrow> sound_config mem (snd (update mem config current))"
  using update_exact [of mem config current] by (auto split: if_splits)

lemma load_sound: "load mem rd toml yaml path = Inr c \<Longrightarrow> sound_config mem c"
  using validate_iff
  by (auto simp: load_def finish_load_def Let_def split: option.splits sum.splits)

text \<open>The configuration in force after a sequence of updates.\<close>

definition updates :: "u64 \<Rightarrow> config list \<Rightarrow> config \<Rightarrow> config" where
  "updates mem cs current = fold (\<lambda>c current. snd (update mem c current)) cs current"

lemma updates_sound: "sound_config mem current \<Longrightarrow> sound_config mem (updates mem cs current)"
  unfolding updates_def by (induction cs arbitrary: current) (simp_all add: update_sound)

section \<open>Properties\<close>

text \<open>C28: Whatever file the server is started with and whatever updates follow, the configuration in
  force is sound: positive buffers and client limit, a namespace of at most 255 bytes (which the key
  encoding relies on), and a sum of caches and buffers, taken modulo \<open>2 ^ 64\<close>, of at most 512 times the
  bytes of memory \<open>sysinfo\<close> reports. An update first lowers the block cache to 256 MiB when 1024 times
  the reported memory is below 8 GiB, and is then accepted exactly when the result is sound; otherwise
  it is refused with a configuration error and leaves the configuration as it was. The code means the
  limits as half of the memory and as 8 GiB of memory: it takes the bytes that \<open>sysinfo\<close> reports for
  kilobytes.\<close>

theorem config_in_force:
  assumes "load mem rd toml yaml path = Inr c"
  shows "sound_config mem (updates mem cs c)
    \<and> (\<forall>c'. if sound_config mem (lowered mem c') then update mem c' (updates mem cs c) = (Inr (), lowered mem c')
         else (\<exists>e. update mem c' (updates mem cs c) = (Inl (Config e), updates mem cs c)))"
  using updates_sound [OF load_sound [OF assms]] update_exact by blast

lemma load_default: "load (2 ^ 24) (\<lambda>_. Inl NotInteger) Inl Inl None = Inr config_default"
  by (simp add: load_def finish_load_def adjust_for_memory_def validate_def config_default_def memory_budget_def
      server_config_default_def storage_config_default_def total_mem_def LOW_MEM_THRESHOLD_def GIB_def MIB_def
      DEFAULT_BLOCK_CACHE_def LOW_MEM_BLOCK_CACHE_def Let_def bytes_of_def)

theorem config_in_force_witness:
  "sound_config (2 ^ 24) (updates (2 ^ 24) [config_default] config_default)
   \<and> (\<exists>e. update (2 ^ 24) (config_default\<lparr>storage := storage_config_default\<lparr>block_cache_size := 2 ^ 33\<rparr>\<rparr>)
       (updates (2 ^ 24) [] config_default) = (Inl (Config e), updates (2 ^ 24) [] config_default))"
proof -
  have "\<not> sound_config (2 ^ 24) (lowered (2 ^ 24) (config_default\<lparr>storage := storage_config_default\<lparr>block_cache_size := 2 ^ 33\<rparr>\<rparr>))"
    by (simp add: sound_config_def lowered_def real_budget_def config_default_def storage_config_default_def MIB_def)
  then show ?thesis
    using config_in_force [OF load_default, of "[config_default]", THEN conjunct1]
      config_in_force [OF load_default, of "[]", THEN conjunct2, THEN spec,
        of "config_default\<lparr>storage := storage_config_default\<lparr>block_cache_size := 2 ^ 33\<rparr>\<rparr>"]
    by (simp only: if_False simp_thms)
qed

text \<open>C29: The proviso on 64 bits is needed: write buffers of \<open>2 ^ 62\<close> bytes times four wrap around to
  nothing, and the validation accepts them on every machine that has room for the block cache.\<close>

theorem validate_overflow:
  assumes "block_cache_size (storage c) \<le> total_mem mem div 2" and "0 < sint (maxclients (server c))"
    and "length (bytes_of (server_namespace (server c))) \<le> 255"
    and "storage c' = storage c\<lparr>write_buffer_size := 2 ^ 62, max_write_buffer_number := 4\<rparr>" and "server c' = server c"
  shows "validate mem c' = Inr () \<and> 2 ^ 64 \<le> real_budget c'"
proof -
  have "memory_budget c' = block_cache_size (storage c)" using assms(4) by (simp add: memory_budget_def)
  with assms show ?thesis by (simp add: validate_def real_budget_def)
qed

theorem validate_overflow_witness:
  "validate (2 ^ 24) (config_default\<lparr>storage := storage_config_default\<lparr>write_buffer_size := 2 ^ 62, max_write_buffer_number := 4\<rparr>\<rparr>) = Inr ()"
proof -
  have "block_cache_size (storage config_default) \<le> total_mem (2 ^ 24) div 2"
    by (simp add: config_default_def storage_config_default_def total_mem_def DEFAULT_BLOCK_CACHE_def MIB_def)
  moreover have "0 < sint (maxclients (server config_default))" "length (bytes_of (server_namespace (server config_default))) \<le> 255"
    by (simp_all add: config_default_def server_config_default_def bytes_of_def)
  ultimately show ?thesis
    using validate_overflow [of config_default "2 ^ 24"
      "config_default\<lparr>storage := storage_config_default\<lparr>write_buffer_size := 2 ^ 62, max_write_buffer_number := 4\<rparr>\<rparr>"]
    by (simp add: config_default_def)
qed

end
