(* ===== verification/Kv_Cluster.thy ===== *)
theory Kv_Cluster
  imports Cmd_Context
begin

text \<open>
  The cluster state of \<open>src/src/cluster.rs\<close>: the hash slot of a key, the assignment of slots to nodes
  and the ranges that \<open>CLUSTER SLOTS\<close> reports.

  The checksum of the \<open>crc16\<close> crate is the parameter \<open>crc\<close>. A \<open>HashMap\<close> is a map, and the order in
  which it is iterated is the parameter \<open>order\<close>, which is only known to enumerate the keys of the map.
\<close>

section \<open>Definitions\<close>

definition CLUSTER_SLOT_COUNT :: u16 where
  "CLUSTER_SLOT_COUNT = 16384"

datatype cluster_node_role = NodeMaster | NodeReplica

record cluster_node =
  node_id :: string
  node_addr :: string
  node_role :: cluster_node_role

record cluster_state =
  slots :: "u16 \<rightharpoonup> string"
  nodes_map :: "string \<rightharpoonup> cluster_node"

definition cluster_new :: cluster_state where
  "cluster_new = \<lparr>slots = Map.empty, nodes_map = Map.empty\<rparr>"

primrec position :: "'a \<Rightarrow> 'a list \<Rightarrow> nat option" where
  "position x [] = None"
| "position x (y # ys) = (if y = x then Some 0 else map_option Suc (position x ys))"

definition hash_tag :: "bytes \<Rightarrow> bytes" where
  "hash_tag key =
     (let (start, stop) = (case position 123 key of
          Some start \<Rightarrow> (case position 125 (drop start key) of
              Some len \<Rightarrow> if 1 < len then (start + 1, start + len) else (0, length key)
            | None \<Rightarrow> (0, length key))
        | None \<Rightarrow> (0, length key))
      in byte_slice start stop key)"

definition key_slot :: "(bytes \<Rightarrow> u16) \<Rightarrow> bytes \<Rightarrow> u16" where
  "key_slot crc key = crc (hash_tag key) mod CLUSTER_SLOT_COUNT"

definition assign_slot :: "u16 \<Rightarrow> string \<Rightarrow> cluster_state \<Rightarrow> cluster_state" where
  "assign_slot slot node self = self\<lparr>slots := (slots self)(slot \<mapsto> node)\<rparr>"

definition slot_node :: "cluster_state \<Rightarrow> u16 \<Rightarrow> string option" where
  "slot_node self slot = slots self slot"

definition add_node :: "cluster_node \<Rightarrow> cluster_state \<Rightarrow> cluster_state" where
  "add_node node self = self\<lparr>nodes_map := (nodes_map self)(node_id node \<mapsto> node)\<rparr>"

definition nodes :: "((string \<rightharpoonup> cluster_node) \<Rightarrow> string list) \<Rightarrow> cluster_state \<Rightarrow> cluster_node list" where
  "nodes order self = map (\<lambda>k. the (nodes_map self k)) (order (nodes_map self))"

fun range_loop :: "(u16 \<times> string) list \<Rightarrow> u16 \<Rightarrow> u16 \<Rightarrow> string \<Rightarrow> (u16 \<times> u16 \<times> string) list
    \<Rightarrow> (u16 \<times> u16 \<times> string) list" where
  "range_loop [] start stop current_node ranges = ranges @ [(start, stop, current_node)]"
| "range_loop ((slot, node) # rest) start stop current_node ranges =
     (if slot = stop + 1 \<and> node = current_node then range_loop rest start slot current_node ranges
      else range_loop rest slot slot node (ranges @ [(start, stop, current_node)]))"

definition slots_ranges :: "((u16 \<rightharpoonup> string) \<Rightarrow> u16 list) \<Rightarrow> cluster_state \<Rightarrow> (u16 \<times> u16 \<times> string) list" where
  "slots_ranges order self =
     (if order (slots self) = [] then [(0, CLUSTER_SLOT_COUNT - 1, ''127.0.0.1:6379'')]
      else (case sort_key fst (map (\<lambda>k. (k, the (slots self k))) (order (slots self))) of
          [] \<Rightarrow> []
        | (slot, node) # rest \<Rightarrow> range_loop rest slot slot node []))"

fun split_on :: "char \<Rightarrow> string \<Rightarrow> string list" where
  "split_on c [] = [[]]"
| "split_on c (x # xs) = (if x = c then [] # split_on c xs
     else (case split_on c xs of [] \<Rightarrow> [[x]] | part # parts \<Rightarrow> (x # part) # parts))"

definition slots_range_to_resp :: "u16 \<Rightarrow> u16 \<Rightarrow> string \<Rightarrow> resp_value" where
  "slots_range_to_resp start stop addr =
     (let parts = split_on (CHR '':'') addr;
          host = (case parts of [] \<Rightarrow> ''127.0.0.1'' | p # _ \<Rightarrow> p);
          port = (case parts of
              _ # p # _ \<Rightarrow> (case str_parse_i64 (bytes_of p) of Some n \<Rightarrow> n | None \<Rightarrow> 6379)
            | _ \<Rightarrow> 6379)
      in Array [Integer (ucast start), Integer (ucast stop),
           Array [bulk (bytes_of host), Integer port, bulk (bytes_of ''0000000000000000000000000000000000000000'')]])"

section \<open>Hash slots\<close>

lemma position_append: "x \<notin> set xs \<Longrightarrow> position x (xs @ x # ys) = Some (length xs)"
  by (induction xs) auto

lemma position_None: "position x xs = None \<longleftrightarrow> x \<notin> set xs"
  by (induction xs) auto

lemma hash_tag_braces:
  assumes "123 \<notin> set pre" and "125 \<notin> set tag" and "tag \<noteq> []"
  shows "hash_tag (pre @ 123 # tag @ 125 # post) = tag"
proof -
  have "position 125 (123 # tag @ 125 # post) = Some (Suc (length tag))"
    using position_append [OF assms(2)] by simp
  then show ?thesis
    using assms position_append [OF assms(1)] by (simp add: hash_tag_def byte_slice_def)
qed

lemma hash_tag_plain: "123 \<notin> set key \<Longrightarrow> hash_tag key = key"
  by (simp add: hash_tag_def byte_slice_def position_None [THEN iffD2])

section \<open>Slot ranges\<close>

text \<open>The slots a list of ranges assigns to nodes.\<close>

definition covers :: "(u16 \<times> u16 \<times> string) list \<Rightarrow> u16 \<Rightarrow> string \<Rightarrow> bool" where
  "covers ranges s n \<longleftrightarrow> (\<exists>a b. (a, b, n) \<in> set ranges \<and> a \<le> s \<and> s \<le> b)"

definition ordered_ranges :: "(u16 \<times> u16 \<times> string) list \<Rightarrow> bool" where
  "ordered_ranges ranges \<longleftrightarrow> (\<forall>(a, b, _) \<in> set ranges. a \<le> b)
     \<and> sorted_wrt (\<lambda>(_, b, _) (a, _, _). b < a) ranges
     \<and> successively (\<lambda>(_, b, n) (a, _, n'). \<not> (a = b + 1 \<and> n' = n)) ranges"

lemma range_loop_append: "range_loop rest a b n ranges = ranges @ range_loop rest a b n []"
proof (induction rest arbitrary: a b n ranges)
  case (Cons sn rest)
  obtain slot node where sn: "sn = (slot, node)" by (cases sn)
  show ?case
  proof (cases "slot = b + 1 \<and> node = n")
    case True
    then show ?thesis using Cons.IH [of a slot n ranges] sn by simp
  next
    case False
    then show ?thesis
      using Cons.IH [of slot slot node "ranges @ [(a, b, n)]"] Cons.IH [of slot slot node "[(a, b, n)]"] sn by auto
  qed
qed simp

lemma range_loop_Cons:
  "range_loop ((slot, node) # rest) a b n [] =
     (if slot = b + 1 \<and> node = n then range_loop rest a slot n [] else (a, b, n) # range_loop rest slot slot node [])"
  using range_loop_append [of rest slot slot node "[(a, b, n)]"] by simp

declare range_loop.simps(2) [simp del]

lemma covers_Cons: "covers ((a, b, n) # ranges) s m \<longleftrightarrow> (a \<le> s \<and> s \<le> b \<and> m = n) \<or> covers ranges s m"
  by (auto simp: covers_def)

lemma u16_less_Suc:
  assumes "(b :: u16) < b + 1"
  shows "s \<le> b + 1 \<longleftrightarrow> s \<le> b \<or> s = b + 1"
proof -
  have "1 + b \<noteq> 0" using assms by (auto simp: add.commute)
  from unatSuc [OF this] have "unat (b + 1) = unat b + 1" by (simp add: add.commute)
  then show ?thesis by (auto simp: word_le_nat_alt word_unat_eq_iff)
qed

lemma range_loop_head: "\<exists>b' rs. range_loop rest a b n [] = (a, b', n) # rs"
proof (induction rest arbitrary: b)
  case (Cons sn rest)
  then show ?case by (cases sn) (auto simp only: range_loop_Cons split: if_splits)
qed simp

lemma range_loop_covers:
  assumes "a \<le> b" and "\<forall>s \<in> fst ` set rest. b < s" and "sorted_wrt (<) (map fst rest)"
  shows "covers (range_loop rest a b n []) s m \<longleftrightarrow> (a \<le> s \<and> s \<le> b \<and> m = n) \<or> (s, m) \<in> set rest"
  using assms
proof (induction rest arbitrary: a b n)
  case (Cons sn rest)
  obtain slot node where sn: "sn = (slot, node)" by (cases sn)
  have lt: "b < slot" and tail: "\<forall>s \<in> fst ` set rest. slot < s" "sorted_wrt (<) (map fst rest)"
    using Cons.prems sn by auto
  show ?case
  proof (cases "slot = b + 1 \<and> node = n")
    case True
    have "covers (range_loop rest a slot n []) s m \<longleftrightarrow> (a \<le> s \<and> s \<le> slot \<and> m = n) \<or> (s, m) \<in> set rest"
      using Cons.prems(1) lt tail by (intro Cons.IH) auto
    moreover have "s \<le> slot \<longleftrightarrow> s \<le> b \<or> s = slot" using u16_less_Suc [of b s] True lt by simp
    ultimately show ?thesis using True Cons.prems(1) lt sn by (auto simp: range_loop_Cons)
  next
    case False
    have "covers (range_loop rest slot slot node []) s m \<longleftrightarrow> (s = slot \<and> m = node) \<or> (s, m) \<in> set rest"
      using Cons.IH [of slot slot node] tail by auto
    then show ?thesis using False sn by (auto simp: range_loop_Cons covers_Cons)
  qed
qed (auto simp: covers_def)

lemma range_loop_starts: "(x, y, m) \<in> set (range_loop rest a b n []) \<Longrightarrow> x = a \<or> x \<in> fst ` set rest"
proof (induction rest arbitrary: a b n)
  case (Cons sn rest)
  then show ?case by (cases sn) (auto simp: range_loop_Cons split: if_splits)
qed simp

lemma range_loop_ordered:
  assumes "a \<le> b" and "\<forall>s \<in> fst ` set rest. b < s" and "sorted_wrt (<) (map fst rest)"
  shows "ordered_ranges (range_loop rest a b n [])"
  using assms
proof (induction rest arbitrary: a b n)
  case (Cons sn rest)
  obtain slot node where sn: "sn = (slot, node)" by (cases sn)
  have lt: "b < slot" and tail: "\<forall>s \<in> fst ` set rest. slot < s" "sorted_wrt (<) (map fst rest)"
    using Cons.prems sn by auto
  show ?case
  proof (cases "slot = b + 1 \<and> node = n")
    case True
    then show ?thesis using Cons.IH [of a slot n] Cons.prems(1) lt tail sn by (simp add: range_loop_Cons)
  next
    case False
    have ord: "ordered_ranges (range_loop rest slot slot node [])" using Cons.IH [of slot slot node] tail by simp
    obtain b' rs where hd: "range_loop rest slot slot node [] = (slot, b', node) # rs"
      using range_loop_head by blast
    have "b < x" if "(x, y, m) \<in> set (range_loop rest slot slot node [])" for x y m
      using range_loop_starts [OF that] lt tail by (auto intro: less_trans)
    with ord hd False Cons.prems(1) show ?thesis
      by (auto simp: sn range_loop_Cons ordered_ranges_def)
  qed
qed (simp add: ordered_ranges_def)

text \<open>The assigned slots in order.\<close>

definition slot_list :: "((u16 \<rightharpoonup> string) \<Rightarrow> u16 list) \<Rightarrow> (u16 \<rightharpoonup> string) \<Rightarrow> (u16 \<times> string) list" where
  "slot_list order m = sort_key fst (map (\<lambda>k. (k, the (m k))) (order m))"

lemma slot_list:
  assumes "set (order m) = dom m" and "distinct (order m)"
  shows "set (slot_list order m) = {(k, v). m k = Some v}" and "sorted_wrt (<) (map fst (slot_list order m))"
proof -
  show "set (slot_list order m) = {(k, v). m k = Some v}"
    using assms(1) by (force simp: slot_list_def)
  have "distinct (map fst (slot_list order m))"
    using assms(2) by (simp add: slot_list_def distinct_map inj_on_def comp_def)
  then show "sorted_wrt (<) (map fst (slot_list order m))"
    by (simp add: strict_sorted_iff slot_list_def)
qed

lemma slots_ranges_list:
  assumes "slot_list order (slots c) = (s, n) # rest"
  shows "slots_ranges order c = range_loop rest s s n []"
  using assms by (auto simp: slots_ranges_def slot_list_def)

section \<open>Properties\<close>

text \<open>The slot of a key is one of the 16384 slots, and keys with the same hash tag, the text between
  the first opening brace and the next closing one, are in the same slot, that of the tag.\<close>

theorem key_slot_by_tag:
  assumes "123 \<notin> set pre" and "123 \<notin> set pre'" and "125 \<notin> set tag" and "tag \<noteq> []"
  shows "key_slot crc (pre @ 123 # tag @ 125 # post) = key_slot crc (pre' @ 123 # tag @ 125 # post')
    \<and> key_slot crc (pre @ 123 # tag @ 125 # post) = crc tag mod 16384
    \<and> unat (key_slot crc key) < 16384"
proof -
  have "unat (crc (hash_tag key) mod 16384) = unat (crc (hash_tag key)) mod 16384" by (simp add: unat_mod)
  with assms show ?thesis by (simp add: key_slot_def CLUSTER_SLOT_COUNT_def hash_tag_braces)
qed

theorem key_slot_by_tag_witness:
  "key_slot (\<lambda>bs. of_nat (sum_list (map unat bs))) ([97] @ 123 # [98] @ 125 # [99])
    = key_slot (\<lambda>bs. of_nat (sum_list (map unat bs))) ([] @ 123 # [98] @ 125 # [])"
  using key_slot_by_tag [of "[97]" "[]" "[98]" "\<lambda>bs. of_nat (sum_list (map unat bs))" "[99]" "[]"] by simp

text \<open>C32: The ranges that \<open>CLUSTER SLOTS\<close> reports are exact once a slot is assigned: a slot lies in
  a range of a node if and only if it is assigned to this node. They come in order, do not overlap and
  cannot be joined. Without any assignment one range gives all slots to the local node.\<close>

theorem slots_ranges_exact:
  assumes "set (order (slots c)) = dom (slots c)" and "distinct (order (slots c))"
  shows "if slots c = Map.empty then slots_ranges order c = [(0, 16383, ''127.0.0.1:6379'')]
    else (\<forall>s n. covers (slots_ranges order c) s n \<longleftrightarrow> slot_node c s = Some n) \<and> ordered_ranges (slots_ranges order c)"
proof (cases "slot_list order (slots c)")
  case Nil
  then have "slots c = Map.empty" using slot_list(1) [of order "slots c", OF assms] by auto
  moreover from this assms(1) have "order (slots c) = []" by simp
  ultimately show ?thesis by (simp add: slots_ranges_def CLUSTER_SLOT_COUNT_def)
next
  case (Cons sn rest)
  obtain s n where sn: "sn = (s, n)" by (cases sn)
  have ne: "slots c \<noteq> Map.empty" using slot_list(1) [of order "slots c", OF assms] Cons sn by auto
  have above: "\<forall>s' \<in> fst ` set rest. s < s'" "sorted_wrt (<) (map fst rest)"
    using slot_list(2) [of order "slots c", OF assms] Cons sn by auto
  have "covers (range_loop rest s s n []) s' n' \<longleftrightarrow> slot_node c s' = Some n'" for s' n'
  proof -
    have "covers (range_loop rest s s n []) s' n' \<longleftrightarrow> (s', n') \<in> set (slot_list order (slots c))"
      unfolding range_loop_covers [OF order_refl above] using Cons sn by auto
    then show ?thesis unfolding slot_list(1) [of order "slots c", OF assms] by (simp add: slot_node_def)
  qed
  with ne range_loop_ordered [OF order_refl above] slots_ranges_list [of order c s n rest] Cons sn show ?thesis by simp
qed

theorem slots_ranges_exact_witness:
  "covers (slots_ranges (\<lambda>m. filter (\<lambda>k. m k \<noteq> None) [3, 2, 1])
     (assign_slot 3 ''b'' (assign_slot 2 ''a'' (assign_slot 1 ''a'' cluster_new)))) 2 ''a''"
proof -
  define c where "c = assign_slot 3 ''b'' (assign_slot 2 ''a'' (assign_slot 1 ''a'' cluster_new))"
  have m: "slots c = [1 \<mapsto> ''a'', 2 \<mapsto> ''a'', 3 \<mapsto> ''b'']" by (simp add: c_def assign_slot_def cluster_new_def)
  have ne: "slots c \<noteq> Map.empty" unfolding m by simp
  have "set (filter (\<lambda>k. slots c k \<noteq> None) [3, 2, 1]) = dom (slots c)"
    and "distinct (filter (\<lambda>k. slots c k \<noteq> None) [3, 2, 1])" unfolding m by auto
  from slots_ranges_exact [where order = "\<lambda>m. filter (\<lambda>k. m k \<noteq> None) [3, 2, 1]", OF this] ne
  have "covers (slots_ranges (\<lambda>m. filter (\<lambda>k. m k \<noteq> None) [3, 2, 1]) c) 2 ''a'' \<longleftrightarrow> slot_node c 2 = Some ''a''" by simp
  moreover have "slot_node c 2 = Some ''a''" unfolding slot_node_def m by simp
  ultimately show ?thesis unfolding c_def by blast
qed

end
