(* ===== verification/Kv_PubSub.thy ===== *)
theory Kv_PubSub
  imports Kv_Prelude
begin

text \<open>
  The publish/subscribe hub of \<open>src/src/pubsub.rs\<close>: for every channel the list of its subscribers, each a
  client with the sending end of its queue.

  The queues are those of \<open>tokio::sync::mpsc\<close>; sending is the parameter \<open>send\<close>, which takes the
  sending end, the event and the state of all queues and returns whether the event was accepted and the
  new state. What the hub relies on is the contract \<open>mpsc_contract\<close>: an unbounded queue accepts an event
  exactly when its receiver still exists, and appends it. The order in which \<open>DashMap\<close> is iterated is the
  parameter \<open>order\<close>.
\<close>

section \<open>Definitions\<close>

record publish_event =
  channel :: string
  message :: bytes

record 'tx hub =
  next_id :: u64
  subscribers :: "string \<rightharpoonup> (u64 \<times> 'tx) list"

definition hub_new :: "'tx hub" where
  "hub_new = \<lparr>next_id = 0, subscribers = Map.empty\<rparr>"

definition alloc_client_id :: "'tx hub \<Rightarrow> u64 \<times> 'tx hub" where
  "alloc_client_id self = (next_id self, self\<lparr>next_id := next_id self + 1\<rparr>)"

definition entry_of :: "(string \<rightharpoonup> (u64 \<times> 'tx) list) \<Rightarrow> string \<Rightarrow> (u64 \<times> 'tx) list" where
  "entry_of m ch = (case m ch of Some entry \<Rightarrow> entry | None \<Rightarrow> [])"

definition subscribe_step :: "u64 \<Rightarrow> 'tx \<Rightarrow> string \<Rightarrow> string list \<times> 'tx hub \<Rightarrow> string list \<times> 'tx hub" where
  "subscribe_step client tx ch = (\<lambda>(added, self).
     let entry = entry_of (subscribers self) ch in
     if list_ex (\<lambda>(i, _). i = client) entry
     then (added, self\<lparr>subscribers := (subscribers self)(ch \<mapsto> entry)\<rparr>)
     else (added @ [ch], self\<lparr>subscribers := (subscribers self)(ch \<mapsto> entry @ [(client, tx)])\<rparr>))"

definition subscribe :: "u64 \<Rightarrow> string list \<Rightarrow> 'tx \<Rightarrow> 'tx hub \<Rightarrow> string list \<times> 'tx hub" where
  "subscribe client chans tx self = fold (subscribe_step client tx) chans ([], self)"

definition retain :: "u64 \<Rightarrow> (u64 \<times> 'tx) list \<Rightarrow> (u64 \<times> 'tx) list" where
  "retain client entry = filter (\<lambda>(i, _). i \<noteq> client) entry"

definition unsubscribe_step :: "u64 \<Rightarrow> string \<Rightarrow> string list \<times> 'tx hub \<Rightarrow> string list \<times> 'tx hub" where
  "unsubscribe_step client ch = (\<lambda>(removed, self). case subscribers self ch of
      None \<Rightarrow> (removed, self)
    | Some entry \<Rightarrow>
        let kept = retain client entry in
        (if length kept < length entry then removed @ [ch] else removed,
         self\<lparr>subscribers := (subscribers self)(ch := if kept = [] then None else Some kept)\<rparr>))"

definition unsubscribe_all :: "((string \<rightharpoonup> (u64 \<times> 'tx) list) \<Rightarrow> string list) \<Rightarrow> u64 \<Rightarrow> 'tx hub \<Rightarrow> string list \<times> 'tx hub" where
  "unsubscribe_all order client self =
     (let m = subscribers self in
      (filter (\<lambda>ch. length (retain client (the (m ch))) < length (the (m ch))) (order m),
       self\<lparr>subscribers := (\<lambda>ch. case m ch of
           None \<Rightarrow> None
         | Some entry \<Rightarrow> if retain client entry = [] then None else Some (retain client entry))\<rparr>))"

definition unsubscribe :: "((string \<rightharpoonup> (u64 \<times> 'tx) list) \<Rightarrow> string list) \<Rightarrow> u64 \<Rightarrow> string list option \<Rightarrow> 'tx hub
    \<Rightarrow> string list \<times> 'tx hub" where
  "unsubscribe order client chans self = (case chans of
      Some list \<Rightarrow> fold (unsubscribe_step client) list ([], self)
    | None \<Rightarrow> unsubscribe_all order client self)"

definition publish_step :: "('tx \<Rightarrow> publish_event \<Rightarrow> 'q \<Rightarrow> bool \<times> 'q) \<Rightarrow> publish_event \<Rightarrow> u64 \<times> 'tx
    \<Rightarrow> nat \<times> u64 list \<times> 'q \<Rightarrow> nat \<times> u64 list \<times> 'q" where
  "publish_step send event = (\<lambda>(i, tx) (delivered, dead, q).
     case send tx event q of (ok, q') \<Rightarrow>
       if ok then (delivered + 1, dead, q') else (delivered, dead @ [i], q'))"

definition publish :: "('tx \<Rightarrow> publish_event \<Rightarrow> 'q \<Rightarrow> bool \<times> 'q) \<Rightarrow> string \<Rightarrow> bytes \<Rightarrow> 'tx hub \<Rightarrow> 'q \<Rightarrow> nat \<times> 'tx hub \<times> 'q" where
  "publish send ch msg self q =
     (let event = \<lparr>channel = ch, message = msg\<rparr>;
          (delivered, dead, q') = (case subscribers self ch of
              None \<Rightarrow> (0, [], q)
            | Some subs \<Rightarrow> fold (publish_step send event) subs (0, [], q));
          self' = (if dead \<noteq> [] then (case subscribers self ch of
              None \<Rightarrow> self
            | Some subs \<Rightarrow>
                let kept = filter (\<lambda>(i, _). i \<notin> set dead) subs in
                self\<lparr>subscribers := (subscribers self)(ch := if kept = [] then None else Some kept)\<rparr>)
            else self)
      in (delivered, self', q'))"

definition subscription_count :: "((string \<rightharpoonup> (u64 \<times> 'tx) list) \<Rightarrow> string list) \<Rightarrow> u64 \<Rightarrow> 'tx hub \<Rightarrow> nat" where
  "subscription_count order client self =
     length (filter (\<lambda>ch. list_ex (\<lambda>(i, _). i = client) (the (subscribers self ch))) (order (subscribers self)))"

section \<open>The hub as a relation between clients and channels\<close>

text \<open>No empty entries, and no client twice in one.\<close>

definition hub_wf :: "'tx hub \<Rightarrow> bool" where
  "hub_wf h \<longleftrightarrow> (\<forall>ch entry. subscribers h ch = Some entry \<longrightarrow> entry \<noteq> [] \<and> distinct (map fst entry))"

definition clients :: "'tx hub \<Rightarrow> string \<Rightarrow> u64 set" where
  "clients h ch = fst ` set (entry_of (subscribers h) ch)"

definition sender :: "'tx hub \<Rightarrow> string \<Rightarrow> u64 \<Rightarrow> 'tx option" where
  "sender h ch = map_of (entry_of (subscribers h) ch)"

lemma list_ex_client: "list_ex (\<lambda>(i, _). i = client) entry \<longleftrightarrow> client \<in> fst ` set entry"
  by (force simp: list_ex_iff)

lemma entry_of_update: "entry_of (m(ch := r)) ch' = (if ch' = ch then case_option [] id r else entry_of m ch')"
  by (simp add: entry_of_def split: option.splits)

lemma hub_wf_entry: "hub_wf h \<Longrightarrow> distinct (map fst (entry_of (subscribers h) ch))"
  by (auto simp: hub_wf_def entry_of_def split: option.splits)

lemma hub_wf_update:
  "hub_wf h \<Longrightarrow> distinct (map fst entry) \<Longrightarrow>
   hub_wf (h\<lparr>subscribers := (subscribers h)(ch := if entry = [] then None else Some entry)\<rparr>)"
  by (auto simp: hub_wf_def)

lemma clients_update:
  "clients (h\<lparr>subscribers := (subscribers h)(ch := if entry = [] then None else Some entry)\<rparr>)
     = (clients h)(ch := fst ` set entry)"
  by (auto simp: clients_def entry_of_update fun_eq_iff)

lemma fst_retain: "fst ` set (retain client entry) = fst ` set entry - {client}"
  by (force simp: retain_def)

lemma distinct_filter_fst: "distinct (map fst entry) \<Longrightarrow> distinct (map fst (filter P entry))"
  by (induction entry) auto

lemma length_retain: "length (retain client entry) < length entry \<longleftrightarrow> client \<in> fst ` set entry"
proof (induction entry)
  case (Cons x entry)
  then show ?case by (cases x) (auto simp: retain_def less_Suc_eq_le)
qed (simp add: retain_def)

section \<open>Operations on a list of channels\<close>

text \<open>What one step of subscribing and one step of unsubscribing have in common: it keeps the hub
  well-formed, applies \<open>g\<close> to the clients of one channel, and reports the channel if \<open>changes\<close> holds of
  them, which is not so any more afterwards. Then a list of channels is worked off as one would expect.\<close>

locale hub_operation =
  fixes step :: "string \<Rightarrow> string list \<times> 'tx hub \<Rightarrow> string list \<times> 'tx hub"
    and g :: "u64 set \<Rightarrow> u64 set"
    and changes :: "u64 set \<Rightarrow> bool"
  assumes step: "hub_wf h \<Longrightarrow> \<exists>h'. step ch (acc, h) = (if changes (clients h ch) then acc @ [ch] else acc, h')
      \<and> hub_wf h' \<and> clients h' = (clients h)(ch := g (clients h ch))"
    and settled: "\<not> changes (g S)"
    and idempotent: "g (g S) = g S"
begin

lemma steps:
  assumes "hub_wf h"
  shows "\<exists>new h'. fold step chans (acc, h) = (acc @ new, h') \<and> hub_wf h'
    \<and> clients h' = (\<lambda>ch. if ch \<in> set chans then g (clients h ch) else clients h ch)
    \<and> distinct new \<and> set new = {ch \<in> set chans. changes (clients h ch)}"
  using assms
proof (induction chans arbitrary: h acc)
  case (Cons c chans)
  let ?new = "if changes (clients h c) then [c] else []"
  from step [OF Cons.prems, of c acc] obtain h1
    where h1: "step c (acc, h) = (acc @ ?new, h1)" "hub_wf h1" "clients h1 = (clients h)(c := g (clients h c))"
    by (auto split: if_splits)
  from Cons.IH [OF h1(2), of "acc @ ?new"] obtain new h'
    where h': "fold step chans (acc @ ?new, h1) = ((acc @ ?new) @ new, h')" "hub_wf h'"
      "clients h' = (\<lambda>ch. if ch \<in> set chans then g (clients h1 ch) else clients h1 ch)"
      "distinct new" "set new = {ch \<in> set chans. changes (clients h1 ch)}" by blast
  have "fold step (c # chans) (acc, h) = (acc @ ?new @ new, h')" using h1(1) h'(1) by simp
  moreover have "clients h' = (\<lambda>ch. if ch \<in> set (c # chans) then g (clients h ch) else clients h ch)"
    using h'(3) h1(3) idempotent by (auto simp: fun_eq_iff)
  moreover have "distinct (?new @ new)" "set (?new @ new) = {ch \<in> set (c # chans). changes (clients h ch)}"
    using h'(4,5) h1(3) settled by auto
  ultimately show ?case using h'(2) by blast
qed auto

end

interpretation subscribing: hub_operation "subscribe_step client tx" "insert client" "\<lambda>S. client \<notin> S" for client tx
proof
  fix h :: "'a hub" and ch acc
  assume wf: "hub_wf h"
  let ?entry = "entry_of (subscribers h) ch"
  show "\<exists>h'. subscribe_step client tx ch (acc, h) = (if client \<notin> clients h ch then acc @ [ch] else acc, h')
      \<and> hub_wf h' \<and> clients h' = (clients h)(ch := insert client (clients h ch))"
  proof (cases "client \<in> clients h ch")
    case True
    then have "subscribers h ch \<noteq> None" by (cases "subscribers h ch") (auto simp: clients_def entry_of_def)
    then have "(subscribers h)(ch \<mapsto> ?entry) = subscribers h" by (auto simp: entry_of_def)
    moreover from True have "client \<in> fst ` set ?entry" by (simp add: clients_def)
    ultimately show ?thesis using True wf by (simp add: subscribe_step_def list_ex_client insert_absorb)
  next
    case False
    let ?h' = "h\<lparr>subscribers := (subscribers h)(ch \<mapsto> ?entry @ [(client, tx)])\<rparr>"
    have "hub_wf ?h'" "clients ?h' = (clients h)(ch := insert client (clients h ch))"
      using hub_wf_update [OF wf, of "?entry @ [(client, tx)]" ch] hub_wf_entry [OF wf, of ch] False
        clients_update [of h ch "?entry @ [(client, tx)]"]
      by (auto simp: clients_def)
    with False show ?thesis by (auto simp: subscribe_step_def list_ex_client clients_def)
  qed
qed auto

interpretation unsubscribing: hub_operation "unsubscribe_step client" "\<lambda>S. S - {client}" "\<lambda>S. client \<in> S" for client
proof
  fix h :: "'a hub" and ch acc
  assume wf: "hub_wf h"
  show "\<exists>h'. unsubscribe_step client ch (acc, h) = (if client \<in> clients h ch then acc @ [ch] else acc, h')
      \<and> hub_wf h' \<and> clients h' = (clients h)(ch := clients h ch - {client})"
  proof (cases "subscribers h ch")
    case None
    then have "clients h ch = {}" by (simp add: clients_def entry_of_def)
    with None wf show ?thesis by (simp add: unsubscribe_step_def fun_upd_idem)
  next
    case (Some entry)
    then have entry: "clients h ch = fst ` set entry" "distinct (map fst entry)"
      using hub_wf_entry [OF wf, of ch] by (simp_all add: clients_def entry_of_def)
    let ?h' = "h\<lparr>subscribers := (subscribers h)(ch := if retain client entry = [] then None else Some (retain client entry))\<rparr>"
    have "distinct (map fst (retain client entry))" using entry(2) by (simp add: retain_def distinct_filter_fst)
    from hub_wf_update [OF wf this, of ch] clients_update [of h ch "retain client entry"] entry
    have "hub_wf ?h'" "clients ?h' = (clients h)(ch := clients h ch - {client})" by (simp_all add: fst_retain)
    with Some entry(1) show ?thesis by (auto simp: unsubscribe_step_def Let_def length_retain)
  qed
qed auto

lemma subscribe_spec:
  assumes "hub_wf h"
  shows "\<exists>added h'. subscribe client chans tx h = (added, h') \<and> hub_wf h'
    \<and> clients h' = (\<lambda>ch. if ch \<in> set chans then insert client (clients h ch) else clients h ch)
    \<and> distinct added \<and> set added = {ch \<in> set chans. client \<notin> clients h ch}"
  using subscribing.steps [OF assms, of client tx chans "[]"] by (simp add: subscribe_def)

text \<open>The order of iteration enumerates the channels of the hub.\<close>

definition enumerates :: "((string \<rightharpoonup> (u64 \<times> 'tx) list) \<Rightarrow> string list) \<Rightarrow> 'tx hub \<Rightarrow> bool" where
  "enumerates order h \<longleftrightarrow> distinct (order (subscribers h)) \<and> set (order (subscribers h)) = dom (subscribers h)"

lemma clients_dom: "client \<in> clients h ch \<Longrightarrow> ch \<in> dom (subscribers h)"
  by (cases "subscribers h ch") (auto simp: clients_def entry_of_def)

lemma clients_the: "ch \<in> dom (subscribers h) \<Longrightarrow> clients h ch = fst ` set (the (subscribers h ch))"
  by (auto simp: clients_def entry_of_def)

lemma unsubscribe_all_spec:
  assumes "hub_wf h" and "enumerates order h" and "unsubscribe_all order client h = (removed, h')"
  shows "hub_wf h' \<and> clients h' = (\<lambda>ch. clients h ch - {client}) \<and> distinct removed \<and> set removed = {ch. client \<in> clients h ch}"
proof -
  have h': "subscribers h' = (\<lambda>ch. case subscribers h ch of None \<Rightarrow> None
      | Some entry \<Rightarrow> if retain client entry = [] then None else Some (retain client entry))"
    and removed: "removed = filter (\<lambda>ch. client \<in> fst ` set (the (subscribers h ch))) (order (subscribers h))"
    using assms(3) by (auto simp: unsubscribe_all_def Let_def length_retain)
  have "hub_wf h'"
    using assms(1) by (auto simp: hub_wf_def h' retain_def distinct_filter_fst split: option.splits if_splits)
  moreover have "clients h' ch = clients h ch - {client}" for ch
  proof (cases "subscribers h ch")
    case (Some entry)
    then show ?thesis using fst_retain [of client entry]
      by (cases "retain client entry = []") (simp_all add: clients_def entry_of_def h')
  qed (simp add: clients_def entry_of_def h')
  moreover have "set removed = {ch. client \<in> clients h ch}" "distinct removed"
    using assms(2) clients_dom [of client h] clients_the [of _ h] by (auto simp: enumerates_def removed)
  ultimately show ?thesis by auto
qed

lemma unsubscribe_spec:
  assumes "hub_wf h" and "enumerates order h"
  shows "\<exists>removed h'. unsubscribe order client chans h = (removed, h') \<and> hub_wf h'
    \<and> clients h' = (\<lambda>ch. if (case chans of Some list \<Rightarrow> ch \<in> set list | None \<Rightarrow> True) then clients h ch - {client} else clients h ch)
    \<and> distinct removed
    \<and> set removed = {ch. (case chans of Some list \<Rightarrow> ch \<in> set list | None \<Rightarrow> True) \<and> client \<in> clients h ch}"
proof (cases chans)
  case None
  obtain removed h' where u: "unsubscribe_all order client h = (removed, h')" by (cases "unsubscribe_all order client h")
  from unsubscribe_all_spec [OF assms u] None u show ?thesis by (simp add: unsubscribe_def)
next
  case (Some list)
  then show ?thesis using unsubscribing.steps [OF assms(1), of client list "[]"] by (simp add: unsubscribe_def)
qed

lemma subscription_count_card:
  assumes "enumerates order h"
  shows "subscription_count order client h = card {ch. client \<in> clients h ch}"
proof -
  have "{ch. client \<in> clients h ch} = set (filter (\<lambda>ch. client \<in> fst ` set (the (subscribers h ch))) (order (subscribers h)))"
    using assms clients_dom [of client h] clients_the [of _ h] by (auto simp: enumerates_def)
  moreover have "distinct (filter (\<lambda>ch. client \<in> fst ` set (the (subscribers h ch))) (order (subscribers h)))"
    using assms by (simp add: enumerates_def)
  from distinct_card [OF this] calculation show ?thesis by (simp only: subscription_count_def list_ex_client)
qed

section \<open>Publishing\<close>

lemma clients_filter:
  assumes "distinct (map fst subs)"
  shows "{c \<in> fst ` set subs. P (the (map_of subs c))} = fst ` set (filter (\<lambda>(_, t). P t) subs)"
    and "card (fst ` set (filter (\<lambda>(_, t). P t) subs)) = length (filter (\<lambda>(_, t). P t) subs)"
proof -
  show "{c \<in> fst ` set subs. P (the (map_of subs c))} = fst ` set (filter (\<lambda>(_, t). P t) subs)"
    using map_of_is_SomeI [OF assms] by force
  have "distinct (map fst (filter (\<lambda>(_, t). P t) subs))" by (rule distinct_filter_fst [OF assms])
  from distinct_card [OF this] show "card (fst ` set (filter (\<lambda>(_, t). P t) subs)) = length (filter (\<lambda>(_, t). P t) subs)"
    by simp
qed

text \<open>The subscribers of a channel whose queues are open.\<close>

definition live_clients :: "('q \<Rightarrow> 'tx \<Rightarrow> bool) \<Rightarrow> 'tx hub \<Rightarrow> 'q \<Rightarrow> string \<Rightarrow> u64 set" where
  "live_clients is_open h q ch = {c \<in> clients h ch. is_open q (the (sender h ch c))}"

lemma publish_unfold:
  assumes "fold (publish_step send \<lparr>channel = ch, message = msg\<rparr>) (entry_of (subscribers h) ch) (0, [], q) = (n, dead, q')"
    and "kept = filter (\<lambda>(i, _). i \<notin> set dead) (entry_of (subscribers h) ch)"
  shows "publish send ch msg h q = (n, if dead = [] then h
    else h\<lparr>subscribers := (subscribers h)(ch := if kept = [] then None else Some kept)\<rparr>, q')"
  using assms by (cases "subscribers h ch") (auto simp: publish_def entry_of_def)

lemma filter_not_dead:
  assumes "distinct (map fst subs)"
  shows "filter (\<lambda>(i, _). i \<notin> set (map fst (filter (\<lambda>(_, t). \<not> P t) subs))) subs = filter (\<lambda>(_, t). P t) subs"
proof (rule filter_cong [OF refl], clarify)
  fix i t
  assume it: "(i, t) \<in> set subs"
  then have "i \<in> set (map fst (filter (\<lambda>(_, t). \<not> P t) subs)) \<longleftrightarrow> (\<exists>t'. (i, t') \<in> set subs \<and> \<not> P t')" by force
  also have "\<dots> \<longleftrightarrow> \<not> P t" using it eq_key_imp_eq_value [OF assms it] by blast
  finally show "i \<notin> set (map fst (filter (\<lambda>(_, t). \<not> P t) subs)) \<longleftrightarrow> P t" by simp
qed

locale mpsc_contract =
  fixes send :: "'tx \<Rightarrow> publish_event \<Rightarrow> 'q \<Rightarrow> bool \<times> 'q"
    and is_open :: "'q \<Rightarrow> 'tx \<Rightarrow> bool"
    and inbox :: "'q \<Rightarrow> 'tx \<Rightarrow> publish_event list"
  assumes send_open: "fst (send tx event q) \<longleftrightarrow> is_open q tx"
    and keeps_open: "is_open (snd (send tx event q)) = is_open q"
    and inbox_send: "inbox (snd (send tx event q)) tx' =
      (if tx' = tx \<and> is_open q tx then inbox q tx' @ [event] else inbox q tx')"
begin

lemma fold_publish:
  "fold (publish_step send event) subs (n, dead, q) = (n', dead', q') \<Longrightarrow>
     n' = n + length (filter (\<lambda>(_, tx). is_open q tx) subs)
     \<and> dead' = dead @ map fst (filter (\<lambda>(_, tx). \<not> is_open q tx) subs)
     \<and> is_open q' = is_open q
     \<and> inbox q' tx = inbox q tx @ replicate (if is_open q tx then length (filter (\<lambda>(_, t). t = tx) subs) else 0) event"
proof (induction subs arbitrary: n dead q)
  case (Cons s subs)
  obtain i t where s: "s = (i, t)" by (cases s)
  obtain ok q1 where q1: "send t event q = (ok, q1)" by (cases "send t event q")
  have laws: "ok = is_open q t" "is_open q1 = is_open q"
      "inbox q1 tx = (if tx = t \<and> is_open q t then inbox q tx @ [event] else inbox q tx)"
    using send_open [of t event q] keeps_open [of t event q] inbox_send [of t event q tx] q1 by auto
  have "fold (publish_step send event) subs (if ok then n + 1 else n, if ok then dead else dead @ [i], q1) = (n', dead', q')"
    using Cons.prems q1 s by (simp add: publish_step_def split: if_splits)
  from Cons.IH [OF this] laws s show ?case by (auto simp: replicate_append_same)
qed simp

lemma publish_spec:
  assumes "hub_wf h" and "publish send ch msg h q = (n, h', q')"
  shows "n = card (live_clients is_open h q ch) \<and> hub_wf h' \<and> is_open q' = is_open q
    \<and> clients h' = (clients h)(ch := live_clients is_open h q ch)
    \<and> inbox q' tx = inbox q tx @ replicate
        (if is_open q tx then card {c \<in> clients h ch. sender h ch c = Some tx} else 0) \<lparr>channel = ch, message = msg\<rparr>"
proof -
  let ?subs = "entry_of (subscribers h) ch"
  let ?open = "filter (\<lambda>(_, t). is_open q t) ?subs"
  note dist = hub_wf_entry [OF assms(1), of ch]
  obtain n0 dead q0
    where f: "fold (publish_step send \<lparr>channel = ch, message = msg\<rparr>) ?subs (0, [], q) = (n0, dead, q0)"
    by (cases "fold (publish_step send \<lparr>channel = ch, message = msg\<rparr>) ?subs (0, [], q)") auto
  note sent = fold_publish [OF f, of tx]
  then have dead: "dead = map fst (filter (\<lambda>(_, t). \<not> is_open q t) ?subs)" by simp
  have kept: "?open = filter (\<lambda>(i, _). i \<notin> set dead) ?subs" unfolding dead by (rule filter_not_dead [OF dist, symmetric])
  have live: "live_clients is_open h q ch = fst ` set ?open"
    using clients_filter(1) [OF dist] by (simp add: live_clients_def clients_def sender_def)
  have res: "n = n0" "q' = q0" "h' = (if dead = [] then h
      else h\<lparr>subscribers := (subscribers h)(ch := if ?open = [] then None else Some ?open)\<rparr>)"
    using publish_unfold [OF f kept] assms(2) by auto
  have "hub_wf h' \<and> clients h' = (clients h)(ch := fst ` set ?open)"
  proof (cases "dead = []")
    case True
    then have "?open = ?subs" using kept by simp
    with True res(3) assms(1) show ?thesis by (simp add: clients_def fun_upd_idem)
  next
    case False
    then show ?thesis
      using hub_wf_update [OF assms(1) distinct_filter_fst [OF dist]] clients_update [of h ch ?open] res(3) by simp
  qed
  moreover have "n = card (live_clients is_open h q ch)"
    using sent res(1) live clients_filter(2) [OF dist] by simp
  moreover have "card {c \<in> clients h ch. sender h ch c = Some tx} = length (filter (\<lambda>(_, t). t = tx) ?subs)"
  proof -
    have "{c \<in> clients h ch. sender h ch c = Some tx} = {c \<in> fst ` set ?subs. the (map_of ?subs c) = tx}"
      using map_of_eq_None_iff [of ?subs] by (force simp: clients_def sender_def)
    then show ?thesis using clients_filter [OF dist, of "\<lambda>t. t = tx"] by simp
  qed
  ultimately show ?thesis using sent res(2) live by simp
qed

end

text \<open>Queues in memory, a queue that is closed being \<open>None\<close>.\<close>

definition mailbox_send :: "nat \<Rightarrow> publish_event \<Rightarrow> (nat \<rightharpoonup> publish_event list) \<Rightarrow> bool \<times> (nat \<rightharpoonup> publish_event list)" where
  "mailbox_send tx event q = (case q tx of None \<Rightarrow> (False, q) | Some es \<Rightarrow> (True, q(tx \<mapsto> es @ [event])))"

definition mailbox_open :: "(nat \<rightharpoonup> publish_event list) \<Rightarrow> nat \<Rightarrow> bool" where
  "mailbox_open q tx \<longleftrightarrow> q tx \<noteq> None"

definition mailbox_inbox :: "(nat \<rightharpoonup> publish_event list) \<Rightarrow> nat \<Rightarrow> publish_event list" where
  "mailbox_inbox q tx = (case q tx of None \<Rightarrow> [] | Some es \<Rightarrow> es)"

interpretation mailbox: mpsc_contract mailbox_send mailbox_open mailbox_inbox
  by unfold_locales (auto simp: mailbox_send_def mailbox_open_def mailbox_inbox_def fun_eq_iff split: option.splits)

section \<open>Properties\<close>

text \<open>C30: A published message reaches every subscriber of the channel whose connection is alive, exactly
  once and after what it received before, and nobody else; the reply is the number of these subscribers,
  and the others are dropped from the channel.\<close>

theorem publish_delivers:
  assumes "mpsc_contract send is_open inbox" and "hub_wf h" and "publish send ch msg h q = (n, h', q')"
  shows "n = card (live_clients is_open h q ch) \<and> hub_wf h' \<and> is_open q' = is_open q
    \<and> clients h' = (clients h)(ch := live_clients is_open h q ch)
    \<and> inbox q' tx = inbox q tx @ replicate
        (if is_open q tx then card {c \<in> clients h ch. sender h ch c = Some tx} else 0) \<lparr>channel = ch, message = msg\<rparr>"
  by (rule mpsc_contract.publish_spec [OF assms])

definition sample_hub :: "nat hub" where
  "sample_hub = snd (subscribe 1 [''news''] 10 (snd (subscribe 2 [''news''] 20 hub_new)))"

lemma sample_hub: "subscribers sample_hub = [''news'' \<mapsto> [(2, 20), (1, 10)]]"
  by (simp add: sample_hub_def subscribe_def subscribe_step_def hub_new_def entry_of_def)

theorem publish_delivers_witness:
  "mailbox_inbox (snd (snd (publish mailbox_send ''news'' [104] sample_hub [20 \<mapsto> []]))) 20 = [\<lparr>channel = ''news'', message = [104]\<rparr>]"
proof -
  obtain n h' q' where p: "publish mailbox_send ''news'' [104] sample_hub [20 \<mapsto> []] = (n, h', q')"
    by (cases "publish mailbox_send ''news'' [104] sample_hub [20 \<mapsto> []]") auto
  have wf: "hub_wf sample_hub" by (simp add: hub_wf_def sample_hub)
  have "{c \<in> clients sample_hub ''news''. sender sample_hub ''news'' c = Some 20} = {2}"
    by (auto simp: clients_def sender_def entry_of_def sample_hub)
  with publish_delivers [OF mailbox.mpsc_contract_axioms wf p, of 20] p show ?thesis
    by (simp add: mailbox_open_def mailbox_inbox_def)
qed

text \<open>C31: SUBSCRIBE and UNSUBSCRIBE change the subscriptions of the one client on the channels named (on
  all channels if none is named), report exactly the channels on which something changed, each once, and
  keep the hub free of empty channels and double subscriptions, so that the count of a client's
  subscriptions is the number of its channels.\<close>

theorem subscriptions_spec:
  assumes "hub_wf h" and "enumerates order h"
  shows "(\<exists>added h'. subscribe client chans tx h = (added, h') \<and> hub_wf h'
      \<and> clients h' = (\<lambda>ch. if ch \<in> set chans then insert client (clients h ch) else clients h ch)
      \<and> distinct added \<and> set added = {ch \<in> set chans. client \<notin> clients h ch})
    \<and> (\<exists>removed h'. unsubscribe order client selected h = (removed, h') \<and> hub_wf h'
      \<and> clients h' = (\<lambda>ch. if (case selected of Some list \<Rightarrow> ch \<in> set list | None \<Rightarrow> True)
          then clients h ch - {client} else clients h ch)
      \<and> distinct removed
      \<and> set removed = {ch. (case selected of Some list \<Rightarrow> ch \<in> set list | None \<Rightarrow> True) \<and> client \<in> clients h ch})
    \<and> subscription_count order client h = card {ch. client \<in> clients h ch}"
  using subscribe_spec [OF assms(1)] unsubscribe_spec [OF assms] subscription_count_card [OF assms(2)] by blast

theorem subscriptions_spec_witness:
  "\<exists>removed h'. unsubscribe (\<lambda>_. [''news'']) 1 None sample_hub = (removed, h') \<and> hub_wf h'
    \<and> clients h' = (\<lambda>ch. clients sample_hub ch - {1}) \<and> set removed = {ch. 1 \<in> clients sample_hub ch}"
proof -
  have "hub_wf sample_hub" "enumerates (\<lambda>_. [''news'']) sample_hub" by (simp_all add: hub_wf_def enumerates_def sample_hub)
  from subscriptions_spec [OF this, of 1 "[]" 0 None] show ?thesis by (auto simp del: split_paired_Ex)
qed

end
