(* ===== verification/Kv_Services.thy ===== *)
theory Kv_Services
  imports Cmd_Context Kv_Config Kv_Cluster Kv_PubSub
begin

text \<open>
  The shared services of a server: the replication state of \<open>src/src/replication.rs\<close> and the world that
  the commands run in when they use more than the store. The world of the storage commands is extended by
  the configuration in force, the replication and cluster states, the publish/subscribe hub and the queues
  of the connections; these are the \<open>Arc\<close> fields of \<open>CommandContext\<close> (\<open>src/src/cmd/mod.rs\<close>).

  The record \<open>runtime\<close> collects the code that is not part of the program: the checksum of the \<open>crc16\<close>
  crate, the orders in which the hash maps are iterated, and the queues of \<open>tokio\<close>, each client having its
  own sending end.
\<close>

section \<open>Replication\<close>

datatype replication_role = Master | Replica (host: string) (port: u16)

record replication_state =
  repl_role :: replication_role
  replid :: string
  repl_offset :: u64
  offset_local :: u64

definition replication_new :: replication_state where
  "replication_new = \<lparr>repl_role = Master, replid = '''', repl_offset = 0, offset_local = 0\<rparr>"

definition get_role :: "replication_state \<Rightarrow> replication_role" where
  "get_role self = repl_role self"

definition is_master :: "replication_state \<Rightarrow> bool" where
  "is_master self = (case get_role self of Master \<Rightarrow> True | Replica _ _ \<Rightarrow> False)"

definition set_replica :: "string \<Rightarrow> u16 \<Rightarrow> replication_state \<Rightarrow> replication_state" where
  "set_replica h p self = self\<lparr>repl_role := Replica h p\<rparr>"

definition set_master :: "replication_state \<Rightarrow> replication_state" where
  "set_master self = self\<lparr>repl_role := Master\<rparr>"

definition master_replid :: "replication_state \<Rightarrow> string" where
  "master_replid self = replid self"

definition set_master_replid :: "string \<Rightarrow> replication_state \<Rightarrow> replication_state" where
  "set_master_replid i self = self\<lparr>replid := i\<rparr>"

definition master_repl_offset :: "replication_state \<Rightarrow> u64" where
  "master_repl_offset self = repl_offset self"

definition set_master_repl_offset :: "u64 \<Rightarrow> replication_state \<Rightarrow> replication_state" where
  "set_master_repl_offset offset self = self\<lparr>repl_offset := offset\<rparr>"

definition local_offset :: "replication_state \<Rightarrow> u64" where
  "local_offset self = offset_local self"

definition add_local_offset :: "u64 \<Rightarrow> replication_state \<Rightarrow> replication_state" where
  "add_local_offset delta self = self\<lparr>offset_local := offset_local self + delta\<rparr>"

section \<open>The world of the server\<close>

record ('db, 'tx, 'q) server_world = "'db world" +
  config_current :: config
  replication :: replication_state
  cluster :: cluster_state
  pubsub :: "'tx hub"
  queues :: 'q

record ('tx, 'q) runtime =
  crc16 :: "bytes \<Rightarrow> u16"
  slot_order :: "(u16 \<rightharpoonup> string) \<Rightarrow> u16 list"
  node_order :: "(string \<rightharpoonup> cluster_node) \<Rightarrow> string list"
  channel_order :: "(string \<rightharpoonup> (u64 \<times> 'tx) list) \<Rightarrow> string list"
  send :: "'tx \<Rightarrow> publish_event \<Rightarrow> 'q \<Rightarrow> bool \<times> 'q"
  pubsub_tx :: "u64 \<Rightarrow> 'tx"

definition gets :: "('s \<Rightarrow> 'a) \<Rightarrow> ('s, 'a) kv" where
  "gets f = (\<lambda>s. (Inr (f s), s))"

definition modify :: "('s \<Rightarrow> 's) \<Rightarrow> ('s, unit) kv" where
  "modify f = (\<lambda>s. (Inr (), f s))"

lemma run_gets [kv_run]: "and_then (gets f) g s = g (f s) s"
  by (simp add: gets_def and_then_def)

lemma run_modify [kv_run]: "and_then (modify f) g s = g () (f s)"
  by (simp add: modify_def and_then_def)

end
