(* ===== verification/Cmd_Services.thy ===== *)
theory Cmd_Services
  imports Cmd_String Kv_Services
begin

text \<open>
  The commands on the shared services: \<open>src/src/cmd/admin.rs\<close>, \<open>src/src/cmd/cluster.rs\<close> and
  \<open>src/src/cmd/pubsub.rs\<close>.
\<close>

section \<open>Administration\<close>

definition FLUSH_BATCH_SIZE :: nat where
  "FLUSH_BATCH_SIZE = 1024"

definition ping :: "'s command_fn" where
  "ping ctx args = (case args of
      [] \<Rightarrow> ret (SimpleString ''PONG'')
    | a # _ \<Rightarrow> ret (bulk a))"

definition echo :: "'s command_fn" where
  "echo ctx args = and_then (expect_arg_count ''ECHO'' args 1) (\<lambda>_. ret (bulk (args ! 0)))"

abbreviation newline :: string where
  "newline \<equiv> [CHR 0x0D, CHR 0x0A]"

definition role_string :: "replication_role \<Rightarrow> string" where
  "role_string r = (case r of
      Master \<Rightarrow> ''master''
    | Replica h p \<Rightarrow> ''slave:'' @ h @ '':'' @ string_of (dec_digits (unat p)))"

definition info :: "('db, 'tx, 'q, 'x) server_world_scheme command_fn" where
  "info ctx args = and_then (gets config_current) (\<lambda>cfg.
     and_then (gets replication) (\<lambda>r.
       ret (bulk (bytes_of (
         ''# Server'' @ newline @ ''kvdb_version:0.1.0'' @ newline @
         ''config_file:'' @ (case config_file cfg of Some p \<Rightarrow> p | None \<Rightarrow> '''') @ newline @
         ''namespace:'' @ server_namespace (server cfg) @ newline @ newline @
         ''# Clients'' @ newline @ ''maxclients:'' @ string_of (i64_to_string (maxclients (server cfg))) @ newline @ newline @
         ''# Persistence'' @ newline @ ''db_path:'' @ db_path (storage cfg) @ newline @ newline @
         ''# Replication'' @ newline @ ''role:'' @ role_string (get_role r) @ newline @
         ''master_replid:'' @ master_replid r @ newline @
         ''master_repl_offset:'' @ string_of (u64_to_string (master_repl_offset r)) @ newline)))))"

definition namespace_prefix :: "command_context \<Rightarrow> bytes" where
  "namespace_prefix ctx =
     (if namespace ctx = [] then [] else of_nat (length (namespace ctx)) # namespace ctx)"

definition admin_is_expired_value :: "bytes \<Rightarrow> (('db, 'x) world_scheme, bool) kv" where
  "admin_is_expired_value v = (case decode_string v of
      Some (_, expire, _) \<Rightarrow> expired_now expire
    | None \<Rightarrow> ret False)"

definition dbsize_item :: "entry \<Rightarrow> i64 \<Rightarrow> (('db, 'x) world_scheme, (i64, resp_value) control_flow) kv" where
  "dbsize_item = (\<lambda>(_, v) count. and_then (admin_is_expired_value v) (\<lambda>expired.
     ret (Continue (if expired then count else count + 1))))"

definition dbsize :: "'db rocksdb \<Rightarrow> ('db, 'x) world_scheme command_fn" where
  "dbsize R ctx args =
     and_then (scan_pages (\<lambda>start_key. prefix_scan_page R CF_METADATA (namespace_prefix ctx) start_key FLUSH_BATCH_SIZE)
       [] (for_each dbsize_item) 0) (\<lambda>flow. case flow of
         Continue count \<Rightarrow> ret (Integer count)
       | Break r \<Rightarrow> ret r)"

definition flushdb :: "'db rocksdb \<Rightarrow> ('db, 'x) world_scheme command_fn" where
  "flushdb R ctx args =
     (let p = namespace_prefix ctx in
      and_then (delete_prefix R CF_METADATA p FLUSH_BATCH_SIZE) (\<lambda>_.
      and_then (delete_prefix R CF_SUBKEY p FLUSH_BATCH_SIZE) (\<lambda>_.
      and_then (delete_prefix R CF_ZSET_SCORE p FLUSH_BATCH_SIZE) (\<lambda>_.
        ret (SimpleString ''OK'')))))"

definition replicaof :: "('db, 'tx, 'q, 'x) server_world_scheme command_fn" where
  "replicaof ctx args = and_then (expect_arg_count ''REPLICAOF'' args 2) (\<lambda>_.
     let h = from_utf8_lossy (args ! 0); port_str = from_utf8_lossy (args ! 1) in
     if eq_ignore_ascii_case h (bytes_of ''no'') \<and> eq_ignore_ascii_case port_str (bytes_of ''one'') then
       and_then (modify (\<lambda>s. s\<lparr>replication := set_master (replication s)\<rparr>)) (\<lambda>_. ret (SimpleString ''OK''))
     else and_then (lift (ok_or (str_parse_u16 port_str) (Command ''port must be a valid integer''))) (\<lambda>p.
       and_then (modify (\<lambda>s. s\<lparr>replication := set_replica (string_of h) p (replication s)\<rparr>)) (\<lambda>_.
         ret (SimpleString ''OK''))))"

definition role :: "('db, 'tx, 'q, 'x) server_world_scheme command_fn" where
  "role ctx args = and_then (gets replication) (\<lambda>r. case get_role r of
      Master \<Rightarrow> ret (Array [bulk (bytes_of ''master''), Integer (local_offset r)])
    | Replica h p \<Rightarrow> ret (Array [bulk (bytes_of ''slave''), bulk (bytes_of h), Integer (ucast p),
        bulk (bytes_of ''connected''), Integer (master_repl_offset r)]))"

section \<open>Cluster\<close>

definition cluster_slots :: "('tx, 'q) runtime \<Rightarrow> (('db, 'tx, 'q, 'x) server_world_scheme, resp_value) kv" where
  "cluster_slots rt = and_then (gets cluster) (\<lambda>c.
     ret (Array (map (\<lambda>(start, stop, addr). slots_range_to_resp start stop addr) (slots_ranges (slot_order rt) c))))"

definition cluster_keyslot :: "('tx, 'q) runtime \<Rightarrow> bytes list \<Rightarrow> ('s, resp_value) kv" where
  "cluster_keyslot rt args = and_then (expect_arg_count ''CLUSTER KEYSLOT'' args 1) (\<lambda>_.
     ret (Integer (ucast (key_slot (crc16 rt) (args ! 0)))))"

definition role_str :: "cluster_node_role \<Rightarrow> string" where
  "role_str r = (case r of NodeMaster \<Rightarrow> ''master'' | NodeReplica \<Rightarrow> ''replica'')"

definition cluster_nodes :: "('tx, 'q) runtime \<Rightarrow> (('db, 'tx, 'q, 'x) server_world_scheme, resp_value) kv" where
  "cluster_nodes rt = and_then (gets cluster) (\<lambda>c.
     case nodes (node_order rt) c of
       [] \<Rightarrow> ret (bulk (bytes_of (''0000000000000000000000000000000000000000 127.0.0.1:6379 myself,master - 0 0 0 connected 0-16383''
         @ [CHR 0x0A])))
     | ns \<Rightarrow> ret (bulk (bytes_of (concat (map (\<lambda>n. node_id n @ '' '' @ node_addr n @ '' '' @ role_str (node_role n)
         @ '' - 0 0 0 connected'' @ [CHR 0x0A]) ns)))))"

definition cluster_command :: "('tx, 'q) runtime \<Rightarrow> ('db, 'tx, 'q, 'x) server_world_scheme command_fn" where
  "cluster_command rt ctx args = (case args of
      [] \<Rightarrow> ret (Error (''ERR wrong number of arguments for '' @ [CHR 0x27] @ ''cluster'' @ [CHR 0x27] @ '' command''))
    | a # rest \<Rightarrow>
        let sub = string_of (to_ascii_uppercase (from_utf8_lossy a)) in
        if sub = ''SLOTS'' then cluster_slots rt
        else if sub = ''KEYSLOT'' then cluster_keyslot rt rest
        else if sub = ''NODES'' then cluster_nodes rt
        else ret (Error (''ERR unknown subcommand '' @ [CHR 0x27] @ sub @ [CHR 0x27])))"

section \<open>Publish and subscribe\<close>

definition channel_names :: "bytes list \<Rightarrow> string list" where
  "channel_names args = map (\<lambda>b. string_of (from_utf8_lossy b)) args"

definition acknowledge :: "string \<Rightarrow> ('tx, 'q) runtime \<Rightarrow> command_context \<Rightarrow> string
    \<Rightarrow> resp_value list \<Rightarrow> (('db, 'tx, 'q, 'x) server_world_scheme, resp_value list) kv" where
  "acknowledge word rt ctx ch replies =
     and_then (gets (\<lambda>s. of_nat (subscription_count (channel_order rt) (client_id ctx) (pubsub s)))) (\<lambda>count.
       ret (replies @ [Array [bulk (bytes_of word), bulk (bytes_of ch), Integer count]]))"

definition subscribe_command :: "('tx, 'q) runtime \<Rightarrow> ('db, 'tx, 'q, 'x) server_world_scheme command_fn" where
  "subscribe_command rt ctx args = and_then (expect_min_arg_count ''SUBSCRIBE'' args 1) (\<lambda>_.
     and_then (gets (\<lambda>s. subscribe (client_id ctx) (channel_names args) (pubsub_tx rt (client_id ctx)) (pubsub s))) (\<lambda>(added, hub).
     and_then (modify (\<lambda>s. s\<lparr>pubsub := hub\<rparr>)) (\<lambda>_.
     and_then (for_loop (acknowledge ''subscribe'' rt ctx) added []) (\<lambda>replies.
       ret (Array replies)))))"

definition unsubscribe_command :: "('tx, 'q) runtime \<Rightarrow> ('db, 'tx, 'q, 'x) server_world_scheme command_fn" where
  "unsubscribe_command rt ctx args =
     (let chans = (if args = [] then None else Some (channel_names args)) in
     and_then (gets (\<lambda>s. unsubscribe (channel_order rt) (client_id ctx) chans (pubsub s))) (\<lambda>(removed, hub).
     and_then (modify (\<lambda>s. s\<lparr>pubsub := hub\<rparr>)) (\<lambda>_.
     and_then (for_loop (acknowledge ''unsubscribe'' rt ctx) removed []) (\<lambda>replies.
       ret (Array replies)))))"

definition publish_command :: "('tx, 'q) runtime \<Rightarrow> ('db, 'tx, 'q, 'x) server_world_scheme command_fn" where
  "publish_command rt ctx args = and_then (expect_min_arg_count ''PUBLISH'' args 2) (\<lambda>_.
     and_then (gets (\<lambda>s. publish (send rt) (string_of (from_utf8_lossy (args ! 0))) (args ! 1) (pubsub s) (queues s)))
       (\<lambda>(count, hub, q).
     and_then (modify (\<lambda>s. s\<lparr>pubsub := hub, queues := q\<rparr>)) (\<lambda>_.
       ret (Integer (of_nat count)))))"

section \<open>Counting and flushing a namespace\<close>

text \<open>The deadline DBSIZE reads from a value, and the keys it counts.\<close>

definition admin_expire :: "bytes \<Rightarrow> i64" where
  "admin_expire v = (case decode_string v of Some (_, expire, _) \<Rightarrow> expire | None \<Rightarrow> 0)"

definition counted_keys :: "(bytes \<rightharpoonup> bytes) \<Rightarrow> bytes \<Rightarrow> i64 \<Rightarrow> bytes set" where
  "counted_keys m p now = {k. prefix p k \<and> (\<exists>v. m k = Some v \<and> \<not> expired_at (admin_expire v) now)}"

lemma admin_is_expired_value_eq: "admin_is_expired_value v = expired_now (admin_expire v)"
  by (auto simp: admin_is_expired_value_def admin_expire_def expired_now_def split: option.splits)

lemma dbsize_item_run:
  assumes "clock s = (\<lambda>_. now)"
  shows "dbsize_item (k, v) count s = (Inr (Continue (if expired_at (admin_expire v) now then count else count + 1)), s)"
proof -
  have "s\<lparr>clock := \<lambda>_. now\<rparr> = s" using assms by simp
  with assms show ?thesis
    by (simp add: dbsize_item_def admin_is_expired_value_eq expired_now_def expired_at_def and_then_def now_ms_def)
qed

lemma fold_count:
  "fold (\<lambda>x count. if P x then count else count + 1) xs (n :: i64) = n + of_nat (length (filter (\<lambda>x. \<not> P x) xs))"
  by (induction xs arbitrary: n) auto

lemma card_counted:
  assumes "finite (dom m)"
  shows "card (counted_keys m p now) = length (filter (\<lambda>x. \<not> expired_at (admin_expire (snd x)) now) (scan_entries m p))"
proof -
  let ?xs = "filter (\<lambda>x. \<not> expired_at (admin_expire (snd x)) now) (scan_entries m p)"
  have "distinct (map fst (scan_entries m p))" using strict_sorted_scan_entries [of m p] by (simp add: strict_sorted_iff)
  then have "distinct (map fst ?xs)" by (rule distinct_map_filter)
  moreover have "counted_keys m p now = set (map fst ?xs)"
    using set_scan_entries [OF assms] by (force simp: counted_keys_def)
  ultimately show ?thesis by (metis distinct_card length_map)
qed

context command_env
begin

lemma dbsize_run:
  fixes s :: "('db, 'x) world_scheme"
  assumes "namespace ctx \<noteq> [] \<or> view (db s) CF_METADATA [] = None" and "clock s = (\<lambda>_. now)"
  shows "dbsize R ctx args s
    = (Inr (Integer (of_nat (card (counted_keys (view (db s) CF_METADATA) (namespace_prefix ctx) now)))), s)"
proof -
  let ?p = "namespace_prefix ctx" and ?m = "view (db s) CF_METADATA"
  have "?p \<noteq> [] \<or> ?m [] = None" using assms(1) by (simp add: namespace_prefix_def)
  then have "scan_pages (\<lambda>start. prefix_scan_page R CF_METADATA ?p start FLUSH_BATCH_SIZE) [] (for_each dbsize_item) 0 s
      = for_each dbsize_item (scan_entries ?m ?p) 0 s"
    by (intro scan_all_pages)
      (auto simp: dbsize_item_def admin_is_expired_value_eq expired_now_def and_then_def now_ms_def with_capacity_ok_def FLUSH_BATCH_SIZE_def)
  also have "\<dots> = (Inr (Continue (fold (\<lambda>x count. if expired_at (admin_expire (snd x)) now then count else count + 1)
      (scan_entries ?m ?p) 0)), s)"
    by (rule for_each_fold) (auto simp: dbsize_item_run [OF assms(2)])
  finally show ?thesis
    by (simp add: dbsize_def and_then_Inr [where m = "scan_pages _ _ _ _"] fold_count card_counted [OF finite_view])
qed

lemma dbsize_none:
  fixes s :: "('db, 'x) world_scheme"
  assumes "\<forall>x. prefix (namespace_prefix ctx) x \<longrightarrow> view (db s) CF_METADATA x = None"
  shows "dbsize R ctx args s = (Inr (Integer 0), s)"
proof -
  let ?p = "namespace_prefix ctx" and ?m = "view (db s) CF_METADATA"
  have none: "scan_entries ?m ?p = []"
    using assms set_scan_entries [OF finite_view [of "db s" CF_METADATA], of _ _ ?p] by (metis list.set_intros(1) neq_Nil_conv option.distinct(1) surj_pair)
  have "?p \<noteq> [] \<or> ?m [] = None" using assms by (cases ?p) auto
  then have "scan_pages (\<lambda>start. prefix_scan_page R CF_METADATA ?p start FLUSH_BATCH_SIZE) [] (for_each dbsize_item) 0 s
      = for_each dbsize_item (scan_entries ?m ?p) 0 s"
    by (intro scan_all_pages)
      (auto simp: dbsize_item_def admin_is_expired_value_eq expired_now_def and_then_def now_ms_def with_capacity_ok_def FLUSH_BATCH_SIZE_def)
  with none show ?thesis by (simp add: dbsize_def and_then_Inr [where m = "scan_pages _ _ _ _"])
qed

text \<open>Purging one column family after the other.\<close>

lemma purge_any:
  fixes s :: "('db, 'x) world_scheme"
  assumes "cf \<in> set ALL_CFS" and "with_capacity_ok n" and "p \<noteq> [] \<or> view (db s) cf [] = None"
  shows "delete_prefix R cf p n s = (Inr (), purge_world R cf p n s)"
    and "view (db (purge_world R cf p n s)) = (view (db s))(cf := view (db s) cf |` {k. \<not> prefix p k})"
    and "clock (purge_world R cf p n s) = clock s"
  by (rule delete_prefix_ok [where s = s and limit = n, OF assms]; simp add: purge_world_def)+

lemma flushdb_run:
  fixes s :: "('db, 'x) world_scheme"
  assumes "namespace ctx \<noteq> [] \<or> (\<forall>cf. view (db s) cf [] = None)"
  obtains s' where "flushdb R ctx args s = (Inr (SimpleString ''OK''), s')" and "clock s' = clock s"
    and "\<And>cf k. view (db s') cf k =
      (if cf \<in> {CF_METADATA, CF_SUBKEY, CF_ZSET_SCORE} \<and> prefix (namespace_prefix ctx) k then None else view (db s) cf k)"
proof -
  let ?p = "namespace_prefix ctx"
  define s1 where "s1 = purge_world R CF_METADATA ?p FLUSH_BATCH_SIZE s"
  define s2 where "s2 = purge_world R CF_SUBKEY ?p FLUSH_BATCH_SIZE s1"
  define s3 where "s3 = purge_world R CF_ZSET_SCORE ?p FLUSH_BATCH_SIZE s2"
  have p: "?p \<noteq> [] \<or> (\<forall>cf. view (db s) cf [] = None)" using assms by (simp add: namespace_prefix_def)
  have cap: "with_capacity_ok FLUSH_BATCH_SIZE" by (simp add: with_capacity_ok_def FLUSH_BATCH_SIZE_def)
  have r1: "delete_prefix R CF_METADATA ?p FLUSH_BATCH_SIZE s = (Inr (), s1)"
    "view (db s1) = (view (db s))(CF_METADATA := view (db s) CF_METADATA |` {k. \<not> prefix ?p k})" "clock s1 = clock s"
    unfolding s1_def using p cap by (intro purge_any; auto)+
  have r2: "delete_prefix R CF_SUBKEY ?p FLUSH_BATCH_SIZE s1 = (Inr (), s2)"
    "view (db s2) = (view (db s1))(CF_SUBKEY := view (db s1) CF_SUBKEY |` {k. \<not> prefix ?p k})" "clock s2 = clock s1"
    unfolding s2_def using p cap by (intro purge_any; auto simp: r1)+
  have r3: "delete_prefix R CF_ZSET_SCORE ?p FLUSH_BATCH_SIZE s2 = (Inr (), s3)"
    "view (db s3) = (view (db s2))(CF_ZSET_SCORE := view (db s2) CF_ZSET_SCORE |` {k. \<not> prefix ?p k})" "clock s3 = clock s2"
    unfolding s3_def using p cap by (intro purge_any; auto simp: r1 r2)+
  have "flushdb R ctx args s = (Inr (SimpleString ''OK''), s3)"
    by (simp add: flushdb_def Let_def and_then_Inr [where m = "delete_prefix _ _ _ _", OF r1(1)]
        and_then_Inr [where m = "delete_prefix _ _ _ _", OF r2(1)] and_then_Inr [where m = "delete_prefix _ _ _ _", OF r3(1)])
  then show ?thesis by (rule that) (auto simp: r1 r2 r3 restrict_map_def)
qed

end

lemma namespace_prefix_metadata_key:
  assumes "namespace ctx \<noteq> []" and "ns_wf (namespace ctx)" and "ns' \<noteq> []" and "ns_wf ns'"
  shows "prefix (namespace_prefix ctx) (metadata_key k ns' @ rest) \<longleftrightarrow> namespace ctx = ns'"
proof
  assume "prefix (namespace_prefix ctx) (metadata_key k ns' @ rest)"
  then have p: "(of_nat (length (namespace ctx)) :: u8) = of_nat (length ns')"
    "prefix (namespace ctx) (ns' @ be32 (of_nat (length k)) @ k @ rest)"
    using assms(1,3) by (simp_all add: namespace_prefix_def metadata_key_def)
  have "length (namespace ctx) = length ns'"
    using assms(2,4) p(1) by (simp add: ns_wf_def word_unat_eq_iff unat_of_nat)
  with p(2) show "namespace ctx = ns'" by (auto simp: prefix_def append_eq_append_conv)
qed (use assms(1) in \<open>auto simp: namespace_prefix_def metadata_key_def\<close>)

text \<open>Keys of the default namespace are apart from the named ones as long as they are short.\<close>

lemma namespace_prefix_default_key:
  assumes "namespace ctx \<noteq> []" and "ns_wf (namespace ctx)" and "key_wf k"
  shows "\<not> prefix (namespace_prefix ctx) (metadata_key k [] @ rest)"
  using legacy_not_namespaced [OF assms(3,1,2)] assms(1)
  by (auto simp: namespace_prefix_def metadata_key_def prefix_def)

section \<open>Subscription commands\<close>

lemma for_loop_acknowledge:
  "for_loop (acknowledge word rt ctx) chans replies s
    = (Inr (replies @ map (\<lambda>ch. Array [bulk (bytes_of word), bulk (bytes_of ch),
         Integer (of_nat (subscription_count (channel_order rt) (client_id ctx) (pubsub s)))]) chans), s)"
  by (induction chans arbitrary: replies) (simp_all add: acknowledge_def gets_def and_then_def)

text \<open>Every acknowledgement of one command carries the count after the whole command.\<close>

lemma subscribe_command_run:
  assumes "args \<noteq> []" and "subscribe (client_id ctx) (channel_names args) (pubsub_tx rt (client_id ctx)) (pubsub s) = (added, h)"
  shows "subscribe_command rt ctx args s = (Inr (Array (map (\<lambda>ch. Array [bulk (bytes_of ''subscribe''), bulk (bytes_of ch),
      Integer (of_nat (subscription_count (channel_order rt) (client_id ctx) h))]) added)), s\<lparr>pubsub := h\<rparr>)"
  using assms
  by (cases args) (simp_all add: subscribe_command_def kv_run and_then_Inr [where m = "for_loop _ _ _", OF for_loop_acknowledge])

lemma unsubscribe_command_run:
  assumes "unsubscribe (channel_order rt) (client_id ctx) (if args = [] then None else Some (channel_names args)) (pubsub s) = (removed, h)"
  shows "unsubscribe_command rt ctx args s = (Inr (Array (map (\<lambda>ch. Array [bulk (bytes_of ''unsubscribe''), bulk (bytes_of ch),
      Integer (of_nat (subscription_count (channel_order rt) (client_id ctx) h))]) removed)), s\<lparr>pubsub := h\<rparr>)"
  using assms
  by (simp add: unsubscribe_command_def kv_run Let_def and_then_Inr [where m = "for_loop _ _ _", OF for_loop_acknowledge])

lemma publish_command_run:
  assumes "2 \<le> length args"
    and "publish (send rt) (string_of (from_utf8_lossy (args ! 0))) (args ! 1) (pubsub s) (queues s) = (n, h, q)"
  shows "publish_command rt ctx args s = (Inr (Integer (of_nat n)), s\<lparr>pubsub := h, queues := q\<rparr>)"
  using assms by (simp add: publish_command_def kv_run)

section \<open>Properties\<close>

text \<open>C33: FLUSHDB. Under a namespace it removes every entry of the namespace, that is every metadata entry,
  subkey and score under the encoded key of a user key in this namespace; the entries of every other
  namespace stay, those of the default namespace for keys below \<open>2 ^ 24\<close> bytes (a longer key of the
  default namespace can look like one of the namespace, see \<open>subkey_collision\<close>), and the other column
  families are untouched. Without a namespace it removes all entries of the three column families, and
  with them the objects of all namespaces. In both cases DBSIZE then replies zero.\<close>

theorem flushdb_exact:
  fixes s :: "('db, 'x) world_scheme"
  assumes "command_env R view ctx" and "namespace ctx \<noteq> [] \<or> (\<forall>cf. view (db s) cf [] = None)"
    and "s' = snd (flushdb R ctx args s)"
  shows "fst (flushdb R ctx args s) = Inr (SimpleString ''OK'')
    \<and> (\<forall>cf \<in> {CF_METADATA, CF_SUBKEY, CF_ZSET_SCORE}. \<forall>k rest. view (db s') cf (metadata_key k (namespace ctx) @ rest) = None)
    \<and> (namespace ctx \<noteq> [] \<longrightarrow> (\<forall>cf k ns' rest. ns_wf ns' \<longrightarrow> ns' \<noteq> namespace ctx \<longrightarrow> (ns' = [] \<longrightarrow> key_wf k) \<longrightarrow>
         view (db s') cf (metadata_key k ns' @ rest) = view (db s) cf (metadata_key k ns' @ rest)))
    \<and> (namespace ctx = [] \<longrightarrow> (\<forall>cf \<in> {CF_METADATA, CF_SUBKEY, CF_ZSET_SCORE}. view (db s') cf = Map.empty))
    \<and> (\<forall>cf. cf \<notin> {CF_METADATA, CF_SUBKEY, CF_ZSET_SCORE} \<longrightarrow> view (db s') cf = view (db s) cf)
    \<and> fst (dbsize R ctx args' s') = Inr (Integer 0)"
proof -
  from assms(2) obtain t where run: "flushdb R ctx args s = (Inr (SimpleString ''OK''), t)" "clock t = clock s"
    and view: "\<And>cf k. view (db t) cf k =
      (if cf \<in> {CF_METADATA, CF_SUBKEY, CF_ZSET_SCORE} \<and> prefix (namespace_prefix ctx) k then None else view (db s) cf k)"
    by (rule command_env.flushdb_run [OF assms(1), where args = args]) blast
  have t: "s' = t" using run(1) assms(3) by simp
  have ns: "ns_wf (namespace ctx)" using assms(1) by (rule command_env.namespace_wf)
  have own: "prefix (namespace_prefix ctx) (metadata_key k (namespace ctx) @ rest)" for k rest
    by (simp add: namespace_prefix_def metadata_key_def)
  have other: "\<not> prefix (namespace_prefix ctx) (metadata_key k ns' @ rest)"
    if "namespace ctx \<noteq> []" "ns_wf ns'" "ns' \<noteq> namespace ctx" "ns' = [] \<longrightarrow> key_wf k" for k ns' rest
    using that namespace_prefix_metadata_key [OF that(1) ns, of ns'] namespace_prefix_default_key [OF that(1) ns, of k] by (cases "ns' = []") auto
  have "fst (dbsize R ctx args' t) = Inr (Integer 0)"
    using command_env.dbsize_none [OF assms(1), of t args'] by (simp add: view)
  moreover have "namespace_prefix ctx = []" if "namespace ctx = []" using that by (simp add: namespace_prefix_def)
  ultimately show ?thesis
    using run(1) own other unfolding t by (auto simp: view fun_eq_iff)
qed

theorem flushdb_exact_witness:
  "fst (flushdb mem_store (tenant_context [1]) []
      (mem_world [((CF_METADATA, metadata_key [5] [1]), [0]), ((CF_METADATA, metadata_key [5] [2]), [0])])) = Inr (SimpleString ''OK'')
   \<and> mem_view (db (snd (flushdb mem_store (tenant_context [1]) []
      (mem_world [((CF_METADATA, metadata_key [5] [1]), [0]), ((CF_METADATA, metadata_key [5] [2]), [0])])))) CF_METADATA (metadata_key [5] [1]) = None
   \<and> mem_view (db (snd (flushdb mem_store (tenant_context [1]) []
      (mem_world [((CF_METADATA, metadata_key [5] [1]), [0]), ((CF_METADATA, metadata_key [5] [2]), [0])])))) CF_METADATA (metadata_key [5] [2]) = Some [0]"
proof -
  let ?s = "mem_world [((CF_METADATA, metadata_key [5] [1]), [0]), ((CF_METADATA, metadata_key [5] [2]), [0])]"
  let ?s' = "snd (flushdb mem_store (tenant_context [1]) [] ?s)"
  have ns: "namespace (tenant_context [1]) = [1]" by (simp add: tenant_context_def)
  have keep: "mem_view (db ?s) CF_METADATA (metadata_key [5] [2]) = Some [0]"
    by (simp add: mem_world_def mem_view_def metadata_key_def)
  have "namespace (tenant_context [1]) \<noteq> []" by (simp add: ns)
  note flush = flushdb_exact [OF mem_env.command_env_axioms [of "[1]"] disjI1 [OF this] refl, where s = ?s and args = "[]" and args' = "[]"]
  have "CF_METADATA \<in> {CF_METADATA, CF_SUBKEY, CF_ZSET_SCORE}" by simp
  with flush [THEN conjunct2, THEN conjunct1]
  have "mem_view (db ?s') CF_METADATA (metadata_key [5] (namespace (tenant_context [1])) @ []) = None" by blast
  moreover have "ns_wf [2]" "[2] \<noteq> namespace (tenant_context [1])" "namespace (tenant_context [1]) \<noteq> []" "[2 :: u8] = [] \<longrightarrow> key_wf [5]"
    by (simp_all add: ns_wf_def ns)
  with flush [THEN conjunct2, THEN conjunct2, THEN conjunct1]
  have "mem_view (db ?s') CF_METADATA (metadata_key [5] [2] @ []) = mem_view (db ?s) CF_METADATA (metadata_key [5] [2] @ [])" by blast
  ultimately show ?thesis using flush [THEN conjunct1] keep by (simp only: append_Nil2 ns simp_thms)
qed

end
