(* ===== verification/Thread_Pool.thy ===== *)
theory Thread_Pool
  imports Main
begin

text \<open>
  The thread pool of \<open>src/src/thread_pool.rs\<close>, in which the commands of all connections run, as a step
  relation. The workers share the receiving end of the job channel behind a mutex. In
  \<open>while let Ok(job) = rx.lock().unwrap().recv() { job(); }\<close> the guard of the mutex is a temporary of the
  scrutinee and lives until the end of the loop body: a worker holds the mutex while it waits for a job and
  while it runs it. A panic of the job unwinds through the guard, which poisons the mutex.

  The state is that of the channel, the mutex and the workers; \<open>started\<close> records the jobs in the order in
  which they were begun. Whether a job panics is the parameter \<open>panics\<close>.
\<close>

section \<open>Definitions\<close>

datatype 'j worker = Waiting | Receiving | Running 'j | Dead

record 'j pool =
  jobs :: "'j list"
  workers :: "'j worker list"
  mutex :: "nat option"
  poisoned :: bool
  started :: "'j list"

definition pool_new :: "nat \<Rightarrow> 'j pool" where
  "pool_new n = \<lparr>jobs = [], workers = replicate n Waiting, mutex = None, poisoned = False, started = []\<rparr>"

text \<open>A job can be handed over as long as a receiver exists.\<close>

inductive pool_step :: "('j \<Rightarrow> bool) \<Rightarrow> 'j pool \<Rightarrow> 'j pool \<Rightarrow> bool" for panics where
  spawn: "\<exists>w \<in> set (workers p). w \<noteq> Dead \<Longrightarrow> pool_step panics p (p\<lparr>jobs := jobs p @ [j]\<rparr>)"
| lock: "i < length (workers p) \<Longrightarrow> workers p ! i = Waiting \<Longrightarrow> mutex p = None \<Longrightarrow> \<not> poisoned p
    \<Longrightarrow> pool_step panics p (p\<lparr>mutex := Some i, workers := (workers p)[i := Receiving]\<rparr>)"
| lock_poisoned: "i < length (workers p) \<Longrightarrow> workers p ! i = Waiting \<Longrightarrow> mutex p = None \<Longrightarrow> poisoned p
    \<Longrightarrow> pool_step panics p (p\<lparr>workers := (workers p)[i := Dead]\<rparr>)"
| recv: "i < length (workers p) \<Longrightarrow> workers p ! i = Receiving \<Longrightarrow> jobs p = j # js
    \<Longrightarrow> pool_step panics p (p\<lparr>jobs := js, workers := (workers p)[i := Running j], started := started p @ [j]\<rparr>)"
| finish: "i < length (workers p) \<Longrightarrow> workers p ! i = Running j \<Longrightarrow> \<not> panics j
    \<Longrightarrow> pool_step panics p (p\<lparr>mutex := None, workers := (workers p)[i := Waiting]\<rparr>)"
| panic: "i < length (workers p) \<Longrightarrow> workers p ! i = Running j \<Longrightarrow> panics j
    \<Longrightarrow> pool_step panics p (p\<lparr>mutex := None, poisoned := True, workers := (workers p)[i := Dead]\<rparr>)"

inductive_cases pool_stepE [elim]: "pool_step panics p p'"

section \<open>The invariant\<close>

definition holds_mutex :: "'j worker \<Rightarrow> bool" where
  "holds_mutex w = (case w of Receiving \<Rightarrow> True | Running _ \<Rightarrow> True | _ \<Rightarrow> False)"

lemma holds_mutex_simps [simp]: "\<not> holds_mutex Waiting" "holds_mutex Receiving" "holds_mutex (Running j)" "\<not> holds_mutex Dead"
  by (simp_all add: holds_mutex_def)

text \<open>The mutex is with the one worker that waits for a job or runs one, and a poisoned mutex is with no
  worker.\<close>

definition pool_inv :: "'j pool \<Rightarrow> bool" where
  "pool_inv p \<longleftrightarrow> (\<forall>i < length (workers p). holds_mutex (workers p ! i) \<longleftrightarrow> mutex p = Some i)
     \<and> (\<forall>i. mutex p = Some i \<longrightarrow> i < length (workers p)) \<and> (poisoned p \<longrightarrow> mutex p = None)
     \<and> (\<not> poisoned p \<longrightarrow> Dead \<notin> set (workers p))"

lemma pool_inv_new: "pool_inv (pool_new n)"
  by (simp add: pool_inv_def pool_new_def)

lemma pool_inv_step: "pool_step panics p p' \<Longrightarrow> pool_inv p \<Longrightarrow> pool_inv p'"
proof (induction rule: pool_step.induct)
  case (lock i p)
  then show ?case by (auto simp: pool_inv_def nth_list_update dest!: set_update_subset_insert [THEN subsetD])
next
  case (recv i p j js)
  then have "mutex p = Some i" by (auto simp: pool_inv_def)
  with recv show ?case by (auto simp: pool_inv_def nth_list_update dest!: set_update_subset_insert [THEN subsetD])
next
  case (finish i p j)
  then have "mutex p = Some i" by (auto simp: pool_inv_def)
  with finish show ?case by (auto simp: pool_inv_def nth_list_update dest!: set_update_subset_insert [THEN subsetD])
next
  case (panic i p j)
  then have "mutex p = Some i" by (auto simp: pool_inv_def)
  with panic show ?case by (auto simp: pool_inv_def nth_list_update)
qed (auto simp: pool_inv_def nth_list_update)

lemma pool_inv_steps: "(pool_step panics)\<^sup>*\<^sup>* p p' \<Longrightarrow> pool_inv p \<Longrightarrow> pool_inv p'"
  by (induction rule: rtranclp_induct) (auto dest: pool_inv_step)

lemma length_workers: "(pool_step panics)\<^sup>*\<^sup>* p p' \<Longrightarrow> length (workers p') = length (workers p)"
  by (induction rule: rtranclp_induct) auto

text \<open>Jobs leave the channel in the order in which they entered it.\<close>

lemma started_prefix: "pool_step panics p p' \<Longrightarrow> \<exists>new. started p' @ jobs p' = started p @ jobs p @ new"
  by (induction rule: pool_step.induct) auto

lemma started_grows: "pool_step panics p p' \<Longrightarrow> \<exists>new. started p' = started p @ new"
  by (induction rule: pool_step.induct) auto

text \<open>After a panic nothing is started.\<close>

lemma poisoned_step: "pool_step panics p p' \<Longrightarrow> pool_inv p \<Longrightarrow> poisoned p \<Longrightarrow> poisoned p' \<and> started p' = started p"
  by (induction rule: pool_step.induct) (auto simp: pool_inv_def)

lemma poisoned_steps:
  "(pool_step panics)\<^sup>*\<^sup>* p p' \<Longrightarrow> pool_inv p \<Longrightarrow> poisoned p \<Longrightarrow> poisoned p' \<and> started p' = started p"
proof (induction rule: rtranclp_induct)
  case (step p1 p2)
  with pool_inv_steps [OF step(1)] show ?case by (auto dest: poisoned_step)
qed simp

text \<open>Once every worker is gone the channel has no receiver left and takes no job: \<open>spawn\<close> panics.\<close>

lemma closed_pool_stuck: "\<forall>w \<in> set (workers p). w = Dead \<Longrightarrow> \<not> pool_step panics p p'"
  by (erule contrapos_pn) (erule pool_stepE; metis nth_mem worker.distinct)

text \<open>Without a panic, a waiting job is started by a free pool.\<close>

lemma pool_progress:
  assumes "pool_inv p" and "\<not> poisoned p" and "workers p \<noteq> []" and "jobs p = j # js" and "\<forall>j. Running j \<notin> set (workers p)"
  shows "\<exists>p'. (pool_step panics)\<^sup>*\<^sup>* p p' \<and> started p' = started p @ [j]"
proof (cases "mutex p")
  case (Some i)
  with assms(1) have "i < length (workers p)" "holds_mutex (workers p ! i)" by (auto simp: pool_inv_def)
  with assms(5) have i: "i < length (workers p)" "workers p ! i = Receiving"
    by (cases "workers p ! i"; auto dest: nth_mem)+
  from pool_step.recv [OF i assms(4), of panics] show ?thesis by (intro exI conjI r_into_rtranclp) auto
next
  case None
  let ?p = "p\<lparr>mutex := Some 0, workers := (workers p)[0 := Receiving]\<rparr>"
  have len: "0 < length (workers p)" using assms(3) by simp
  have "Dead \<notin> set (workers p)" and "\<not> holds_mutex (workers p ! 0)"
    using assms(1,2) None len by (auto simp: pool_inv_def)
  with len nth_mem [OF len] have "workers p ! 0 \<noteq> Dead" "\<not> holds_mutex (workers p ! 0)" by metis+
  with len have z: "0 < length (workers p)" "workers p ! 0 = Waiting" by (cases "workers p ! 0"; simp)+
  let ?p' = "?p\<lparr>jobs := js, workers := (workers ?p)[0 := Running j], started := started ?p @ [j]\<rparr>"
  have "pool_step panics p ?p" using pool_step.lock [OF z None assms(2)] .
  moreover have "pool_step panics ?p ?p'" using z assms(4) by (intro pool_step.recv) auto
  ultimately have "(pool_step panics)\<^sup>*\<^sup>* p ?p'" by (rule converse_rtranclp_into_rtranclp [OF _ r_into_rtranclp])
  then show ?thesis by (intro exI [of _ ?p']) simp
qed

section \<open>Properties\<close>

text \<open>C36: In every reachable state of the pool at most one job runs, however many threads it has, and the
  jobs are begun in the order in which they were submitted. After a job has panicked no job is ever begun
  again; before that, a submitted job can always be begun once no other runs.\<close>

theorem pool_serialises:
  assumes "(pool_step panics)\<^sup>*\<^sup>* (pool_new n) p" and "(pool_step panics)\<^sup>*\<^sup>* p p'"
  shows "(\<forall>i j i' j'. i < n \<longrightarrow> i' < n \<longrightarrow> workers p ! i = Running j \<longrightarrow> workers p ! i' = Running j' \<longrightarrow> i = i')
    \<and> (\<exists>new. started p' @ jobs p' = started p @ jobs p @ new)
    \<and> (poisoned p \<longrightarrow> started p' = started p)
    \<and> (\<not> poisoned p \<and> 0 < n \<and> (\<forall>j. Running j \<notin> set (workers p))
        \<longrightarrow> (\<forall>j js. jobs p = j # js \<longrightarrow> (\<exists>p''. (pool_step panics)\<^sup>*\<^sup>* p p'' \<and> started p'' = started p @ [j])))"
proof -
  have inv: "pool_inv p" by (rule pool_inv_steps [OF assms(1) pool_inv_new])
  have len: "length (workers p) = n" using length_workers [OF assms(1)] by (simp add: pool_new_def)
  have "\<exists>new. started p' @ jobs p' = started p @ jobs p @ new"
    using assms(2)
  proof (induction rule: rtranclp_induct)
    case (step p1 p2)
    with started_prefix [OF step(2)] show ?case by (metis append.assoc)
  qed simp
  moreover have "i = i'" if "i < n" "i' < n" "workers p ! i = Running j" "workers p ! i' = Running j'" for i j i' j'
  proof -
    from inv that len have "mutex p = Some i" "mutex p = Some i'" by (auto simp: pool_inv_def)
    then show ?thesis by simp
  qed
  ultimately show ?thesis
    using poisoned_steps [OF assms(2) inv] pool_progress [OF inv] len by auto
qed

theorem pool_serialises_witness:
  "\<exists>p'. (pool_step (\<lambda>j :: nat. j = 0))\<^sup>*\<^sup>* ((pool_new 2)\<lparr>jobs := [5]\<rparr>) p' \<and> started p' = [5]"
proof -
  have "pool_step (\<lambda>j :: nat. j = 0) (pool_new 2) ((pool_new 2)\<lparr>jobs := jobs (pool_new 2) @ [5]\<rparr>)"
    by (rule pool_step.spawn) (simp add: pool_new_def)
  then have "(pool_step (\<lambda>j :: nat. j = 0))\<^sup>*\<^sup>* (pool_new 2) ((pool_new 2)\<lparr>jobs := [5]\<rparr>)" by (auto simp: pool_new_def)
  from pool_serialises [OF this rtranclp.rtrancl_refl] show ?thesis by (auto simp: pool_new_def)
qed

end
