(* ===== verification/Kv_Server.thy ===== *)
theory Kv_Server
  imports Resp_Protocol Kv_Services
begin

text \<open>
  The connections of \<open>src/src/server.rs\<close>: the state of a transaction, the loop that frames commands from
  what has been read, the transaction commands and the dispatch of the others.

  A connection is a record with the bytes not yet consumed, the transaction state and the replies written
  so far. While a command runs, messages published to the client's channels are written before its reply;
  \<open>arrivals\<close> holds the messages that will arrive during the first, the second, \<dots> command. Commands run as
  jobs of the thread pool, one at a time (\<open>Thread_Pool\<close>), so a job is one step of the world. A job that
  panics makes its caller see an aborted command, and no job is run after it: the pool is part of the
  state. Writing to the socket is taken to succeed.
\<close>

section \<open>Definitions\<close>

record transaction_state =
  in_multi :: bool
  queued :: "(bytes \<times> bytes list) list"
  watched :: "(bytes \<times> bytes option) list"

definition transaction_default :: transaction_state where
  "transaction_default = \<lparr>in_multi = False, queued = [], watched = []\<rparr>"

definition reset :: "transaction_state \<Rightarrow> transaction_state" where
  "reset tx = tx\<lparr>in_multi := False, queued := [], watched := []\<rparr>"

record connection =
  buf :: bytes
  tx_state :: transaction_state
  written :: "resp_value list"
  arrivals :: "publish_event list list"

definition connection_new :: "publish_event list list \<Rightarrow> connection" where
  "connection_new events = \<lparr>buf = [], tx_state = transaction_default, written = [], arrivals = events\<rparr>"

definition write_reply :: "resp_value \<Rightarrow> connection \<Rightarrow> connection" where
  "write_reply reply conn = conn\<lparr>written := written conn @ [reply]\<rparr>"

definition pubsub_message :: "string \<Rightarrow> bytes \<Rightarrow> resp_value" where
  "pubsub_message ch msg = Array [bulk (bytes_of ''message''), bulk (bytes_of ch), bulk msg]"

definition write_event :: "publish_event \<Rightarrow> connection \<Rightarrow> connection" where
  "write_event event conn = write_reply (pubsub_message (channel event) (message event)) conn"

text \<open>
  The thread pool as a connection sees it. A panicking job poisons the mutex of the job channel, so no job
  is begun any more (\<open>poisoned_steps\<close> of \<open>Thread_Pool\<close>). Until the last worker has noticed and is gone, the
  channel still takes jobs, which are dropped without being run; then \<open>spawn\<close> itself panics (\<open>thread pool is
  closed\<close>), which ends the task of the connection. How many jobs are still taken depends on the scheduling
  and is the number in \<open>Serving\<close>.
\<close>

datatype pool_status = Serving nat | Closing nat

text \<open>A job of the thread pool: its result, or \<open>None\<close> if it panics or is dropped.\<close>

definition spawn :: "('s, 'a) kv \<Rightarrow> ('s \<times> pool_status, 'a option) kv" where
  "spawn job = (\<lambda>(s, pool). case pool of
      Closing 0 \<Rightarrow> (Inl Panic, (s, pool))
    | Closing (Suc n) \<Rightarrow> (Inr None, (s, Closing n))
    | Serving n \<Rightarrow> (case job s of
          (Inr x, s') \<Rightarrow> (Inr (Some x), (s', pool))
        | (Inl Panic, s') \<Rightarrow> (Inr None, (s', Closing n))
        | (Inl e, s') \<Rightarrow> (Inl e, (s', pool))))"

definition unwrap_reply :: "resp_value option \<Rightarrow> resp_value" where
  "unwrap_reply r = (case r of Some reply \<Rightarrow> reply | None \<Rightarrow> Error ''ERR command aborted'')"

text \<open>An aborted job of WATCH or of the check in EXEC closes the connection, as does an error of the
  store in it.\<close>

definition job_result :: "string \<Rightarrow> ('s, 'a) kv \<Rightarrow> ('s \<times> pool_status, 'a) kv" where
  "job_result name job = (\<lambda>s. case spawn job s of
      (Inr (Some x), s') \<Rightarrow> (Inr x, s')
    | (Inr None, s') \<Rightarrow> (Inl (Err (Command (name @ '' task aborted: channel closed''))), s')
    | (Inl (Err e), s') \<Rightarrow> (Inl (Err (Command (name @ '' failed: '' @ error_to_string e))), s')
    | (Inl e, s') \<Rightarrow> (Inl e, s'))"

definition watch_key :: "'db rocksdb \<Rightarrow> command_context \<Rightarrow> bytes \<Rightarrow> (bytes \<times> bytes option) list
    \<Rightarrow> (('db, 'x) world_scheme, (bytes \<times> bytes option) list) kv" where
  "watch_key R ctx key acc = and_then (get_meta R ctx key) (\<lambda>val. ret (acc @ [(key, val)]))"

definition watch_keys :: "'db rocksdb \<Rightarrow> command_context \<Rightarrow> bytes list
    \<Rightarrow> (('db, 'x) world_scheme \<times> pool_status, (bytes \<times> bytes option) list) kv" where
  "watch_keys R ctx keys = job_result ''watch'' (for_loop (watch_key R ctx) keys [])"

definition key_changed :: "'db rocksdb \<Rightarrow> command_context \<Rightarrow> bytes \<times> bytes option \<Rightarrow> unit
    \<Rightarrow> (('db, 'x) world_scheme, (unit, bool) control_flow) kv" where
  "key_changed R ctx = (\<lambda>(key, snapshot) _. and_then (get_meta R ctx key) (\<lambda>current.
     ret (if current \<noteq> snapshot then Break True else Continue ())))"

definition watched_keys_changed :: "'db rocksdb \<Rightarrow> command_context \<Rightarrow> (bytes \<times> bytes option) list
    \<Rightarrow> (('db, 'x) world_scheme \<times> pool_status, bool) kv" where
  "watched_keys_changed R ctx snapshots =
     (if snapshots = [] then ret False
      else and_then (job_result ''watch check'' (for_each (key_changed R ctx) snapshots ())) (\<lambda>flow. case flow of
          Break b \<Rightarrow> ret b
        | Continue _ \<Rightarrow> ret False))"

definition execute_step :: "'s command_table \<Rightarrow> command_context \<Rightarrow> bytes \<times> bytes list \<Rightarrow> resp_value list
    \<Rightarrow> ('s \<times> pool_status, resp_value list) kv" where
  "execute_step table ctx = (\<lambda>(cmd, args) replies.
     and_then (spawn (dispatch table ctx cmd args)) (\<lambda>r. ret (replies @ [unwrap_reply r])))"

definition execute_queue :: "'s command_table \<Rightarrow> command_context \<Rightarrow> (bytes \<times> bytes list) list \<Rightarrow> ('s \<times> pool_status, resp_value list) kv" where
  "execute_queue table ctx queue = for_loop (execute_step table ctx) queue []"

text \<open>One framed command, after the bytes it took have been dropped from the buffer.\<close>

definition handle_multi :: "connection \<Rightarrow> connection" where
  "handle_multi conn =
     (if in_multi (tx_state conn) then write_reply (Error ''ERR MULTI calls can not be nested'') conn
      else write_reply (SimpleString ''OK'') (conn\<lparr>tx_state := (tx_state conn)\<lparr>in_multi := True\<rparr>\<rparr>))"

definition handle_discard :: "connection \<Rightarrow> connection" where
  "handle_discard conn =
     (if \<not> in_multi (tx_state conn) then write_reply (Error ''ERR DISCARD without MULTI'') conn
      else write_reply (SimpleString ''OK'') (conn\<lparr>tx_state := reset (tx_state conn)\<rparr>))"

definition handle_watch :: "'db rocksdb \<Rightarrow> command_context \<Rightarrow> bytes list \<Rightarrow> connection
    \<Rightarrow> (('db, 'x) world_scheme \<times> pool_status, connection) kv" where
  "handle_watch R ctx args conn =
     (if in_multi (tx_state conn) then ret (write_reply (Error ''ERR WATCH inside MULTI is not allowed'') conn)
      else and_then (watch_keys R ctx args) (\<lambda>snapshots.
        ret (write_reply (SimpleString ''OK'') (conn\<lparr>tx_state := (tx_state conn)\<lparr>watched := snapshots\<rparr>\<rparr>))))"

definition handle_exec :: "'db rocksdb \<Rightarrow> ('db, 'x) world_scheme command_table \<Rightarrow> command_context \<Rightarrow> connection
    \<Rightarrow> (('db, 'x) world_scheme \<times> pool_status, connection) kv" where
  "handle_exec R table ctx conn =
     (if \<not> in_multi (tx_state conn) then ret (write_reply (Error ''ERR EXEC without MULTI'') conn)
      else and_then (watched_keys_changed R ctx (watched (tx_state conn))) (\<lambda>changed.
        if changed then ret (write_reply Null (conn\<lparr>tx_state := reset (tx_state conn)\<rparr>))
        else and_then (execute_queue table ctx (queued (tx_state conn))) (\<lambda>replies.
          ret (write_reply (Array replies) (conn\<lparr>tx_state := reset (tx_state conn)\<rparr>)))))"

definition handle_dispatch :: "'s command_table \<Rightarrow> command_context \<Rightarrow> bytes \<Rightarrow> bytes list \<Rightarrow> connection \<Rightarrow> ('s \<times> pool_status, connection) kv" where
  "handle_dispatch table ctx cmd args conn =
     and_then (spawn (dispatch table ctx cmd args)) (\<lambda>r.
       let events = (case arrivals conn of [] \<Rightarrow> [] | es # _ \<Rightarrow> es) in
       ret (write_reply (unwrap_reply r) (fold write_event events (conn\<lparr>arrivals := tl (arrivals conn)\<rparr>))))"

definition handle_command :: "'db rocksdb \<Rightarrow> ('db, 'x) world_scheme command_table \<Rightarrow> command_context \<Rightarrow> bytes list
    \<Rightarrow> connection \<Rightarrow> (('db, 'x) world_scheme \<times> pool_status, connection) kv" where
  "handle_command R table ctx parts conn = (case parts of
      [] \<Rightarrow> ret (write_reply (Error ''ERR empty command'') conn)
    | cmd # args \<Rightarrow>
        let cmd_upper = string_of (to_ascii_uppercase (from_utf8_lossy cmd)) in
        if cmd_upper = ''MULTI'' then ret (handle_multi conn)
        else if cmd_upper = ''DISCARD'' then ret (handle_discard conn)
        else if cmd_upper = ''WATCH'' then handle_watch R ctx args conn
        else if cmd_upper = ''EXEC'' then handle_exec R table ctx conn
        else if in_multi (tx_state conn) then
          ret (write_reply (SimpleString ''QUEUED'')
            (conn\<lparr>tx_state := (tx_state conn)\<lparr>queued := queued (tx_state conn) @ [(cmd, args)]\<rparr>\<rparr>))
        else handle_dispatch table ctx cmd args conn)"

text \<open>The commands in the buffer, until what is left is not a complete command. The fuel is the number of
  bytes; every command takes at least one.\<close>

primrec process :: "nat \<Rightarrow> nat \<Rightarrow> 'db rocksdb \<Rightarrow> ('db, 'x) world_scheme command_table \<Rightarrow> command_context
    \<Rightarrow> connection \<Rightarrow> (('db, 'x) world_scheme \<times> pool_status, connection) kv" where
  "process 0 cap R table ctx conn = ret conn"
| "process (Suc fuel) cap R table ctx conn = (case parse_cmd cap (buf conn) of
      Incomplete \<Rightarrow> ret conn
    | Crash \<Rightarrow> fail_with Panic
    | Parsed (args, consumed) \<Rightarrow>
        and_then (handle_command R table ctx args (conn\<lparr>buf := drop consumed (buf conn)\<rparr>))
          (process fuel cap R table ctx))"

text \<open>One turn of the loop that waits: bytes are read, or a message arrives. A read of no bytes is the end of
  the stream; it ends the loop, and what is left in the buffer is dropped.\<close>

datatype input = Read bytes | Event publish_event

definition handle_input :: "nat \<Rightarrow> 'db rocksdb \<Rightarrow> ('db, 'x) world_scheme command_table \<Rightarrow> command_context
    \<Rightarrow> input \<Rightarrow> connection \<Rightarrow> (('db, 'x) world_scheme \<times> pool_status, (connection, connection) control_flow) kv" where
  "handle_input cap R table ctx inp conn = (case inp of
      Read data \<Rightarrow>
        if data = [] then ret (Break conn)
        else let conn = conn\<lparr>buf := buf conn @ data\<rparr>
          in and_then (process (Suc (length (buf conn))) cap R table ctx conn) (\<lambda>conn. ret (Continue conn))
    | Event event \<Rightarrow> ret (Continue (write_event event conn)))"

definition handle_connection :: "nat \<Rightarrow> 'db rocksdb \<Rightarrow> ('db, 'x) world_scheme command_table \<Rightarrow> command_context
    \<Rightarrow> input list \<Rightarrow> connection \<Rightarrow> (('db, 'x) world_scheme \<times> pool_status, connection) kv" where
  "handle_connection cap R table ctx inputs conn =
     and_then (for_each (handle_input cap R table ctx) inputs conn) (\<lambda>flow. case flow of
         Break conn \<Rightarrow> ret conn
       | Continue conn \<Rightarrow> ret conn)"

section \<open>The buffer of a connection\<close>

text \<open>Handling a command neither reads nor changes the buffer.\<close>

definition rebuffer :: "bytes \<Rightarrow> ('s, connection) kv \<Rightarrow> ('s, connection) kv" where
  "rebuffer b m = and_then m (\<lambda>c. ret (c\<lparr>buf := b\<rparr>))"

lemma buf_outermost:
  "write_reply r (c\<lparr>buf := b\<rparr>) = (write_reply r c)\<lparr>buf := b\<rparr>"
  "(c\<lparr>buf := b\<rparr>)\<lparr>tx_state := t\<rparr> = (c\<lparr>tx_state := t\<rparr>)\<lparr>buf := b\<rparr>"
  "(c\<lparr>buf := b\<rparr>)\<lparr>arrivals := es\<rparr> = (c\<lparr>arrivals := es\<rparr>)\<lparr>buf := b\<rparr>"
  by (cases c; simp add: write_reply_def)+

lemma fold_write_event_buf: "fold write_event es (c\<lparr>buf := b\<rparr>) = (fold write_event es c)\<lparr>buf := b\<rparr>"
  by (induction es arbitrary: c) (simp_all add: write_event_def buf_outermost)

lemma rebuffer_ret [simp]: "rebuffer b (ret c) = ret (c\<lparr>buf := b\<rparr>)"
  by (simp add: rebuffer_def)

lemma rebuffer_Pair [simp]: "rebuffer b (Pair (Inr c)) = Pair (Inr (c\<lparr>buf := b\<rparr>))"
  by (simp add: rebuffer_def)

lemma rebuffer_and_then: "rebuffer b (and_then m f) = and_then m (\<lambda>x. rebuffer b (f x))"
  by (simp add: rebuffer_def and_then_assoc)

lemma rebuffer_if: "rebuffer b (if P then m else m') = (if P then rebuffer b m else rebuffer b m')"
  by simp

lemmas handle_defs = handle_multi_def handle_discard_def handle_watch_def handle_exec_def handle_dispatch_def

lemma handle_command_buf:
  "handle_command R table ctx parts (c\<lparr>buf := b\<rparr>) = rebuffer b (handle_command R table ctx parts c)"
  by (cases parts)
    (simp_all add: handle_command_def handle_defs rebuffer_and_then rebuffer_if buf_outermost fold_write_event_buf Let_def
      cong: if_cong)

lemma process_Suc:
  "process (Suc fuel) cap R table ctx conn = (case parse_cmd cap (buf conn) of
      Incomplete \<Rightarrow> ret conn
    | Crash \<Rightarrow> fail_with Panic
    | Parsed (args, consumed) \<Rightarrow>
        and_then (handle_command R table ctx args conn)
          (\<lambda>c. process fuel cap R table ctx (c\<lparr>buf := drop consumed (buf conn)\<rparr>)))"
  by (auto simp: handle_command_buf rebuffer_def and_then_assoc split: parse_result.splits)

text \<open>More fuel than bytes makes no difference.\<close>

lemma process_fuel:
  "length (buf conn) < fuel \<Longrightarrow> process fuel cap R table ctx conn = process (Suc (length (buf conn))) cap R table ctx conn"
proof (induction "length (buf conn)" arbitrary: conn fuel rule: less_induct)
  case less
  then obtain f where f: "fuel = Suc f" by (cases fuel) auto
  show ?case
  proof (cases "parse_cmd cap (buf conn)")
    case (Parsed r)
    obtain args n where r: "r = (args, n)" by (cases r)
    have n: "0 < n" "n \<le> length (buf conn)" using cmd_parser.bounded Parsed r by auto
    have "process f cap R table ctx (c\<lparr>buf := drop n (buf conn)\<rparr>)
        = process (length (buf conn)) cap R table ctx (c\<lparr>buf := drop n (buf conn)\<rparr>)" for c
    proof -
      let ?c = "c\<lparr>buf := drop n (buf conn)\<rparr>"
      have len: "length (buf ?c) < length (buf conn)" using n by simp
      have "process f cap R table ctx ?c = process (Suc (length (buf ?c))) cap R table ctx ?c"
        using less.prems f len by (intro less.hyps) auto
      also have "\<dots> = process (length (buf conn)) cap R table ctx ?c"
        using len by (intro less.hyps [symmetric]) auto
      finally show ?thesis .
    qed
    then show ?thesis unfolding f process_Suc Parsed r by simp
  qed (simp_all add: f)
qed

abbreviation drain :: "nat \<Rightarrow> 'db rocksdb \<Rightarrow> ('db, 'x) world_scheme command_table \<Rightarrow> command_context
    \<Rightarrow> connection \<Rightarrow> (('db, 'x) world_scheme \<times> pool_status, connection) kv" where
  "drain cap R table ctx conn \<equiv> process (Suc (length (buf conn))) cap R table ctx conn"

lemma drain_unfold:
  "drain cap R table ctx conn = (case parse_cmd cap (buf conn) of
      Incomplete \<Rightarrow> ret conn
    | Crash \<Rightarrow> fail_with Panic
    | Parsed (args, consumed) \<Rightarrow>
        and_then (handle_command R table ctx args conn) (\<lambda>c. drain cap R table ctx (c\<lparr>buf := drop consumed (buf conn)\<rparr>)))"
proof (cases "parse_cmd cap (buf conn)")
  case (Parsed r)
  obtain args n where r: "r = (args, n)" by (cases r)
  have "0 < n" "n \<le> length (buf conn)" using cmd_parser.bounded Parsed r by auto
  then have "process (length (buf conn)) cap R table ctx (c\<lparr>buf := drop n (buf conn)\<rparr>)
      = drain cap R table ctx (c\<lparr>buf := drop n (buf conn)\<rparr>)" for c
    by (intro process_fuel) auto
  then show ?thesis unfolding process_Suc Parsed r by simp
qed simp_all

text \<open>Commands are found and handled as soon as they are complete, whatever else follows.\<close>

lemma drain_append:
  "drain cap R table ctx (conn\<lparr>buf := b @ b'\<rparr>)
    = and_then (drain cap R table ctx (conn\<lparr>buf := b\<rparr>)) (\<lambda>c. drain cap R table ctx (c\<lparr>buf := buf c @ b'\<rparr>))"
proof (induction "length b" arbitrary: b conn rule: less_induct)
  case less
  show ?case
  proof (cases "parse_cmd cap b")
    case (Parsed r)
    obtain args n where r: "r = (args, n)" by (cases r)
    have n: "0 < n" "n \<le> length b" using cmd_parser.bounded Parsed r by auto
    have more: "parse_cmd cap (b @ b') = Parsed (args, n)" using cmd_parser.stable [OF Parsed] r by simp
    have "drain cap R table ctx (conn\<lparr>buf := b @ b'\<rparr>) =
        and_then (handle_command R table ctx args conn) (\<lambda>c. drain cap R table ctx (c\<lparr>buf := drop n b @ b'\<rparr>))"
      by (subst drain_unfold) (use more n in \<open>simp add: handle_command_buf rebuffer_def and_then_assoc del: process.simps\<close>)
    also have "\<dots> = and_then (handle_command R table ctx args conn) (\<lambda>c.
        and_then (drain cap R table ctx (c\<lparr>buf := drop n b\<rparr>)) (\<lambda>c. drain cap R table ctx (c\<lparr>buf := buf c @ b'\<rparr>)))"
      using n by (subst less.hyps) auto
    also have "\<dots> = and_then (drain cap R table ctx (conn\<lparr>buf := b\<rparr>)) (\<lambda>c. drain cap R table ctx (c\<lparr>buf := buf c @ b'\<rparr>))"
      by (subst (2) drain_unfold) (use Parsed r in \<open>simp add: handle_command_buf rebuffer_def and_then_assoc del: process.simps\<close>)
    finally show ?thesis .
  next
    case Incomplete
    then show ?thesis by (subst (2) drain_unfold) (simp del: process.simps)
  next
    case Crash
    then have "parse_cmd cap (b @ b') = Crash" using cmd_parser.stable [OF Crash] by simp
    with Crash show ?thesis by (subst (1 2) drain_unfold) (simp del: process.simps)
  qed
qed

lemma and_then_ret_right: "and_then m (\<lambda>x. Pair (Inr x)) = m"
  by (rule ext) (simp add: and_then_def split: prod.split sum.split)

lemma handle_read:
  "d \<noteq> [] \<Longrightarrow> handle_input cap R table ctx (Read d) =
    (\<lambda>conn. and_then (drain cap R table ctx (conn\<lparr>buf := buf conn @ d\<rparr>)) (\<lambda>c. ret (Continue c)))"
  by (rule ext) (simp add: handle_input_def Let_def del: process.simps)

lemma connection_read:
  "d \<noteq> [] \<Longrightarrow> handle_connection cap R table ctx (Read d # inputs) conn
    = and_then (drain cap R table ctx (conn\<lparr>buf := buf conn @ d\<rparr>)) (\<lambda>c. handle_connection cap R table ctx inputs c)"
  by (simp add: handle_connection_def handle_read and_then_assoc del: process.simps)

lemma read_all:
  "[] \<notin> set chunks \<Longrightarrow> chunks \<noteq> [] \<Longrightarrow> handle_connection cap R table ctx (map Read chunks) conn
    = drain cap R table ctx (conn\<lparr>buf := buf conn @ concat chunks\<rparr>)"
proof (induction chunks arbitrary: conn rule: induct_list012)
  case (2 d)
  then show ?case
    by (simp add: handle_connection_def handle_read and_then_assoc and_then_ret_right del: process.simps)
next
  case (3 d d' chunks)
  have "handle_connection cap R table ctx (map Read (d # d' # chunks)) conn
      = and_then (drain cap R table ctx (conn\<lparr>buf := buf conn @ d\<rparr>)) (handle_connection cap R table ctx (map Read (d' # chunks)))"
    using 3(3) connection_read [of d cap R table ctx "map Read (d' # chunks)" conn] by (auto simp del: process.simps)
  also have "handle_connection cap R table ctx (map Read (d' # chunks))
      = (\<lambda>c. drain cap R table ctx (c\<lparr>buf := buf c @ concat (d' # chunks)\<rparr>))"
    by (rule ext) (rule 3(2), use 3(3) in auto)
  also have "and_then (drain cap R table ctx (conn\<lparr>buf := buf conn @ d\<rparr>)) (\<lambda>c. drain cap R table ctx (c\<lparr>buf := buf c @ concat (d' # chunks)\<rparr>))
      = drain cap R table ctx (conn\<lparr>buf := (buf conn @ d) @ concat (d' # chunks)\<rparr>)"
    by (rule drain_append [symmetric])
  finally show ?case by simp
qed simp

lemma read_end:
  "handle_connection cap R table ctx (map Read chunks @ Read [] # rest) conn = handle_connection cap R table ctx (map Read chunks) conn"
proof -
  have "for_each (handle_input cap R table ctx) (Read [] # rest) c = ret (Break c)" for c
    by (simp add: handle_input_def)
  then show ?thesis
    by (auto simp: handle_connection_def for_each_append and_then_assoc intro!: arg_cong [where f = "and_then _"] split: control_flow.split)
qed

lemma for_loop_rebuffer:
  "for_loop (handle_command R table ctx) cmds (c\<lparr>buf := b\<rparr>) = rebuffer b (for_loop (handle_command R table ctx) cmds c)"
proof (induction cmds arbitrary: c)
  case (Cons cmd cmds)
  then show ?case
    by (simp add: handle_command_buf rebuffer_def and_then_assoc)
qed simp

lemma drain_commands:
  assumes "cap < 2 ^ 63" and "\<forall>c \<in> set cmds. command_wf cap c"
  shows "drain cap R table ctx (conn\<lparr>buf := concat (map encode_command cmds)\<rparr>)
    = rebuffer [] (for_loop (handle_command R table ctx) cmds conn)"
  using assms(2)
proof (induction cmds arbitrary: conn)
  case Nil
  have "parse_cmd cap [] = Incomplete" by (simp add: parse_cmd_def parse_one_def)
  then show ?case by (subst drain_unfold) (simp del: process.simps)
next
  case (Cons cmd cmds)
  let ?rest = "concat (map encode_command cmds)"
  have "parse_cmd cap (encode_command cmd @ ?rest) = Parsed (cmd, length (encode_command cmd))"
    using assms(1) Cons.prems by (intro parse_cmd_encode) auto
  then have "drain cap R table ctx (conn\<lparr>buf := encode_command cmd @ ?rest\<rparr>)
      = and_then (handle_command R table ctx cmd conn) (\<lambda>c. drain cap R table ctx (c\<lparr>buf := ?rest\<rparr>))"
    by (subst drain_unfold) (simp add: handle_command_buf rebuffer_def and_then_assoc del: process.simps)
  then show ?case using Cons by (simp add: rebuffer_and_then del: process.simps)
qed

lemma encode_command_not_empty [simp]: "encode_command c \<noteq> []"
  by (simp add: encode_command_def)

section \<open>Transactions\<close>














section \<open>Properties\<close>

text \<open>C34: Pipelining. However the network cuts the bytes of a sequence of commands into non-empty pieces, a
  connection executes these commands one after the other, in order, with the same replies and the same
  effect on the store as if each had arrived alone. A read of no bytes ends the connection: nothing that
  follows it is looked at.\<close>

theorem pipelining:
  assumes "cap < 2 ^ 63" and "\<forall>c \<in> set cmds. command_wf cap c" and "buf conn = []"
    and "concat chunks = concat (map encode_command cmds)" and "[] \<notin> set chunks"
  shows "handle_connection cap R table ctx (map Read chunks) conn = for_loop (handle_command R table ctx) cmds conn
    \<and> handle_connection cap R table ctx (map Read chunks @ Read [] # rest) conn = for_loop (handle_command R table ctx) cmds conn"
proof -
  have same: "conn\<lparr>buf := []\<rparr> = conn" using assms(3) by simp
  have run: "handle_connection cap R table ctx (map Read chunks) conn = for_loop (handle_command R table ctx) cmds conn"
  proof (cases "chunks = []")
    case True
    with assms(4) have "cmds = []" by (cases cmds) auto
    with True show ?thesis by (simp add: handle_connection_def)
  next
    case False
    have "handle_connection cap R table ctx (map Read chunks) conn
        = drain cap R table ctx (conn\<lparr>buf := concat (map encode_command cmds)\<rparr>)"
      unfolding read_all [OF assms(5) False] assms(3,4) by simp
    also have "\<dots> = for_loop (handle_command R table ctx) cmds (conn\<lparr>buf := []\<rparr>)"
      by (simp only: drain_commands [OF assms(1,2)] for_loop_rebuffer)
    finally show ?thesis unfolding same .
  qed
  then show ?thesis by (simp only: read_end simp_thms)
qed

theorem pipelining_witness:
  "handle_connection 10 mem_store (Map.empty :: mem world command_table) (tenant_context [])
     (map Read [take 9 (encode_command [[71], []] @ encode_command [[72]]), drop 9 (encode_command [[71], []] @ encode_command [[72]])])
     (connection_new [])
   = for_loop (handle_command mem_store Map.empty (tenant_context [])) [[[71], []], [[72]]] (connection_new [])"
proof -
  let ?b = "encode_command [[71], []] @ encode_command [[72]]"
  have "concat [take 9 ?b, drop 9 ?b] = concat (map encode_command [[[71], []], [[72]]])"
    by (simp only: concat.simps list.map append_Nil2 append_take_drop_id)
  moreover have "9 < length ?b" by (simp add: encode_command_def)
  then have "[] \<notin> set [take 9 ?b, drop 9 ?b]" by auto
  ultimately show ?thesis
    using pipelining [of 10 "[[[71], []], [[72]]]" "connection_new []" "[take 9 ?b, drop 9 ?b]" mem_store
        "Map.empty :: mem world command_table" "tenant_context []" "[]", THEN conjunct1]
    by (simp only: command_wf_def connection_new_def connection.simps) simp
qed



end
