(* ===== verification/Cmd_Bitmap.thy ===== *)
theory Cmd_Bitmap
  imports Kv_Object
begin

text \<open>
  The bitmap commands of \<open>src/src/cmd/bitmap.rs\<close>. A bitmap is kept in fragments of 1024 bytes, one subkey
  per fragment with its number as eight bytes; a missing fragment and the missing end of a fragment stand
  for zeroes. The size in the metadata is the number of the last byte ever written, plus one.

  The model's bitmap is a function from byte positions to bytes together with the size.
\<close>

section \<open>Definitions\<close>

unbundle bit_operations_syntax

definition FRAGMENT_BYTES :: nat where "FRAGMENT_BYTES = 1024"

definition FRAGMENT_BITS :: u64 where "FRAGMENT_BITS = of_nat (FRAGMENT_BYTES * 8)"

definition read_bitmap_meta :: "'db rocksdb \<Rightarrow> command_context \<Rightarrow> bytes
    \<Rightarrow> (('db, 'x) world_scheme, metadata option) kv" where
  "read_bitmap_meta R ctx user_key = and_then (get_meta R ctx user_key) (\<lambda>r. case r of
      Some v \<Rightarrow>
        if v = [] then raise (Protocol ''empty metadata value'')
        else if v ! 0 AND FLAGS_TYPE_MASK = code DT_String then raise wrong_type_error
        else and_then (lift (ok_or (decode_metadata v) (Protocol ''invalid bitmap metadata''))) (\<lambda>meta.
          if metadata_data_type meta \<noteq> Some DT_Bitmap then raise wrong_type_error
          else and_then now_ms (\<lambda>now. if is_expired meta now then ret None else ret (Some meta)))
    | None \<Rightarrow> ret None)"

definition get_or_create_metadata :: "'db rocksdb \<Rightarrow> command_context \<Rightarrow> bytes \<Rightarrow> (('db, 'x) world_scheme, metadata) kv" where
  "get_or_create_metadata R ctx user_key = and_then (read_bitmap_meta R ctx user_key) (\<lambda>r. case r of
      Some meta \<Rightarrow> ret meta
    | None \<Rightarrow> and_then generate_version (\<lambda>v. ret (metadata_new DT_Bitmap v)))"

definition read_fragment :: "'db rocksdb \<Rightarrow> command_context \<Rightarrow> metadata \<Rightarrow> bytes \<Rightarrow> u64
    \<Rightarrow> (('db, 'x) world_scheme, bytes) kv" where
  "read_fragment R ctx meta user_key index =
     and_then (storage_get R CF_SUBKEY (sub_key ctx user_key (m_version meta) (be64 index))) (\<lambda>r.
       ret (case r of Some v \<Rightarrow> v | None \<Rightarrow> []))"

definition parse_offset :: "bytes \<Rightarrow> failure + u64" where
  "parse_offset data = ok_or (str_parse_u64 data) (Command ''bit offset is not an integer or out of range'')"

definition parse_bit :: "bytes \<Rightarrow> failure + u8" where
  "parse_bit data = (if data = bytes_of ''0'' then Inr 0 else if data = bytes_of ''1'' then Inr 1
     else Inl (Err (Command ''bit is not an integer or out of range'')))"

definition parse_i64 :: "bytes \<Rightarrow> failure + i64" where
  "parse_i64 data = ok_or (str_parse_i64 data) NotInteger"

definition normalize_index :: "i64 \<Rightarrow> i64 \<Rightarrow> nat" where
  "normalize_index idx len =
     (let idx = if idx <s 0 then len + idx else idx;
          idx = if idx <s 0 then 0 else idx;
          idx = if len \<le>s idx then len - 1 else idx
      in unat idx)"

text \<open>Where the bit of an offset is: its fragment, the byte in the fragment and the bit in the byte.\<close>

definition frag_index :: "u64 \<Rightarrow> u64" where "frag_index offset = offset div FRAGMENT_BITS"

definition frag_off :: "u64 \<Rightarrow> nat" where "frag_off offset = unat (offset mod FRAGMENT_BITS div 8)"

definition bit_off :: "u64 \<Rightarrow> nat" where "bit_off offset = unat (offset mod 8)"

definition resize :: "bytes \<Rightarrow> nat \<Rightarrow> bytes" where
  "resize frag n = (if length frag < n then frag @ replicate (n - length frag) 0 else take n frag)"

definition put_bit :: "u8 \<Rightarrow> nat \<Rightarrow> u8 \<Rightarrow> u8" where
  "put_bit bit_value off b = (if bit_value = 1 then b OR push_bit off 1 else b AND NOT (push_bit off 1))"

definition setbit :: "'db rocksdb \<Rightarrow> ('db, 'x) world_scheme command_fn" where
  "setbit R ctx args = and_then (expect_arg_count ''SETBIT'' args 3) (\<lambda>_.
     and_then (lift (parse_offset (args ! 1))) (\<lambda>offset.
     and_then (lift (parse_bit (args ! 2))) (\<lambda>bit_value.
     and_then (get_or_create_metadata R ctx (args ! 0)) (\<lambda>meta.
     and_then (read_fragment R ctx meta (args ! 0) (frag_index offset)) (\<lambda>frag.
       let off = frag_off offset;
           frag = (if length frag \<le> off then resize frag (off + 1) else frag);
           old_bit = drop_bit (bit_off offset) (frag ! off) AND 1;
           frag = frag[off := put_bit bit_value (bit_off offset) (frag ! off)];
           byte_pos = offset div 8 + 1;
           meta = (if m_size meta < byte_pos then meta\<lparr>m_size := byte_pos\<rparr> else meta) in
       and_then (batch_put R [] CF_METADATA (meta_key ctx (args ! 0)) (encode_metadata meta)) (\<lambda>batch.
       and_then (batch_put R batch CF_SUBKEY (sub_key ctx (args ! 0) (m_version meta) (be64 (frag_index offset))) frag) (\<lambda>batch.
       and_then (storage_write R batch) (\<lambda>_. ret (Integer (ucast old_bit)))))))))) "

definition getbit :: "'db rocksdb \<Rightarrow> ('db, 'x) world_scheme command_fn" where
  "getbit R ctx args = and_then (expect_arg_count ''GETBIT'' args 2) (\<lambda>_.
     and_then (lift (parse_offset (args ! 1))) (\<lambda>offset.
     and_then (read_bitmap_meta R ctx (args ! 0)) (\<lambda>r. case r of
       None \<Rightarrow> ret (Integer 0)
     | Some meta \<Rightarrow> and_then (read_fragment R ctx meta (args ! 0) (frag_index offset)) (\<lambda>frag.
         if length frag \<le> frag_off offset then ret (Integer 0)
         else ret (Integer (ucast (drop_bit (bit_off offset) (frag ! frag_off offset) AND 1)))))))"

definition count_ones :: "u8 \<Rightarrow> nat" where
  "count_ones b = length (filter (bit b) [0..<8])"

definition count_fragment :: "'db rocksdb \<Rightarrow> command_context \<Rightarrow> metadata \<Rightarrow> bytes \<Rightarrow> nat \<Rightarrow> nat \<Rightarrow> nat \<Rightarrow> u64
    \<Rightarrow> (('db, 'x) world_scheme, u64) kv" where
  "count_fragment R ctx meta user_key start stop frag_idx count =
     and_then (read_fragment R ctx meta user_key (of_nat frag_idx)) (\<lambda>frag.
       if frag = [] then ret count
       else let frag_start_byte = frag_idx * FRAGMENT_BYTES;
                local_start = start - frag_start_byte;
                local_end = min (min (stop - frag_start_byte) (FRAGMENT_BYTES - 1)) (length frag - 1) in
         if local_end < local_start then ret count
         else ret (fold (\<lambda>b count. count + of_nat (count_ones b)) (byte_slice local_start (local_end + 1) frag) count))"

definition bitcount :: "'db rocksdb \<Rightarrow> ('db, 'x) world_scheme command_fn" where
  "bitcount R ctx args =
     (if length args \<noteq> 1 \<and> length args \<noteq> 3 then raise (WrongArgCount ''BITCOUNT'')
      else and_then (if length args = 1 then ret (0, - 1)
          else and_then (lift (parse_i64 (args ! 1))) (\<lambda>start.
               and_then (lift (parse_i64 (args ! 2))) (\<lambda>stop. ret (start, stop)))) (\<lambda>(start, stop).
      and_then (read_bitmap_meta R ctx (args ! 0)) (\<lambda>r. case r of
        None \<Rightarrow> ret (Integer 0)
      | Some meta \<Rightarrow>
          if m_size meta = 0 then ret (Integer 0)
          else let start = normalize_index start (m_size meta); stop = normalize_index stop (m_size meta) in
            if stop < start then ret (Integer 0)
            else and_then (for_loop (count_fragment R ctx meta (args ! 0) start stop)
                [start div FRAGMENT_BYTES..<Suc (stop div FRAGMENT_BYTES)] 0) (\<lambda>count.
              ret (Integer count)))))"

datatype bit_op = BitAnd | BitOr | BitXor | BitNot

definition parse_operation :: "bytes \<Rightarrow> failure + bit_op" where
  "parse_operation data =
     (if eq_ignore_ascii_case data (bytes_of ''AND'') then Inr BitAnd
      else if eq_ignore_ascii_case data (bytes_of ''OR'') then Inr BitOr
      else if eq_ignore_ascii_case data (bytes_of ''XOR'') then Inr BitXor
      else if eq_ignore_ascii_case data (bytes_of ''NOT'') then Inr BitNot
      else Inl (Err (Command ''syntax error'')))"

definition bitop_meta :: "'db rocksdb \<Rightarrow> command_context \<Rightarrow> bytes \<Rightarrow> metadata option list \<times> u64
    \<Rightarrow> (('db, 'x) world_scheme, metadata option list \<times> u64) kv" where
  "bitop_meta R ctx key = (\<lambda>(src_metas, max_size).
     and_then (read_bitmap_meta R ctx key) (\<lambda>r. case r of
       Some m \<Rightarrow> ret (src_metas @ [Some m], if max_size < m_size m then m_size m else max_size)
     | None \<Rightarrow> ret (src_metas @ [None], max_size)))"

definition byte_or_zero :: "bytes \<Rightarrow> nat \<Rightarrow> u8" where
  "byte_or_zero frag i = (if i < length frag then frag ! i else 0)"

text \<open>The case of NOT is not reached.\<close>

definition combine :: "bit_op \<Rightarrow> u8 \<Rightarrow> u8 \<Rightarrow> u8" where
  "combine bop a b = (case bop of BitAnd \<Rightarrow> a AND b | BitOr \<Rightarrow> a OR b | BitXor \<Rightarrow> a XOR b | BitNot \<Rightarrow> a)"

definition bitop_source :: "'db rocksdb \<Rightarrow> command_context \<Rightarrow> bit_op \<Rightarrow> u64 \<Rightarrow> nat \<Rightarrow> metadata option \<times> bytes
    \<Rightarrow> bool \<times> bytes \<Rightarrow> (('db, 'x) world_scheme, bool \<times> bytes) kv" where
  "bitop_source R ctx bop frag_idx frag_len = (\<lambda>(src_meta, key) (first, result).
     and_then (case src_meta of Some m \<Rightarrow> read_fragment R ctx m key frag_idx | None \<Rightarrow> ret []) (\<lambda>frag.
       if first then ret (False, map (byte_or_zero frag) [0..<frag_len])
       else ret (False, map (\<lambda>j. combine bop (result ! j) (byte_or_zero frag j)) [0..<frag_len])))"

definition bitop_result :: "'db rocksdb \<Rightarrow> command_context \<Rightarrow> bit_op \<Rightarrow> metadata option list \<Rightarrow> bytes list \<Rightarrow> u64 \<Rightarrow> nat
    \<Rightarrow> (('db, 'x) world_scheme, bytes) kv" where
  "bitop_result R ctx bop src_metas src_keys frag_idx frag_len = (case bop of
      BitNot \<Rightarrow> (case src_metas ! 0 of
          None \<Rightarrow> fail_with Panic
        | Some src_meta \<Rightarrow> and_then (read_fragment R ctx src_meta (src_keys ! 0) frag_idx) (\<lambda>frag.
            ret (map (\<lambda>i. if i < length frag then NOT (frag ! i) else NOT 0) [0..<frag_len])))
    | _ \<Rightarrow> and_then (for_loop (bitop_source R ctx bop frag_idx frag_len) (zip src_metas src_keys) (True, replicate frag_len 0))
        (\<lambda>(_, result). ret result))"

definition bitop_fragment :: "'db rocksdb \<Rightarrow> command_context \<Rightarrow> bit_op \<Rightarrow> metadata option list \<Rightarrow> bytes list \<Rightarrow> bytes \<Rightarrow> u64 \<Rightarrow> u64
    \<Rightarrow> nat \<Rightarrow> batch_op list \<Rightarrow> (('db, 'x) world_scheme, batch_op list) kv" where
  "bitop_fragment R ctx bop src_metas src_keys dest_key dest_version max_size frag_idx batch =
     (let frag_start_byte = frag_idx * FRAGMENT_BYTES;
          frag_len = min FRAGMENT_BYTES (unat max_size - frag_start_byte) in
      if frag_len = 0 then ret batch
      else and_then (bitop_result R ctx bop src_metas src_keys (of_nat frag_idx) frag_len) (\<lambda>result.
        batch_put R batch CF_SUBKEY (sub_key ctx dest_key dest_version (be64 (of_nat frag_idx))) result))"

definition bitop :: "'db rocksdb \<Rightarrow> ('db, 'x) world_scheme command_fn" where
  "bitop R ctx args = and_then (expect_min_arg_count ''BITOP'' args 3) (\<lambda>_.
     and_then (lift (parse_operation (args ! 0))) (\<lambda>bop.
       let dest_key = args ! 1; src_keys = drop 2 args in
       if bop = BitNot \<and> length src_keys \<noteq> 1 then raise (Command ''BITOP NOT must be called with a single source key'')
       else and_then (for_loop (bitop_meta R ctx) src_keys ([], 0)) (\<lambda>(src_metas, max_size).
         and_then generate_version (\<lambda>dest_version.
           let dest_meta = (metadata_new DT_Bitmap dest_version)\<lparr>m_size := max_size\<rparr> in
           and_then (batch_put R [] CF_METADATA (meta_key ctx dest_key) (encode_metadata dest_meta)) (\<lambda>batch.
             if max_size = 0 then and_then (storage_write R batch) (\<lambda>_. ret (Integer 0))
             else let max_frag_idx = (unat max_size - 1) div FRAGMENT_BYTES in
               and_then (for_loop (bitop_fragment R ctx bop src_metas src_keys dest_key dest_version max_size) [0..<Suc max_frag_idx] batch)
                 (\<lambda>batch. and_then (storage_write R batch) (\<lambda>_. ret (Integer max_size))))))))"

section \<open>Positions\<close>

lemma FRAGMENT_BITS_8192: "FRAGMENT_BITS = 8192"
  by (simp add: FRAGMENT_BITS_def FRAGMENT_BYTES_def)

lemma unat_offset: "unat (offset :: u64) div 8 < 2 ^ 61"
proof -
  have "unat offset < 2 ^ 64" using unsigned_less [of offset] by simp
  then show ?thesis by (simp add: less_mult_imp_div_less)
qed

lemma frag_index_pos: "frag_index offset = of_nat (unat offset div 8 div 1024)"
proof -
  have "unat (frag_index offset) = unat offset div 8 div 1024"
    by (simp add: frag_index_def FRAGMENT_BITS_8192 unat_div div_mult2_eq [symmetric])
  moreover have "frag_index offset = of_nat (unat (frag_index offset))" by simp
  ultimately show ?thesis by (simp only:)
qed

lemma frag_off_pos: "frag_off offset = unat offset div 8 mod 1024"
proof -
  have "unat offset mod 8192 div 8 = unat offset div 8 mod 1024"
    using mod_mult2_eq [of "unat offset" 8 1024] by simp
  then show ?thesis by (simp add: frag_off_def FRAGMENT_BITS_8192 unat_div unat_mod)
qed

lemma bit_off_pos: "bit_off offset = unat offset mod 8"
  by (simp add: bit_off_def unat_mod)

lemma position_eq_iff: "unat (a :: u64) div 8 = unat b div 8 \<and> unat a mod 8 = unat b mod 8 \<longleftrightarrow> a = b"
  by (metis div_mult_mod_eq word_unat_eq_iff)

lemma of_nat_frag_eq: "i < 2 ^ 51 \<Longrightarrow> j < 2 ^ 51 \<Longrightarrow> (of_nat i :: u64) = of_nat j \<longleftrightarrow> i = j"
  by (auto simp: word_of_nat_eq_iff take_bit_nat_eq_self)

section \<open>The bitmap a key represents\<close>

definition frag_at :: "(bytes \<rightharpoonup> bytes) \<Rightarrow> nat \<Rightarrow> bytes" where
  "frag_at S i = (case S (be64 (of_nat i)) of Some f \<Rightarrow> f | None \<Rightarrow> [])"

definition stored_byte :: "(bytes \<rightharpoonup> bytes) \<Rightarrow> nat \<Rightarrow> u8" where
  "stored_byte S p = byte_or_zero (frag_at S (p div 1024)) (p mod 1024)"

definition bitmap_inv :: "(string \<Rightarrow> bytes \<rightharpoonup> bytes) \<Rightarrow> bytes \<Rightarrow> bytes \<Rightarrow> metadata \<Rightarrow> nat \<Rightarrow> (nat \<Rightarrow> u8) \<Rightarrow> bool" where
  "bitmap_inv m ns k md n B \<longleftrightarrow> m_size md = of_nat n \<and> n \<le> 2 ^ 61
     \<and> (\<forall>i < 2 ^ 51. length (frag_at (subkeys_of m CF_SUBKEY ns k (m_version md)) i) \<le> 1024)
     \<and> (\<forall>p < 2 ^ 61. stored_byte (subkeys_of m CF_SUBKEY ns k (m_version md)) p = B p) \<and> (\<forall>p \<ge> n. B p = 0)"

definition bitmap_rep :: "(string \<Rightarrow> bytes \<rightharpoonup> bytes) \<Rightarrow> bytes \<Rightarrow> bytes \<Rightarrow> i64 \<Rightarrow> nat \<Rightarrow> (nat \<Rightarrow> u8) \<Rightarrow> bool" where
  "bitmap_rep m ns k e n B = typed_rep DT_Bitmap m ns k e (\<lambda>r. case r of
      None \<Rightarrow> n = 0 \<and> B = (\<lambda>_. 0)
    | Some md \<Rightarrow> bitmap_inv m ns k md n B)"

text \<open>The bit at an offset.\<close>

definition bit_of :: "(nat \<Rightarrow> u8) \<Rightarrow> u64 \<Rightarrow> bool" where
  "bit_of B offset = bit (B (unat offset div 8)) (unat offset mod 8)"

definition store_bit :: "(nat \<Rightarrow> u8) \<Rightarrow> u64 \<Rightarrow> u8 \<Rightarrow> (nat \<Rightarrow> u8)" where
  "store_bit B offset v = B(unat offset div 8 := put_bit v (unat offset mod 8) (B (unat offset div 8)))"

lemma bit_put_bit: "off < 8 \<Longrightarrow> bit (put_bit v off b) i \<longleftrightarrow> (if i = off then v = 1 else bit b i)"
  using bit_imp_le_length [of b i] by (auto simp: put_bit_def bit_simps)

lemma bit_of_store_bit: "bit_of (store_bit B offset v) o' \<longleftrightarrow> (if o' = offset then v = 1 else bit_of B o')"
proof (cases "unat o' div 8 = unat offset div 8")
  case True
  then show ?thesis using position_eq_iff [of o' offset] by (simp add: bit_of_def store_bit_def bit_put_bit)
next
  case False
  then show ?thesis by (auto simp: bit_of_def store_bit_def)
qed

lemma drop_bit_and_1: "drop_bit n (b :: u8) AND 1 = of_bool (bit b n)"
  by (simp add: and_one_eq bit_iff_odd_drop_bit mod_2_eq_odd)

lemma bitmap_inv_empty:
  "subkeys_of m CF_SUBKEY ns k (m_version md) = Map.empty \<Longrightarrow> m_size md = 0 \<Longrightarrow> bitmap_inv m ns k md 0 (\<lambda>_. 0)"
  by (simp add: bitmap_inv_def frag_at_def stored_byte_def byte_or_zero_def)

text \<open>Changing one byte of a fragment.\<close>

definition grown :: "bytes \<Rightarrow> nat \<Rightarrow> bytes" where
  "grown frag off = (if length frag \<le> off then resize frag (off + 1) else frag)"

lemma length_grown: "length (grown frag off) = max (length frag) (off + 1)"
  by (simp add: grown_def resize_def)

lemma byte_or_zero_grown: "byte_or_zero (grown frag off) i = byte_or_zero frag i"
  by (auto simp: byte_or_zero_def grown_def resize_def nth_append)

lemma grown_nth: "grown frag off ! off = byte_or_zero frag off"
  by (auto simp: byte_or_zero_def grown_def resize_def nth_append)

lemma byte_or_zero_update:
  "off < length frag \<Longrightarrow> byte_or_zero (frag[off := b]) i = (if i = off then b else byte_or_zero frag i)"
  by (auto simp: byte_or_zero_def)

lemma stored_byte_update:
  assumes "p < 2 ^ 61" and "p' < 2 ^ 61" and "p mod 1024 < length frag"
    and "\<And>i. byte_or_zero frag i = byte_or_zero (frag_at S (p div 1024)) i"
  shows "stored_byte (S(be64 (of_nat (p div 1024)) \<mapsto> frag[p mod 1024 := b])) p' = (if p' = p then b else stored_byte S p')"
proof -
  have "p div 1024 < 2 ^ 51" "p' div 1024 < 2 ^ 51" using assms(1,2) by (simp_all add: less_mult_imp_div_less)
  then have eq: "(of_nat (p' div 1024) :: u64) = of_nat (p div 1024) \<longleftrightarrow> p' div 1024 = p div 1024" by (rule of_nat_frag_eq [rotated])
  have "p' = p \<longleftrightarrow> p' div 1024 = p div 1024 \<and> p' mod 1024 = p mod 1024" by (metis div_mult_mod_eq)
  then show ?thesis
    using eq assms(3,4) by (auto simp: stored_byte_def frag_at_def byte_or_zero_update)
qed

sublocale command_env \<subseteq> bitmap_reader: typed_reader R view ctx "read_bitmap_meta R ctx" DT_Bitmap "''invalid bitmap metadata''"
proof
  fix k and s :: "('db, 'x) world_scheme"
  show "fst (read_bitmap_meta R ctx k s) = typed_meta DT_Bitmap ''invalid bitmap metadata'' (meta_of s k) (clock s 0)"
    by (simp add: read_bitmap_meta_def kv_run typed_meta_def split: option.split)
  show "same_world s (snd (read_bitmap_meta R ctx k s))"
    by (simp add: read_bitmap_meta_def kv_run split: option.split)
qed

lemma bitmap_rep_cases:
  assumes "bitmap_rep m ns k e n B"
  obtains (gone) "typed_meta DT_Bitmap msg (lookup_meta m ns k) now = Inr None" "unexpired e now 0 n = 0"
      "unexpired e now (\<lambda>_. 0) B = (\<lambda>_. 0)" "unexpired e now 0 e = 0" "lookup_meta m ns k = None \<or> expired_at e now"
  | (live) md where "typed_meta DT_Bitmap msg (lookup_meta m ns k) now = Inr (Some md)"
      "unexpired e now 0 n = n" "unexpired e now (\<lambda>_. 0) B = B" "unexpired e now 0 e = e"
      "meta_wf md" "metadata_data_type md = Some DT_Bitmap" "m_expire md = e" "bitmap_inv m ns k md n B"
proof -
  have dt: "DT_Bitmap \<noteq> DT_String" by simp
  from assms [unfolded bitmap_rep_def] dt show ?thesis
  proof (cases rule: typed_rep_cases [where msg = msg and now = now])
    case gone
    then show ?thesis by (intro that(1)) (auto simp: unexpired_def)
  next
    case (live md)
    then show ?thesis by (intro that(2) [of md]) (auto simp: unexpired_def)
  qed
qed

lemma bitmap_rep_write:
  assumes "ns_wf ns" and "key_wf k" and "\<forall>op \<in> set ops. op_cf op = CF_SUBKEY"
    and "bitmap_inv (fold apply_op ops m) ns k md n B" and "metadata_data_type md = Some DT_Bitmap" and "meta_wf md"
  shows "bitmap_rep (fold apply_op (Put CF_METADATA (metadata_key k ns) (encode_metadata md) # ops) m) ns k (m_expire md) n B"
proof -
  have cfs: "\<forall>op \<in> set ops. op_cf op \<noteq> CF_METADATA" using assms(3) by auto
  then have "fold apply_op (Put CF_METADATA (metadata_key k ns) (encode_metadata md) # ops) m
      = fold apply_op (ops @ [Put CF_METADATA (metadata_key k ns) (encode_metadata md)]) m"
    by (intro fold_apply_op_first) auto
  moreover have "bitmap_rep (fold apply_op (ops @ [Put CF_METADATA (metadata_key k ns) (encode_metadata md)]) m) ns k (m_expire md) n B"
    unfolding bitmap_rep_def
    by (rule typed_rep_write [OF assms(1,2) cfs])
      (use assms(4-6) in \<open>auto simp: bitmap_inv_def subkeys_of_put_meta simp del: fold_append\<close>)
  ultimately show ?thesis by (simp only:)
qed

section \<open>Single bits\<close>

lemma bitmap_inv_store_bit:
  assumes "bitmap_inv m ns k md n B" and "S = subkeys_of m CF_SUBKEY ns k (m_version md)"
    and "p = unat offset div 8" and "frag = grown (frag_at S (p div 1024)) (p mod 1024)"
    and "md' = (if m_size md < offset div 8 + 1 then md\<lparr>m_size := offset div 8 + 1\<rparr> else md)"
  shows "bitmap_inv (apply_op (Put CF_SUBKEY (subkey k (m_version md) (be64 (frag_index offset)) ns)
      (frag[p mod 1024 := put_bit v (unat offset mod 8) (frag ! (p mod 1024))])) m) ns k md' (max n (p + 1)) (store_bit B offset v)"
proof -
  have p: "p < 2 ^ 61" using unat_offset assms(3) by simp
  let ?b = "put_bit v (unat offset mod 8) (frag ! (p mod 1024))"
  let ?S = "S(be64 (of_nat (p div 1024)) \<mapsto> frag[p mod 1024 := ?b])"
  have len: "p mod 1024 < length frag" by (simp add: assms(4) length_grown)
  have same: "byte_or_zero frag i = byte_or_zero (frag_at S (p div 1024)) i" for i by (simp add: assms(4) byte_or_zero_grown)
  have old: "stored_byte S q = B q" if "q < 2 ^ 61" for q using assms(1,2) that by (simp add: bitmap_inv_def)
  have "frag ! (p mod 1024) = B p" using old [OF p] by (simp add: assms(4) grown_nth stored_byte_def)
  then have bytes: "stored_byte ?S q = store_bit B offset v q" if "q < 2 ^ 61" for q
    using stored_byte_update [OF p that len same] old [OF that] by (simp add: store_bit_def assms(3))
  have "p div 1024 < 2 ^ 51" using p by (simp add: less_mult_imp_div_less)
  then have frags: "length (frag_at ?S i) \<le> 1024" if "i < 2 ^ 51" for i
    using assms(1,2,4) that of_nat_frag_eq [OF that, of "p div 1024"]
    by (auto simp: frag_at_def bitmap_inv_def length_grown Suc_le_eq)
  have size: "unat (offset div 8 + 1) = p + 1" using p assms(3) by (simp add: unat_word_ariths unat_div)
  have n: "n \<le> 2 ^ 61" "m_size md = of_nat n" using assms(1) by (simp_all add: bitmap_inv_def)
  then have "unat (m_size md) = n" by (simp add: unat_of_nat)
  with size have lt: "m_size md < offset div 8 + 1 \<longleftrightarrow> n < p + 1" by (simp add: word_less_nat_alt)
  have "offset div 8 + 1 = of_nat (unat (offset div 8 + 1))" by simp
  then have "offset div 8 + 1 = of_nat (p + 1)" unfolding size .
  then have sz: "m_size md' = of_nat (max n (p + 1))"
    unfolding assms(5) lt using n(2) by (cases "n < p + 1") (simp_all add: max_def)
  have "store_bit B offset v q = 0" if "max n (p + 1) \<le> q" for q
    using assms(1,3) that by (auto simp: bitmap_inv_def store_bit_def)
  with sz p n bytes frags assms(2,5) show ?thesis
    by (auto simp: bitmap_inv_def frag_index_pos assms(3) simp del: apply_op.simps of_nat_Suc fun_upd_apply)
qed

context command_env
begin

lemma read_fragment_run:
  "read_fragment R ctx md k (of_nat i) s
    = (Inr (frag_at (subkeys_of (view (db s)) CF_SUBKEY (namespace ctx) k (m_version md)) i), s)"
  by (simp add: read_fragment_def kv_run sub_key_def subkeys_of_def frag_at_def)

lemma run_read_fragment:
  "and_then (read_fragment R ctx md k (frag_index offset)) f s
    = f (frag_at (subkeys_of (view (db s)) CF_SUBKEY (namespace ctx) k (m_version md)) (unat offset div 8 div 1024)) s"
  by (simp add: and_then_Inr [where m = "read_fragment _ _ _ _ _", OF read_fragment_run] frag_index_pos)


lemma setbit_target:
  fixes s :: "('db, 'x) world_scheme"
  assumes "bitmap_rep (view (db s)) (namespace ctx) k e n B"
    and "lookup_meta (view (db s)) (namespace ctx) k = None \<or> expired_at e (clock s 0) \<longrightarrow>
      fresh_version (view (db s)) (namespace ctx) k (next_version (snd (read_bitmap_meta R ctx k s)))"
  obtains md t where "get_or_create_metadata R ctx k s = (Inr md, t)" and "db t = db s" and "meta_wf md"
    and "metadata_data_type md = Some DT_Bitmap" and "m_expire md = unexpired e (clock s 0) 0 e"
    and "bitmap_inv (view (db s)) (namespace ctx) k md (unexpired e (clock s 0) 0 n) (unexpired e (clock s 0) (\<lambda>_. 0) B)"
  using assms(1)
proof (cases rule: bitmap_rep_cases [where msg = "''invalid bitmap metadata''" and now = "clock s 0"])
  case gone
  let ?t = "snd (read_bitmap_meta R ctx k s)"
  let ?md = "metadata_new DT_Bitmap (next_version ?t)"
  have "subkeys_of (view (db s)) CF_SUBKEY (namespace ctx) k (m_version ?md) = Map.empty"
    using gone assms(2) by (simp add: fresh_version_def metadata_new_def)
  from bitmap_inv_empty [OF this] gone show ?thesis
    by (intro that [of ?md "?t\<lparr>clock := \<lambda>i. clock ?t (Suc i), rng := \<lambda>i. rng ?t (Suc i)\<rparr>"])
      (simp_all add: get_or_create_metadata_def kv_run next_version_def meta_wf_def)
next
  case (live md)
  then show ?thesis
    by (intro that [of md "snd (read_bitmap_meta R ctx k s)"]) (simp_all add: get_or_create_metadata_def kv_run)
qed

lemma setbit_rep:
  fixes s :: "('db, 'x) world_scheme"
  assumes "key_wf k" and "bitmap_rep (view (db s)) (namespace ctx) k e n B"
    and "parse_offset off = Inr offset" and "parse_bit v = Inr b"
    and "lookup_meta (view (db s)) (namespace ctx) k = None \<or> expired_at e (clock s 0) \<longrightarrow>
      fresh_version (view (db s)) (namespace ctx) k (next_version (snd (read_bitmap_meta R ctx k s)))"
  shows "\<exists>t. setbit R ctx [k, off, v] s = (Inr (Integer (of_bool (bit_of (unexpired e (clock s 0) (\<lambda>_. 0) B) offset))), t)
    \<and> bitmap_rep (view (db t)) (namespace ctx) k (unexpired e (clock s 0) 0 e)
        (max (unexpired e (clock s 0) 0 n) (unat offset div 8 + 1)) (store_bit (unexpired e (clock s 0) (\<lambda>_. 0) B) offset b)
    \<and> (\<forall>k' ns. key_wf k' \<and> ns_wf ns \<and> k' \<noteq> k \<longrightarrow> object_view (view (db t)) ns k' = object_view (view (db s)) ns k')"
proof -
  let ?ns = "namespace ctx" and ?p = "unat offset div 8"
  obtain md t where target: "get_or_create_metadata R ctx k s = (Inr md, t)" and t: "db t = db s"
    and md: "meta_wf md" "metadata_data_type md = Some DT_Bitmap" "m_expire md = unexpired e (clock s 0) 0 e"
    and inv: "bitmap_inv (view (db s)) ?ns k md (unexpired e (clock s 0) 0 n) (unexpired e (clock s 0) (\<lambda>_. 0) B)"
    by (rule setbit_target [OF assms(2,5)])
  let ?S = "subkeys_of (view (db s)) CF_SUBKEY ?ns k (m_version md)"
  let ?f = "grown (frag_at ?S (?p div 1024)) (?p mod 1024)"
  let ?md = "if m_size md < offset div 8 + 1 then md\<lparr>m_size := offset div 8 + 1\<rparr> else md"
  let ?op = "Put CF_SUBKEY (subkey k (m_version md) (be64 (frag_index offset)) ?ns)
    (?f[?p mod 1024 := put_bit b (unat offset mod 8) (?f ! (?p mod 1024))])"
  let ?ops = "[Put CF_METADATA (metadata_key k ?ns) (encode_metadata ?md), ?op]"
  have ops: "\<forall>op \<in> set ?ops. op_of ?ns k op" by simp
  then have cfs: "\<forall>op \<in> set ?ops. op_cf op \<in> set ALL_CFS" using op_of_cf by blast
  have md': "m_version ?md = m_version md" "m_expire ?md = m_expire md" "metadata_data_type ?md = Some DT_Bitmap" "meta_wf ?md"
    using md by (simp_all add: metadata_data_type_def meta_wf_def)
  have "?f ! (?p mod 1024) = unexpired e (clock s 0) (\<lambda>_. 0) B ?p"
    using inv unat_offset [of offset] by (simp add: bitmap_inv_def grown_nth stored_byte_def)
  then have old: "drop_bit (unat offset mod 8) (?f ! (?p mod 1024)) AND 1 = of_bool (bit_of (unexpired e (clock s 0) (\<lambda>_. 0) B) offset)"
    by (simp add: drop_bit_and_1 bit_of_def)
  have "setbit R ctx [k, off, v] s =
      (Inr (Integer (ucast (drop_bit (unat offset mod 8) (?f ! (?p mod 1024)) AND 1))), write_world R ?ops t)"
    by (simp add: setbit_def run_expect_arg_count assms(3,4) and_then_Inr [where m = "get_or_create_metadata R ctx k", OF target]
        run_read_fragment Let_def frag_off_pos bit_off_pos grown_def [symmetric] t run_batch_put run_write [OF cfs] md'(1)
        meta_key_def sub_key_def del: Suc_eq_plus1)
  moreover have "bitmap_rep (fold apply_op ?ops (view (db s))) ?ns k (m_expire ?md)
      (max (unexpired e (clock s 0) 0 n) (?p + 1)) (store_bit (unexpired e (clock s 0) (\<lambda>_. 0) B) offset b)"
    using bitmap_inv_store_bit [OF inv refl refl refl refl] md'
    by (intro bitmap_rep_write [OF namespace_wf assms(1)]) (simp_all del: apply_op.simps)
  moreover have "object_view (fold apply_op ?ops (view (db s))) ns k' = object_view (view (db s)) ns k'"
    if "key_wf k'" "ns_wf ns" "k' \<noteq> k" for k' ns
    by (rule object_view_batch [OF ops namespace_wf assms(1) that])
  ultimately show ?thesis
    using old md(3) md'(2) t write_world_db(2) [OF cfs, of t] by (intro exI [of _ "write_world R ?ops t"]) (simp del: fold.simps)
qed

lemma getbit_rep:
  fixes s :: "('db, 'x) world_scheme"
  assumes "bitmap_rep (view (db s)) (namespace ctx) k e n B" and "parse_offset off = Inr offset"
  shows "fst (getbit R ctx [k, off] s) = Inr (Integer (of_bool (bit_of (unexpired e (clock s 0) (\<lambda>_. 0) B) offset)))"
  using assms(1)
proof (cases rule: bitmap_rep_cases [where msg = "''invalid bitmap metadata''" and now = "clock s 0"])
  case gone
  with assms(2) show ?thesis by (simp add: getbit_def kv_run bit_of_def)
next
  case (live md)
  let ?p = "unat offset div 8"
  let ?f = "frag_at (subkeys_of (view (db s)) CF_SUBKEY (namespace ctx) k (m_version md)) (?p div 1024)"
  have "byte_or_zero ?f (?p mod 1024) = B ?p"
    using live(8) unat_offset [of offset] by (simp add: bitmap_inv_def stored_byte_def)
  then have "bit (B ?p) i = (?p mod 1024 < length ?f \<and> bit (?f ! (?p mod 1024)) i)" for i
    by (auto simp: byte_or_zero_def split: if_splits)
  with live assms(2) show ?thesis
    by (auto simp: getbit_def kv_run run_read_fragment frag_off_pos bit_off_pos drop_bit_and_1 bit_of_def)
qed

end

section \<open>Counting\<close>

text \<open>A byte index of a request: negative ones count from the end, and the rest is clamped into the value.\<close>

definition clamp :: "i64 \<Rightarrow> nat \<Rightarrow> nat" where
  "clamp i n = nat (min (int n - 1) (max 0 (if sint i < 0 then int n + sint i else sint i)))"

definition ones_in :: "(nat \<Rightarrow> u8) \<Rightarrow> nat \<Rightarrow> nat \<Rightarrow> nat" where
  "ones_in B lo hi = (\<Sum>p = lo..<hi. count_ones (B p))"

lemma normalize_index_clamp:
  assumes "0 < n" and "n \<le> 2 ^ 61"
  shows "normalize_index i (of_nat n) = clamp i n"
proof -
  have n: "sint (of_nat n :: i64) = int n" using assms(2) by (intro sint_of_nat_i64) simp
  have i: "- (2 ^ 63) \<le> sint i" "sint i < 2 ^ 63" using sint_u64_range [of i] by simp_all
  let ?j = "if i <s 0 then of_nat n + i else i"
  let ?k = "if ?j <s 0 then 0 else ?j"
  let ?l = "if of_nat n \<le>s ?k then of_nat n - 1 else ?k"
  have j: "sint ?j = (if sint i < 0 then int n + sint i else sint i)"
    using assms(2) i n by (simp add: word_sless_alt sint_add_range)
  have k: "sint ?k = max 0 (if sint i < 0 then int n + sint i else sint i)" "0 \<le> sint ?k"
    using j by (auto simp: word_sless_alt max_def)
  have "sint (of_nat n - 1 :: i64) = int n - 1" using assms n by (simp add: sint_diff_range)
  then have l: "sint ?l = min (int n - 1) (max 0 (if sint i < 0 then int n + sint i else sint i))"
    using k(1) n by (auto simp: word_sle_eq min_def)
  moreover have "0 \<le> sint ?l" using l assms(1) by simp
  ultimately have "unat ?l = clamp i n" by (simp add: unat_sint clamp_def)
  then show ?thesis by (simp add: normalize_index_def Let_def)
qed

lemma clamp_less: "0 < n \<Longrightarrow> clamp i n < n"
  by (auto simp: clamp_def)

lemma count_ones_0 [simp]: "count_ones 0 = 0"
  by (simp add: count_ones_def)

lemma ones_in_fragment:
  "sum_list (map count_ones (byte_slice a b frag)) = ones_in (byte_or_zero frag) a b"
proof -
  have "byte_slice a b frag = map ((!) frag) [a..<min b (length frag)]"
    by (rule nth_equalityI) (auto simp: byte_slice_def less_diff_conv add.commute)
  then have "sum_list (map count_ones (byte_slice a b frag)) = (\<Sum>p = a..<min b (length frag). count_ones (byte_or_zero frag p))"
    by (simp add: interv_sum_list_conv_sum_set_nat byte_or_zero_def)
  also have "\<dots> = ones_in (byte_or_zero frag) a b"
    unfolding ones_in_def by (rule sum.mono_neutral_left) (auto simp: byte_or_zero_def)
  finally show ?thesis .
qed

lemma fold_count_ones:
  "fold (\<lambda>b count. count + of_nat (count_ones b)) bs c = (c :: u64) + of_nat (sum_list (map count_ones bs))"
  by (induction bs arbitrary: c) (simp_all add: add.assoc)

lemma ones_in_shift:
  "hi \<le> 1024 \<Longrightarrow> ones_in (byte_or_zero (frag_at S i)) lo hi = ones_in (stored_byte S) (lo + i * 1024) (hi + i * 1024)"
  unfolding ones_in_def sum.shift_bounds_nat_ivl by (rule sum.cong) (simp_all add: stored_byte_def)

lemma ones_in_append: "a \<le> b \<Longrightarrow> b \<le> c \<Longrightarrow> ones_in B a b + ones_in B b c = ones_in B a c"
  by (simp add: ones_in_def sum.atLeastLessThan_concat)

lemma ones_in_empty: "b \<le> a \<Longrightarrow> ones_in B a b = 0"
  by (simp add: ones_in_def)

context command_env
begin

lemma count_fragment_run:
  fixes s :: "('db, 'x) world_scheme"
  assumes "bitmap_inv (view (db s)) (namespace ctx) k md n B" and "stop < n" and "i \<le> stop div 1024"
  shows "count_fragment R ctx md k start stop i c s
    = (Inr (c + of_nat (ones_in B (max start (i * 1024)) (min (stop + 1) (Suc i * 1024)))), s)"
proof -
  let ?S = "subkeys_of (view (db s)) CF_SUBKEY (namespace ctx) k (m_version md)"
  let ?frag = "frag_at ?S i"
  let ?u = "min (stop + 1 - i * 1024) 1024"
  have n: "n \<le> 2 ^ 61" and B: "\<And>p. p < 2 ^ 61 \<Longrightarrow> stored_byte ?S p = B p" using assms(1) by (simp_all add: bitmap_inv_def)
  have i: "i * 1024 \<le> stop" using assms(3) by (metis div_times_less_eq_dividend le_trans mult_le_mono1)
  have "ones_in (byte_or_zero ?frag) (start - i * 1024) ?u = ones_in (stored_byte ?S) (start - i * 1024 + i * 1024) (?u + i * 1024)"
    by (rule ones_in_shift) simp
  also have "start - i * 1024 + i * 1024 = max start (i * 1024)" by simp
  also have "?u + i * 1024 = min (stop + 1) (Suc i * 1024)" using i by auto
  also have "ones_in (stored_byte ?S) (max start (i * 1024)) (min (stop + 1) (Suc i * 1024))
      = ones_in B (max start (i * 1024)) (min (stop + 1) (Suc i * 1024))"
    unfolding ones_in_def using assms(2) n by (intro sum.cong) (auto intro!: arg_cong [of _ _ count_ones] B)
  finally have total: "ones_in (byte_or_zero ?frag) (start - i * 1024) ?u = ones_in B (max start (i * 1024)) (min (stop + 1) (Suc i * 1024))" .
  have short: "ones_in (byte_or_zero ?frag) lo ?u = ones_in (byte_or_zero ?frag) lo (min ?u (length ?frag))" for lo
    unfolding ones_in_def by (rule sum.mono_neutral_right) (auto simp: byte_or_zero_def)
  have last: "min (min (stop - i * 1024) 1023) (length ?frag - 1) + 1 = min ?u (length ?frag)" if "?frag \<noteq> []"
    using i that by (cases ?frag) auto
  show ?thesis
  proof (cases "?frag = []")
    case True
    then have "ones_in (byte_or_zero ?frag) (start - i * 1024) ?u = 0" unfolding short by (simp add: ones_in_empty)
    with True total show ?thesis
      by (simp add: count_fragment_def and_then_Inr [where m = "read_fragment _ _ _ _ _", OF read_fragment_run])
  next
    case False
    let ?e = "min (min (stop - i * 1024) 1023) (length ?frag - 1)"
    have "ones_in (byte_or_zero ?frag) (start - i * 1024) (?e + 1) = ones_in B (max start (i * 1024)) (min (stop + 1) (Suc i * 1024))"
      unfolding last [OF False] total [symmetric] by (rule short [symmetric])
    then show ?thesis
      using False ones_in_empty [of "?e + 1" "start - i * 1024" "byte_or_zero ?frag"]
      by (simp add: count_fragment_def and_then_Inr [where m = "read_fragment _ _ _ _ _", OF read_fragment_run] Let_def
          FRAGMENT_BYTES_def fold_count_ones ones_in_fragment)
  qed
qed

lemma count_fragments:
  fixes s :: "('db, 'x) world_scheme"
  assumes "bitmap_inv (view (db s)) (namespace ctx) k md n B" and "stop < n" and "a \<le> b" and "b \<le> Suc (stop div 1024)"
    and "start div 1024 \<le> a" and "start \<le> stop"
  shows "for_loop (count_fragment R ctx md k start stop) [a..<b] c s
    = (Inr (c + of_nat (ones_in B (max start (a * 1024)) (min (stop + 1) (b * 1024)))), s)"
  using assms(3-5)
proof (induction "b - a" arbitrary: a c)
  case 0
  then show ?case by (simp add: ones_in_empty)
next
  case (Suc d)
  then have ab: "a < b" "a \<le> stop div 1024" by auto
  have fin: "a * 1024 \<le> stop" using ab(2) by (metis div_times_less_eq_dividend le_trans mult_le_mono1)
  have "start < Suc a * 1024" using Suc.prems(3) by (metis div_less_iff_less_mult less_Suc_eq_le zero_less_numeral)
  then have mx: "max start (Suc a * 1024) = Suc a * 1024" by simp
  have split: "ones_in B (max start (a * 1024)) (min (stop + 1) (Suc a * 1024)) + ones_in B (Suc a * 1024) (min (stop + 1) (b * 1024))
      = ones_in B (max start (a * 1024)) (min (stop + 1) (b * 1024))"
  proof (cases "Suc a * 1024 \<le> stop + 1")
    case True
    have "Suc a * 1024 \<le> b * 1024" using ab(1) by (intro mult_le_mono1) simp
    with True have "Suc a * 1024 \<le> min (stop + 1) (b * 1024)" by (rule min.boundedI)
    moreover have "max start (a * 1024) \<le> Suc a * 1024" using \<open>start < Suc a * 1024\<close> by simp
    moreover have "min (stop + 1) (Suc a * 1024) = Suc a * 1024" using True by (rule min.absorb2)
    ultimately show ?thesis using ones_in_append by (simp only:)
  next
    case False
    then have "stop + 1 \<le> Suc a * 1024" "stop + 1 \<le> b * 1024" using ab(1) by auto
    then show ?thesis by (simp add: ones_in_empty)
  qed
  have upt: "[a..<b] = a # [Suc a..<b]" using ab(1) by (simp add: upt_conv_Cons)
  show ?case
    unfolding upt for_loop_step [where f = "count_fragment R ctx md k start stop", OF count_fragment_run [OF assms(1,2) ab(2)]]
    using Suc.hyps(1) [of "Suc a"] Suc.hyps(2) Suc.prems ab mx split
    by (simp add: add.assoc of_nat_add [symmetric] del: of_nat_add)
qed

lemma bitcount_rep:
  fixes s :: "('db, 'x) world_scheme"
  assumes "bitmap_rep (view (db s)) (namespace ctx) k e n B"
    and "args = [k] \<and> a = 0 \<and> b = - 1 \<or> (\<exists>x y. args = [k, x, y] \<and> parse_i64 x = Inr a \<and> parse_i64 y = Inr b)"
  shows "fst (bitcount R ctx args s) = Inr (Integer (of_nat
    (ones_in (unexpired e (clock s 0) (\<lambda>_. 0) B) (clamp a n) (Suc (clamp b n)))))"
proof -
  have args: "bitcount R ctx args = and_then (read_bitmap_meta R ctx k) (\<lambda>r. case r of
        None \<Rightarrow> ret (Integer 0)
      | Some meta \<Rightarrow>
          if m_size meta = 0 then ret (Integer 0)
          else let start = normalize_index a (m_size meta); stop = normalize_index b (m_size meta) in
            if stop < start then ret (Integer 0)
            else and_then (for_loop (count_fragment R ctx meta k start stop)
                [start div FRAGMENT_BYTES..<Suc (stop div FRAGMENT_BYTES)] 0) (\<lambda>count. ret (Integer count)))"
    using assms(2) by (auto simp: bitcount_def cong: if_cong)
  from assms(1) show ?thesis
  proof (cases rule: bitmap_rep_cases [where msg = "''invalid bitmap metadata''" and now = "clock s 0"])
    case gone
    then show ?thesis by (simp add: args kv_run ones_in_def)
  next
    case (live md)
    let ?t = "snd (read_bitmap_meta R ctx k s)"
    have size: "m_size md = of_nat n" "n \<le> 2 ^ 61" "\<forall>p \<ge> n. B p = 0" using live(8) by (simp_all add: bitmap_inv_def)
    then have zero: "m_size md = 0 \<longleftrightarrow> n = 0" by (auto simp: word_of_nat_eq_0_iff dvd_def)
    have inv: "bitmap_inv (view (db ?t)) (namespace ctx) k md n B" using live(8) by simp
    show ?thesis
    proof (cases "n = 0")
      case True
      then show ?thesis using live size(3) zero by (simp add: args kv_run ones_in_def)
    next
      case False
      then have n: "0 < n" by simp
      note norm = normalize_index_clamp [OF n size(2)]
      have run: "for_loop (count_fragment R ctx md k (clamp a n) (clamp b n)) [clamp a n div 1024..<Suc (clamp b n div 1024)] 0 ?t
          = (Inr (of_nat (ones_in B (clamp a n) (Suc (clamp b n)))), ?t)" if "clamp a n \<le> clamp b n"
      proof -
        have "clamp b n < Suc (clamp b n div 1024) * 1024" by (simp add: div_less_iff_less_mult [symmetric])
        moreover have "clamp a n div 1024 \<le> Suc (clamp b n div 1024)" using div_le_mono [OF that] by (simp add: le_SucI)
        ultimately show ?thesis
          using count_fragments [OF inv clamp_less [OF n], of "clamp a n div 1024" "Suc (clamp b n div 1024)" b "clamp a n" 0] that
          by simp
      qed
      show ?thesis
      proof (cases "clamp b n < clamp a n")
        case True
        then show ?thesis
          using live n zero by (simp add: args kv_run size(1) norm ones_in_empty)
      next
        case False
        then have "clamp a n \<le> clamp b n" by simp
        note run' = and_then_Inr [where m = "for_loop _ _ _", OF run [OF this]]
        from False show ?thesis
          using live n zero
          by (simp add: run' args kv_run size(1) norm FRAGMENT_BYTES_def Let_def del: for_loop.simps upt_Suc)
      qed
    qed
  qed
qed

end

section \<open>Combining\<close>

text \<open>
  The result of BITOP, bit by bit: the truth table of the operation of the given name on one bit of
  every source. The size of the result is that of the longest source.
\<close>

definition bitop_bit :: "string \<Rightarrow> bool list \<Rightarrow> bool" where
  "bitop_bit name bs = (if name = ''AND'' then (\<forall>b \<in> set bs. b)
     else if name = ''OR'' then (\<exists>b \<in> set bs. b)
     else if name = ''XOR'' then odd (length (filter id bs))
     else \<not> hd bs)"

text \<open>The byte of the result for the source bytes \<open>bs\<close>.\<close>

definition bitop_byte :: "bit_op \<Rightarrow> u8 list \<Rightarrow> u8" where
  "bitop_byte bop bs = (case bop of
      BitAnd \<Rightarrow> foldl (AND) (hd bs) (tl bs)
    | BitOr \<Rightarrow> foldl (OR) (hd bs) (tl bs)
    | BitXor \<Rightarrow> foldl (XOR) (hd bs) (tl bs)
    | BitNot \<Rightarrow> NOT (hd bs))"

lemma bitop_byte_combine: "bop \<noteq> BitNot \<Longrightarrow> bitop_byte bop bs = foldl (combine bop) (hd bs) (tl bs)"
proof -
  have "combine BitAnd = (AND)" "combine BitOr = (OR)" "combine BitXor = (XOR)" by (simp_all add: combine_def fun_eq_iff)
  then show "bop \<noteq> BitNot \<Longrightarrow> ?thesis" by (cases bop) (simp_all add: bitop_byte_def)
qed

lemma bit_foldl_and: "bit (foldl (AND) (a :: u8) bs) n \<longleftrightarrow> (\<forall>b \<in> set (a # bs). bit b n)"
  by (induction bs arbitrary: a) (auto simp: bit_and_iff)

lemma bit_foldl_or: "bit (foldl (OR) (a :: u8) bs) n \<longleftrightarrow> (\<exists>b \<in> set (a # bs). bit b n)"
  by (induction bs arbitrary: a) (auto simp: bit_or_iff)

lemma bit_foldl_xor: "bit (foldl (XOR) (a :: u8) bs) n \<longleftrightarrow> odd (length (filter (\<lambda>b. bit b n) (a # bs)))"
  by (induction bs arbitrary: a) (auto simp: bit_xor_iff)

lemma bit_bitop_byte:
  assumes "parse_operation opn = Inr bop" and "eq_ignore_ascii_case opn (bytes_of name)"
    and "name \<in> {''AND'', ''OR'', ''XOR'', ''NOT''}" and "bs \<noteq> []" and "n < 8"
  shows "bit (bitop_byte bop bs) n \<longleftrightarrow> bitop_bit name (map (\<lambda>b. bit b n) bs)"
proof -
  obtain b bs' where bs: "bs = b # bs'" using assms(4) by (cases bs) auto
  have "bop = (if name = ''AND'' then BitAnd else if name = ''OR'' then BitOr else if name = ''XOR'' then BitXor else BitNot)"
    using assms(1-3)
    by (auto simp: parse_operation_def eq_ignore_ascii_case_def to_ascii_uppercase_def ascii_upper_def bytes_of_def)
  then show ?thesis
    using assms(3,5) bs
    by (auto simp: bitop_byte_def bitop_bit_def bit_foldl_and bit_foldl_or bit_foldl_xor bit_not_iff filter_map comp_def)
qed

lemma parse_operation_name:
  assumes "eq_ignore_ascii_case opn (bytes_of name)" and "name \<in> {''AND'', ''OR'', ''XOR'', ''NOT''}"
  obtains bop where "parse_operation opn = Inr bop" and "bop = BitNot \<longleftrightarrow> name = ''NOT''"
  using assms
  by (auto simp: parse_operation_def eq_ignore_ascii_case_def to_ascii_uppercase_def ascii_upper_def bytes_of_def)

definition longest :: "(bytes \<Rightarrow> nat) \<Rightarrow> bytes list \<Rightarrow> nat" where
  "longest N ks = fold (\<lambda>k. max (N k)) ks 0"

definition bitop_value :: "bit_op \<Rightarrow> (bytes \<Rightarrow> nat) \<Rightarrow> (bytes \<Rightarrow> nat \<Rightarrow> u8) \<Rightarrow> bytes list \<Rightarrow> nat \<Rightarrow> u8" where
  "bitop_value bop N B ks p = (if p < longest N ks then bitop_byte bop (map (\<lambda>k. B k p) ks) else 0)"

text \<open>The bitmaps of several keys, none of which expires while the command runs.\<close>

definition bitmaps_rep :: "('db \<Rightarrow> string \<Rightarrow> bytes \<rightharpoonup> bytes) \<Rightarrow> bytes \<Rightarrow> ('db, 'x) world_scheme \<Rightarrow> bytes list
    \<Rightarrow> (bytes \<Rightarrow> i64) \<Rightarrow> (bytes \<Rightarrow> nat) \<Rightarrow> (bytes \<Rightarrow> nat \<Rightarrow> u8) \<Rightarrow> bool" where
  "bitmaps_rep view ns s ks E N B \<longleftrightarrow> (\<forall>k \<in> set ks. bitmap_rep (view (db s)) ns k (E k) (N k) (B k)
     \<and> (\<forall>j. \<not> expired_at (E k) (clock s j)))"

lemma bitmaps_rep_later: "bitmaps_rep view ns s ks E N B \<Longrightarrow> later s t \<Longrightarrow> bitmaps_rep view ns t ks E N B"
  by (auto simp: bitmaps_rep_def later_def)

text \<open>What reading the metadata of a source gives.\<close>

definition source_meta :: "(string \<Rightarrow> bytes \<rightharpoonup> bytes) \<Rightarrow> bytes \<Rightarrow> (bytes \<Rightarrow> nat) \<Rightarrow> (bytes \<Rightarrow> nat \<Rightarrow> u8)
    \<Rightarrow> metadata option \<Rightarrow> bytes \<Rightarrow> bool" where
  "source_meta m ns N B r k = (case r of
      None \<Rightarrow> N k = 0 \<and> B k = (\<lambda>_. 0)
    | Some md \<Rightarrow> bitmap_inv m ns k md (N k) (B k))"

lemma fold_max_start: "fold (\<lambda>k. max (N k)) ks (max a b) = max a (fold (\<lambda>k. max (N k)) ks (b :: nat))"
  by (induction ks arbitrary: b) (simp_all add: max.left_commute)

lemma longest_Cons: "longest N (k # ks) = max (N k) (longest N ks)"
  using fold_max_start [of N ks "N k" 0] by (simp add: longest_def)

lemma longest_Nil [simp]: "longest N [] = 0"
  by (simp add: longest_def)

lemma longest_le: "(\<And>k. k \<in> set ks \<Longrightarrow> N k \<le> b) \<Longrightarrow> longest N ks \<le> b"
  by (induction ks) (simp_all add: longest_Cons)

context command_env
begin

lemma read_bitmap_meta_later: "later s (snd (read_bitmap_meta R ctx k s))"
  by (simp add: read_bitmap_meta_def kv_run split: option.split)

lemma bitop_meta_run:
  fixes s :: "('db, 'x) world_scheme"
  assumes "bitmaps_rep view (namespace ctx) s ks E N B" and "k \<in> set ks" and "M \<le> 2 ^ 61"
  shows "\<exists>t r. bitop_meta R ctx k (acc, of_nat M) s = (Inr (acc @ [r], of_nat (max (N k) M)), t) \<and> later s t
    \<and> source_meta (view (db s)) (namespace ctx) N B r k \<and> N k \<le> 2 ^ 61"
proof -
  let ?t = "snd (read_bitmap_meta R ctx k s)"
  have rep: "bitmap_rep (view (db s)) (namespace ctx) k (E k) (N k) (B k)" and ex: "\<not> expired_at (E k) (clock s 0)"
    using assms(1,2) by (auto simp: bitmaps_rep_def)
  from rep show ?thesis
  proof (cases rule: bitmap_rep_cases [where msg = "''invalid bitmap metadata''" and now = "clock s 0"])
    case gone
    with ex show ?thesis
      by (intro exI [of _ ?t] exI [of _ None])
        (simp add: bitop_meta_def kv_run read_bitmap_meta_later source_meta_def unexpired_def)
  next
    case (live md)
    then have size: "m_size md = of_nat (N k)" "N k \<le> 2 ^ 61" by (simp_all add: bitmap_inv_def)
    then have "unat (m_size md) = N k" "unat (of_nat M :: u64) = M" using assms(3) by (simp_all add: unat_of_nat)
    then have "of_nat M < m_size md \<longleftrightarrow> M < N k" by (simp add: word_less_nat_alt)
    with live size show ?thesis
      by (intro exI [of _ ?t] exI [of _ "Some md"])
        (simp add: bitop_meta_def kv_run read_bitmap_meta_later source_meta_def max_def)
  qed
qed

lemma bitop_metas:
  fixes s :: "('db, 'x) world_scheme"
  assumes "bitmaps_rep view (namespace ctx) s ks E N B" and "M \<le> 2 ^ 61"
  shows "\<exists>t ms. for_loop (bitop_meta R ctx) ks (acc, of_nat M) s = (Inr (acc @ ms, of_nat (max M (longest N ks))), t) \<and> later s t
    \<and> list_all2 (source_meta (view (db s)) (namespace ctx) N B) ms ks \<and> longest N ks \<le> 2 ^ 61"
  using assms
proof (induction ks arbitrary: acc M s)
  case Nil
  then show ?case by simp
next
  case (Cons k ks)
  have "k \<in> set (k # ks)" by simp
  from bitop_meta_run [OF Cons.prems(1) this Cons.prems(2), of acc] obtain t r
    where step: "bitop_meta R ctx k (acc, of_nat M) s = (Inr (acc @ [r], of_nat (max (N k) M)), t)" and t: "later s t"
      and r: "source_meta (view (db s)) (namespace ctx) N B r k" and Nk: "N k \<le> 2 ^ 61"
    by blast
  have "bitmaps_rep view (namespace ctx) t ks E N B"
    using bitmaps_rep_later [OF Cons.prems(1) t] by (simp add: bitmaps_rep_def)
  from Cons.IH [OF this, of "max (N k) M" "acc @ [r]"] Nk Cons.prems(2) obtain u ms
    where rest: "for_loop (bitop_meta R ctx) ks (acc @ [r], of_nat (max (N k) M)) t
        = (Inr ((acc @ [r]) @ ms, of_nat (max (max (N k) M) (longest N ks))), u)" and u: "later t u"
      and ms: "list_all2 (source_meta (view (db t)) (namespace ctx) N B) ms ks" "longest N ks \<le> 2 ^ 61"
    by auto
  have "for_loop (bitop_meta R ctx) (k # ks) (acc, of_nat M) s = (Inr (acc @ r # ms, of_nat (max M (longest N (k # ks)))), u)"
    using for_loop_step [where f = "bitop_meta R ctx", OF step, of ks] rest
    by (simp add: longest_Cons max.assoc max.left_commute)
  moreover have "list_all2 (source_meta (view (db s)) (namespace ctx) N B) (r # ms) (k # ks)"
    using ms r t by (simp add: later_def)
  ultimately show ?case
    using later_trans [OF t u] Nk ms(2) by (intro exI [of _ u] exI [of _ "r # ms"]) (simp add: longest_Cons)
qed

text \<open>The bytes of one source in a fragment.\<close>

lemma bitop_source_run:
  fixes s :: "('db, 'x) world_scheme"
  assumes "source_meta (view (db s)) (namespace ctx) N B r k" and "len \<le> 1024" and "i < 2 ^ 51"
  shows "bitop_source R ctx bop (of_nat i) len (r, k) (first, res) s
    = (Inr (False, map (\<lambda>j. if first then B k (i * 1024 + j) else combine bop (res ! j) (B k (i * 1024 + j))) [0..<len]), s)"
proof -
  let ?frag = "case r of Some m \<Rightarrow> frag_at (subkeys_of (view (db s)) CF_SUBKEY (namespace ctx) k (m_version m)) i | None \<Rightarrow> []"
  have read: "(case r of Some m \<Rightarrow> read_fragment R ctx m k (of_nat i) | None \<Rightarrow> ret []) s = (Inr ?frag, s)"
    by (simp add: read_fragment_run split: option.split)
  have "byte_or_zero ?frag j = B k (i * 1024 + j)" if "j < len" for j
  proof (cases r)
    case None
    then show ?thesis using assms(1) by (simp add: source_meta_def byte_or_zero_def)
  next
    case (Some md)
    have "i * 1024 + j < 2 ^ 61" using that assms(2,3) by simp
    with Some assms(1) have "stored_byte (subkeys_of (view (db s)) CF_SUBKEY (namespace ctx) k (m_version md)) (i * 1024 + j) = B k (i * 1024 + j)"
      by (simp add: source_meta_def bitmap_inv_def)
    with Some that assms(2) show ?thesis by (simp add: stored_byte_def)
  qed
  then show ?thesis
    by (simp add: bitop_source_def and_then_Inr [where m = "case r of Some m \<Rightarrow> _ m | None \<Rightarrow> _", OF read])
qed

lemma bitop_sources:
  fixes s :: "('db, 'x) world_scheme"
  assumes "list_all2 (source_meta (view (db s)) (namespace ctx) N B) ms ks" and "len \<le> 1024" and "i < 2 ^ 51"
  shows "for_loop (bitop_source R ctx bop (of_nat i) len) (zip ms ks) (False, map g [0..<len]) s
    = (Inr (False, map (\<lambda>j. foldl (combine bop) (g j) (map (\<lambda>k. B k (i * 1024 + j)) ks)) [0..<len]), s)"
  using assms(1)
proof (induction arbitrary: g rule: list_all2_induct)
  case (Cons r ms k ks)
  note step = bitop_source_run [OF Cons.hyps(1) assms(2,3), of bop False "map g [0..<len]"]
  have "map (\<lambda>j. combine bop (map g [0..<len] ! j) (B k (i * 1024 + j))) [0..<len] = map (\<lambda>j. combine bop (g j) (B k (i * 1024 + j))) [0..<len]"
    by simp
  with Cons.IH for_loop_step [where f = "bitop_source R ctx bop (of_nat i) len", OF step, of "zip ms ks"] show ?case
    by (simp del: for_loop.simps)
qed simp

lemma bitop_result_run:
  fixes s :: "('db, 'x) world_scheme"
  assumes "list_all2 (source_meta (view (db s)) (namespace ctx) N B) ms ks" and "len \<le> 1024" and "i < 2 ^ 51"
    and "ks \<noteq> []" and "bop = BitNot \<longrightarrow> length ks = 1 \<and> 0 < N (hd ks)"
  shows "bitop_result R ctx bop ms ks (of_nat i) len s
    = (Inr (map (\<lambda>j. bitop_byte bop (map (\<lambda>k. B k (i * 1024 + j)) ks)) [0..<len]), s)"
proof -
  obtain r ms' k ks' where ms: "ms = r # ms'" and ks: "ks = k # ks'"
    and r: "source_meta (view (db s)) (namespace ctx) N B r k"
    and rest: "list_all2 (source_meta (view (db s)) (namespace ctx) N B) ms' ks'"
    using assms(1,4) by (cases ks; cases ms) auto
  note first = bitop_source_run [OF r assms(2,3), of bop True "replicate len 0"]
  show ?thesis
  proof (cases "bop = BitNot")
    case True
    then obtain md where md: "r = Some md" using assms(5) r ks by (cases r) (auto simp: source_meta_def)
    have "(if j < length (frag_at S i) then NOT (frag_at S i ! j) else NOT 0) = NOT (byte_or_zero (frag_at S i) j)" for S j
      by (simp add: byte_or_zero_def)
    moreover have "byte_or_zero (frag_at (subkeys_of (view (db s)) CF_SUBKEY (namespace ctx) k (m_version md)) i) j = B k (i * 1024 + j)"
      if "j < len" for j
    proof -
      have "i * 1024 + j < 2 ^ 61" using that assms(2,3) by simp
      with md r have "stored_byte (subkeys_of (view (db s)) CF_SUBKEY (namespace ctx) k (m_version md)) (i * 1024 + j) = B k (i * 1024 + j)"
        by (simp add: source_meta_def bitmap_inv_def)
      with that assms(2) show ?thesis by (simp add: stored_byte_def)
    qed
    ultimately show ?thesis
      using True ms ks md
      by (simp add: bitop_result_def bitop_byte_def and_then_Inr [where m = "read_fragment _ _ _ _ _", OF read_fragment_run])
  next
    case False
    have run: "for_loop (bitop_source R ctx bop (of_nat i) len) (zip ms ks) (True, replicate len 0) s
        = (Inr (False, map (\<lambda>j. bitop_byte bop (map (\<lambda>k. B k (i * 1024 + j)) ks)) [0..<len]), s)"
      unfolding ms ks zip_Cons_Cons for_loop_step [where f = "bitop_source R ctx bop (of_nat i) len", OF first]
      using bitop_sources [OF rest assms(2,3), of bop] False by (simp add: bitop_byte_combine)
    have "bitop_result R ctx bop ms ks (of_nat i) len s = and_then (for_loop (bitop_source R ctx bop (of_nat i) len) (zip ms ks)
        (True, replicate len 0)) (\<lambda>(_, result). ret result) s"
      using False by (cases bop) (simp_all only: bitop_result_def bit_op.case simp_thms)
    then show ?thesis by (simp add: and_then_Inr [where m = "for_loop _ _ _", OF run])
  qed
qed

end

text \<open>Writing a whole bitmap under a version without subkeys.\<close>

definition frag_bytes :: "nat \<Rightarrow> (nat \<Rightarrow> u8) \<Rightarrow> nat \<Rightarrow> bytes" where
  "frag_bytes n W i = map (\<lambda>j. W (i * 1024 + j)) [0..<min 1024 (n - i * 1024)]"

lemma frag_at_fragments:
  assumes "F \<le> 2 ^ 51" and "i < 2 ^ 51"
  shows "frag_at (map_of (rev (map (\<lambda>i. (be64 (of_nat i), g i)) [0..<F]))) i = (if i < F then g i else [])"
proof -
  let ?ps = "rev (map (\<lambda>i. (be64 (of_nat i), g i)) [0..<F])"
  have inj: "(of_nat i :: u64) = of_nat j \<longleftrightarrow> i = j" if "j < F" for j using of_nat_frag_eq [OF assms(2), of j] that assms(1) by simp
  show ?thesis
  proof (cases "i < F")
    case True
    have "inj_on (\<lambda>i. be64 (of_nat i)) {0..<F}"
      by (rule inj_onI) (use assms(1) of_nat_frag_eq in auto)
    then have "distinct (map fst ?ps)" by (simp add: rev_map distinct_map comp_def)
    moreover have "(be64 (of_nat i), g i) \<in> set ?ps" using True by auto
    ultimately have "map_of ?ps (be64 (of_nat i)) = Some (g i)" by (rule map_of_is_SomeI)
    with True show ?thesis by (simp add: frag_at_def)
  next
    case False
    then have "map_of ?ps (be64 (of_nat i)) = None" by (auto simp: map_of_eq_None_iff inj)
    with False show ?thesis by (simp add: frag_at_def)
  qed
qed

lemma bitmap_inv_fragments:
  assumes "subkeys_of m CF_SUBKEY ns k (m_version md) = Map.empty" and "0 < n" and "n \<le> 2 ^ 61" and "\<forall>p \<ge> n. W p = 0"
    and "m_size md = of_nat n"
  shows "bitmap_inv (fold apply_op (map (\<lambda>i. Put CF_SUBKEY (subkey k (m_version md) (be64 (of_nat i)) ns) (frag_bytes n W i))
      [0..<Suc ((n - 1) div 1024)]) m) ns k md n W"
proof -
  let ?F = "Suc ((n - 1) div 1024)"
  let ?S = "map_of (rev (map (\<lambda>i. (be64 (of_nat i), frag_bytes n W i)) [0..<?F]))"
  have S: "subkeys_of (fold apply_op (map (\<lambda>i. Put CF_SUBKEY (subkey k (m_version md) (be64 (of_nat i)) ns) (frag_bytes n W i))
      [0..<?F]) m) CF_SUBKEY ns k (m_version md) = ?S"
    using subkeys_of_puts [of CF_SUBKEY k "m_version md" ns "map (\<lambda>i. (be64 (of_nat i), frag_bytes n W i)) [0..<?F]" m] assms(1)
    by (simp add: comp_def del: upt_Suc)
  have F: "?F \<le> 2 ^ 51" using assms(2,3) by (simp add: Suc_le_eq div_less_iff_less_mult)
  note at = frag_at_fragments [OF F, of _ "frag_bytes n W"]
  have "stored_byte ?S p = W p" if "p < 2 ^ 61" for p
  proof -
    have p: "p div 1024 < 2 ^ 51" using that by (simp add: less_mult_imp_div_less)
    show ?thesis
    proof (cases "p < n")
      case True
      then have "p div 1024 < ?F" by (simp add: less_Suc_eq_le div_le_mono)
      moreover have "p mod 1024 < n - p div 1024 * 1024" using True by (simp add: minus_div_mult_eq_mod [symmetric])
      moreover from \<open>p div 1024 < ?F\<close> have "frag_at ?S (p div 1024) = frag_bytes n W (p div 1024)" by (simp only: at [OF p] if_True)
      ultimately show ?thesis unfolding stored_byte_def by (simp add: byte_or_zero_def frag_bytes_def del: upt_Suc)
    next
      case False
      then have "n - p div 1024 * 1024 \<le> p mod 1024" using div_mult_mod_eq [of p 1024] by linarith
      then have "byte_or_zero (frag_at ?S (p div 1024)) (p mod 1024) = 0"
        unfolding at [OF p] by (simp add: byte_or_zero_def frag_bytes_def)
      then show ?thesis using False assms(4) by (simp add: stored_byte_def del: upt_Suc)
    qed
  qed
  moreover have "length (frag_at ?S i) \<le> 1024" if "i < 2 ^ 51" for i
    unfolding at [OF that] by (simp add: frag_bytes_def)
  ultimately show ?thesis using assms(3-5) unfolding bitmap_inv_def S by blast
qed

context command_env
begin

lemma bitop_fragment_run:
  fixes s :: "('db, 'x) world_scheme"
  assumes "list_all2 (source_meta (view (db s)) (namespace ctx) N B) ms ks" and "longest N ks \<le> 2 ^ 61" and "0 < longest N ks"
    and "bop = BitNot \<longrightarrow> length ks = 1" and "i \<le> (longest N ks - 1) div 1024"
  shows "bitop_fragment R ctx bop ms ks dest ver (of_nat (longest N ks)) i batch s
    = (Inr (batch @ [Put CF_SUBKEY (subkey dest ver (be64 (of_nat i)) (namespace ctx)) (frag_bytes (longest N ks) (bitop_value bop N B ks) i)]), s)"
proof -
  let ?n = "longest N ks"
  let ?len = "min 1024 (?n - i * 1024)"
  have lt: "i * 1024 < ?n" using assms(3,5) by (simp add: less_eq_div_iff_mult_less_eq)
  have i: "i < 2 ^ 51" using lt assms(2) by simp
  have size: "unat (of_nat ?n :: u64) = ?n" using assms(2) by (simp add: unat_of_nat)
  have ks: "ks \<noteq> []" using assms(3) by auto
  have "bop = BitNot \<longrightarrow> length ks = 1 \<and> 0 < N (hd ks)" using assms(3,4) by (cases ks) (auto simp: longest_Cons)
  from bitop_result_run [OF assms(1) _ i ks this, of ?len]
  have run: "bitop_result R ctx bop ms ks (of_nat i) ?len s = (Inr (frag_bytes ?n (bitop_value bop N B ks) i), s)"
    by (auto simp: frag_bytes_def bitop_value_def)
  show ?thesis
    using lt size
    by (simp add: bitop_fragment_def Let_def FRAGMENT_BYTES_def and_then_Inr [where m = "bitop_result _ _ _ _ _ _ _", OF run]
        batch_put_ok sub_key_def)
qed

lemma run_new_version:
  "and_then generate_version f s = f (next_version s) (s\<lparr>clock := \<lambda>i. clock s (Suc i), rng := \<lambda>i. rng s (Suc i)\<rparr>)"
  by (simp add: run_generate_version next_version_def)

lemma next_version_later: "later s t \<Longrightarrow> \<exists>i. next_version t = next_version (s\<lparr>clock := \<lambda>j. clock s (j + i)\<rparr>)"
  by (auto simp: later_def next_version_def)

lemma bitop_rep:
  fixes s :: "('db, 'x) world_scheme"
  assumes "key_wf dest" and "bitmaps_rep view (namespace ctx) s ks E N B" and "ks \<noteq> []" and "parse_operation opn = Inr bop"
    and "bop = BitNot \<longrightarrow> length ks = 1"
    and "\<forall>i. fresh_version (view (db s)) (namespace ctx) dest (next_version (s\<lparr>clock := \<lambda>j. clock s (j + i)\<rparr>))"
  shows "\<exists>t. bitop R ctx (opn # dest # ks) s = (Inr (Integer (of_nat (longest N ks))), t)
    \<and> bitmap_rep (view (db t)) (namespace ctx) dest 0 (longest N ks) (bitop_value bop N B ks)
    \<and> (\<forall>k' ns. key_wf k' \<and> ns_wf ns \<and> k' \<noteq> dest \<longrightarrow> object_view (view (db t)) ns k' = object_view (view (db s)) ns k')"
proof -
  let ?ns = "namespace ctx" and ?n = "longest N ks" and ?W = "bitop_value bop N B ks"
  obtain t ms where metas: "for_loop (bitop_meta R ctx) ks ([], 0) s = (Inr (ms, of_nat ?n), t)" and t: "later s t"
    and ms: "list_all2 (source_meta (view (db s)) ?ns N B) ms ks" and n: "?n \<le> 2 ^ 61"
    using bitop_metas [OF assms(2), of 0 "[]"] by auto
  have db: "db t = db s" using t by (simp add: later_def)
  let ?v = "next_version t"
  let ?t = "t\<lparr>clock := \<lambda>i. clock t (Suc i), rng := \<lambda>i. rng t (Suc i)\<rparr>"
  let ?md = "(metadata_new DT_Bitmap ?v)\<lparr>m_size := of_nat ?n\<rparr>"
  let ?meta = "Put CF_METADATA (metadata_key dest ?ns) (encode_metadata ?md)"
  let ?frags = "if ?n = 0 then [] else map (\<lambda>i. Put CF_SUBKEY (subkey dest ?v (be64 (of_nat i)) ?ns) (frag_bytes ?n ?W i)) [0..<Suc ((?n - 1) div 1024)]"
  have fresh: "subkeys_of (view (db s)) CF_SUBKEY ?ns dest ?v = Map.empty"
    using assms(6) next_version_later [OF t] by (auto simp: fresh_version_def)
  have md: "m_version ?md = ?v" "m_size ?md = of_nat ?n" "m_expire ?md = 0" "metadata_data_type ?md = Some DT_Bitmap" "meta_wf ?md"
    by (simp_all add: metadata_new_def metadata_data_type_def meta_wf_def)
  have ops: "\<forall>op \<in> set (?meta # ?frags). op_of ?ns dest op" by auto
  then have cfs: "\<forall>op \<in> set (?meta # ?frags). op_cf op \<in> set ALL_CFS" using op_of_cf by blast
  have size: "unat (of_nat ?n :: u64) = ?n" using n by (simp add: unat_of_nat)
  have zero: "(of_nat ?n :: u64) = 0 \<longleftrightarrow> ?n = 0" by (rule iffI) (use size in simp_all)
  have loop: "for_loop (bitop_fragment R ctx bop ms ks dest ?v (of_nat ?n)) [0..<Suc ((?n - 1) div 1024)] [?meta] ?t = (Inr (?meta # ?frags), ?t)"
    if "?n \<noteq> 0"
  proof -
    have "list_all2 (source_meta (view (db ?t)) ?ns N B) ms ks" using ms db by simp
    note step = bitop_fragment_run [OF this n, of bop _ dest ?v]
    have "for_loop (bitop_fragment R ctx bop ms ks dest ?v (of_nat ?n)) [0..<Suc ((?n - 1) div 1024)] [?meta] ?t
        = (Inr (fold (\<lambda>i batch. batch @ [Put CF_SUBKEY (subkey dest ?v (be64 (of_nat i)) ?ns) (frag_bytes ?n ?W i)])
            [0..<Suc ((?n - 1) div 1024)] [?meta]), ?t)"
      by (rule for_loop_fold) (rule step, use that assms(5) in auto)
    also have "fold (\<lambda>i batch. batch @ [g i]) xs b = b @ map g xs" for g :: "nat \<Rightarrow> batch_op" and xs b
      by (induction xs arbitrary: b) simp_all
    finally show ?thesis using that by simp
  qed
  have "bitop R ctx (opn # dest # ks) s = (Inr (Integer (of_nat ?n)), write_world R (?meta # ?frags) ?t)"
  proof -
    have "3 \<le> length (opn # dest # ks)" "\<not> (bop = BitNot \<and> length ks \<noteq> 1)" using assms(3,5) by (cases ks; simp)+
    note args = this
    show ?thesis
    proof (cases "?n = 0")
      case True
      have "bitop R ctx (opn # dest # ks) s = (Inr (Integer 0), write_world R [?meta] ?t)"
        using args True run_write [of "[?meta]" "\<lambda>_. ret (Integer 0)" ?t] cfs
        by (simp add: bitop_def run_expect_min_arg_count assms(4) Let_def and_then_Inr [where m = "for_loop (bitop_meta R ctx) ks ([], 0)", OF metas]
            run_generate_version run_batch_put meta_key_def next_version_def)
      with True show ?thesis by simp
    next
      case False
      note run = and_then_Inr [where m = "for_loop (bitop_fragment R ctx bop ms ks dest ?v (of_nat ?n)) _ _", OF loop [OF False]]
      show ?thesis
        using args False zero run_write [OF cfs, of "\<lambda>_. ret (Integer (of_nat ?n))" ?t]
        by (simp add: bitop_def run_expect_min_arg_count assms(4) Let_def and_then_Inr [where m = "for_loop (bitop_meta R ctx) ks ([], 0)", OF metas]
            run_new_version run_batch_put meta_key_def size FRAGMENT_BYTES_def run [unfolded One_nat_def] del: upt_Suc for_loop.simps)
    qed
  qed
  moreover have "bitmap_inv (fold apply_op ?frags (view (db s))) ?ns dest ?md ?n ?W"
  proof (cases "?n = 0")
    case True
    then have "?W = (\<lambda>_. 0)" by (simp add: bitop_value_def fun_eq_iff)
    with True fresh md show ?thesis by (simp add: bitmap_inv_empty)
  next
    case False
    then have "bitmap_inv (fold apply_op (map (\<lambda>i. Put CF_SUBKEY (subkey dest (m_version ?md) (be64 (of_nat i)) ?ns) (frag_bytes ?n ?W i))
        [0..<Suc ((?n - 1) div 1024)]) (view (db s))) ?ns dest ?md ?n ?W"
      using fresh n by (intro bitmap_inv_fragments) (simp_all add: md bitop_value_def)
    with False show ?thesis unfolding md(1) by simp
  qed
  then have "bitmap_rep (fold apply_op (?meta # ?frags) (view (db s))) ?ns dest (m_expire ?md) ?n ?W"
    by (intro bitmap_rep_write [OF namespace_wf assms(1) _ _ md(4,5)]) auto
  moreover have "object_view (fold apply_op (?meta # ?frags) (view (db s))) ns k' = object_view (view (db s)) ns k'"
    if "key_wf k'" "ns_wf ns" "k' \<noteq> dest" for k' ns
    by (rule object_view_batch [OF ops namespace_wf assms(1) that])
  ultimately show ?thesis
    using md(3) db write_world_db(2) [OF cfs, of ?t] by (intro exI [of _ "write_world R (?meta # ?frags) ?t"]) (simp del: fold.simps)
qed

end

section \<open>Properties\<close>

text \<open>A store with the bitmaps \<open>5, 1\<close> and \<open>6\<close>, written as bytes.\<close>

definition sample_bitmaps :: mem where
  "sample_bitmaps =
    [((CF_METADATA, metadata_key (bytes_of ''b'') []), encode_metadata ((metadata_new DT_Bitmap 9)\<lparr>m_size := 2\<rparr>)),
     ((CF_METADATA, metadata_key (bytes_of ''c'') []), encode_metadata ((metadata_new DT_Bitmap 9)\<lparr>m_size := 1\<rparr>)),
     ((CF_SUBKEY, subkey (bytes_of ''b'') 9 (be64 0) []), [5, 1]),
     ((CF_SUBKEY, subkey (bytes_of ''c'') 9 (be64 0) []), [6])]"

lemma bitmap_inv_one_fragment:
  assumes "subkeys_of m CF_SUBKEY ns k (m_version md) = [be64 0 \<mapsto> frag]" and "m_size md = of_nat n" and "length frag = n" and "n \<le> 1024"
  shows "bitmap_inv m ns k md n (byte_or_zero frag)"
proof -
  have at: "frag_at [be64 0 \<mapsto> frag] i = (if i = 0 then frag else [])" if "i < 2 ^ 51" for i
    using of_nat_frag_eq [of i 0] that by (simp add: frag_at_def)
  have "stored_byte [be64 0 \<mapsto> frag] p = byte_or_zero frag p" if "p < 2 ^ 61" for p
  proof -
    have "p div 1024 < 2 ^ 51" using that by (simp add: less_mult_imp_div_less)
    from at [OF this] show ?thesis
      using assms(3,4) by (auto simp: stored_byte_def byte_or_zero_def div_eq_0_iff)
  qed
  with assms at show ?thesis by (simp add: bitmap_inv_def) (auto simp: byte_or_zero_def)
qed

lemma sample_bitmaps_rep:
  "bitmap_rep (mem_view sample_bitmaps) [] (bytes_of ''b'') 0 2 (byte_or_zero [5, 1])"
  "bitmap_rep (mem_view sample_bitmaps) [] (bytes_of ''c'') 0 1 (byte_or_zero [6])"
  "lookup_meta (mem_view sample_bitmaps) [] (bytes_of ''b'') \<noteq> None"
proof -
  let ?b = "(metadata_new DT_Bitmap 9)\<lparr>m_size := 2\<rparr>" and ?c = "(metadata_new DT_Bitmap 9)\<lparr>m_size := 1\<rparr>"
  have meta: "lookup_meta (mem_view sample_bitmaps) [] (bytes_of ''b'') = Some (encode_metadata ?b)"
    "lookup_meta (mem_view sample_bitmaps) [] (bytes_of ''c'') = Some (encode_metadata ?c)"
    by (simp_all add: lookup_meta_def mem_view_def sample_bitmaps_def metadata_key_def)
  have "subkeys_of (mem_view sample_bitmaps) CF_SUBKEY [] (bytes_of ''b'') (m_version ?b) = [be64 0 \<mapsto> [5, 1]]"
    "subkeys_of (mem_view sample_bitmaps) CF_SUBKEY [] (bytes_of ''c'') (m_version ?c) = [be64 0 \<mapsto> [6]]"
    by (auto simp: subkeys_of_def mem_view_def sample_bitmaps_def subkey_def metadata_key_def fun_eq_iff)
  then have inv: "bitmap_inv (mem_view sample_bitmaps) [] (bytes_of ''b'') ?b 2 (byte_or_zero [5, 1])"
    "bitmap_inv (mem_view sample_bitmaps) [] (bytes_of ''c'') ?c 1 (byte_or_zero [6])"
    by (auto intro!: bitmap_inv_one_fragment)
  from meta(1) inv(1) show "bitmap_rep (mem_view sample_bitmaps) [] (bytes_of ''b'') 0 2 (byte_or_zero [5, 1])"
    by (auto simp: bitmap_rep_def typed_rep_def meta_wf_def metadata_data_type_def intro!: exI [of _ ?b])
  from meta(2) inv(2) show "bitmap_rep (mem_view sample_bitmaps) [] (bytes_of ''c'') 0 1 (byte_or_zero [6])"
    by (auto simp: bitmap_rep_def typed_rep_def meta_wf_def metadata_data_type_def intro!: exI [of _ ?c])
  show "lookup_meta (mem_view sample_bitmaps) [] (bytes_of ''b'') \<noteq> None" using meta by simp
qed

text \<open>C37: SETBIT changes one bit of a bitmap. For a key that represents the bytes \<open>B\<close>, every 64-bit
  offset and both bit values, the reply is the bit that was there; afterwards the key represents a
  bitmap that has the new bit at the offset and the old one everywhere else, with a size that covers
  the offset, so that GETBIT replies these bits; an expired bitmap counts as empty, and every other
  key is as before. A bitmap that starts anew must get a version under which no subkeys are left.\<close>

theorem setbit_refines:
  fixes s :: "('db, 'x) world_scheme"
  assumes "command_env R view ctx" and "key_wf k" and "bitmap_rep (view (db s)) (namespace ctx) k e n B"
    and "parse_offset off = Inr offset" and "parse_bit v = Inr b"
    and "lookup_meta (view (db s)) (namespace ctx) k = None \<or> expired_at e (clock s 0) \<longrightarrow>
      fresh_version (view (db s)) (namespace ctx) k (next_version (snd (read_bitmap_meta R ctx k s)))"
    and "B0 = unexpired e (clock s 0) (\<lambda>_. 0) B" and "s2 = snd (setbit R ctx [k, off, v] s)"
  shows "fst (setbit R ctx [k, off, v] s) = Inr (Integer (of_bool (bit_of B0 offset)))
    \<and> (\<exists>B2. bitmap_rep (view (db s2)) (namespace ctx) k (unexpired e (clock s 0) 0 e)
              (max (unexpired e (clock s 0) 0 n) (unat offset div 8 + 1)) B2
          \<and> (\<forall>o'. bit_of B2 o' = (if o' = offset then b = 1 else bit_of B0 o')))
    \<and> (\<forall>k' ns. key_wf k' \<and> ns_wf ns \<and> k' \<noteq> k \<longrightarrow> object_view (view (db s2)) ns k' = object_view (view (db s)) ns k')"
  using command_env.setbit_rep [OF assms(1-6)] assms(7,8) by (auto simp: bit_of_store_bit intro!: exI [of _ "store_bit B0 offset b"])

lemma sample_offsets:
  "parse_offset (bytes_of ''9'') = Inr 9" "parse_bit (bytes_of ''1'') = Inr 1" "parse_i64 (bytes_of ''-1'') = Inr (- 1)"
  by (simp_all add: parse_offset_def str_parse_u64_def parse_unsigned_def parse_nat_def bytes_of_def parse_bit_def
      parse_i64_def str_parse_i64_def)

theorem setbit_refines_witness:
  "fst (setbit mem_store (tenant_context []) [bytes_of ''b'', bytes_of ''9'', bytes_of ''1''] (mem_world sample_bitmaps)) = Inr (Integer 0)"
  using setbit_refines [OF mem_env.command_env_axioms [of "[]"], of "bytes_of ''b''" "mem_world sample_bitmaps" 0 2 "byte_or_zero [5, 1]"
      "bytes_of ''9''" 9 "bytes_of ''1''" 1 "byte_or_zero [5, 1]"] sample_bitmaps_rep sample_offsets
  by (simp add: key_wf_def mem_world_def bit_of_def byte_or_zero_def)

text \<open>C38: The reading commands of a key that represents the bytes \<open>B\<close> with size \<open>n\<close>: GETBIT replies the
  bit at any 64-bit offset, also behind the end; BITCOUNT replies the number of ones in the bytes from
  start to stop, both included, for all 64-bit positions and any number of fragments. Negative
  positions count from the end, and both positions are clamped into the value: a start behind the
  end counts the last byte.\<close>

theorem bitmap_reads:
  fixes s :: "('db, 'x) world_scheme"
  assumes "command_env R view ctx" and "bitmap_rep (view (db s)) (namespace ctx) k e n B"
    and "parse_offset off = Inr offset" and "parse_i64 x = Inr a" and "parse_i64 y = Inr b"
    and "B0 = unexpired e (clock s 0) (\<lambda>_. 0) B"
  shows "fst (getbit R ctx [k, off] s) = Inr (Integer (of_bool (bit_of B0 offset)))
    \<and> fst (bitcount R ctx [k, x, y] s) = Inr (Integer (of_nat (\<Sum>p = clamp a n..clamp b n. count_ones (B0 p))))
    \<and> fst (bitcount R ctx [k] s) = Inr (Integer (of_nat (\<Sum>p < n. count_ones (B0 p))))"
proof -
  have "fst (bitcount R ctx [k] s) = Inr (Integer (of_nat (ones_in B0 (clamp 0 n) (Suc (clamp (- 1) n)))))"
    unfolding assms(6) by (rule command_env.bitcount_rep [OF assms(1,2)]) simp
  moreover have "ones_in B0 (clamp 0 n) (Suc (clamp (- 1) n)) = (\<Sum>p < n. count_ones (B0 p))"
  proof (cases "n = 0")
    case True
    then have "B0 0 = 0"
      using assms(2,6) by (auto simp: bitmap_rep_def typed_rep_def bitmap_inv_def unexpired_def split: option.splits)
    with True show ?thesis by (simp add: ones_in_def clamp_def)
  next
    case False
    then have "clamp 0 n = 0" "Suc (clamp (- 1) n) = n" by (auto simp: clamp_def)
    then show ?thesis by (simp add: ones_in_def lessThan_atLeast0)
  qed
  moreover have "fst (bitcount R ctx [k, x, y] s) = Inr (Integer (of_nat (ones_in B0 (clamp a n) (Suc (clamp b n)))))"
    unfolding assms(6) by (rule command_env.bitcount_rep [OF assms(1,2)]) (simp add: assms(4,5))
  ultimately show ?thesis
    using command_env.getbit_rep [OF assms(1-3)] assms(6) by (simp add: ones_in_def atLeastLessThanSuc_atLeastAtMost del: of_nat_sum)
qed

lemma sample_count: "(\<Sum>p < (2 :: nat). count_ones (byte_or_zero [5, 1] p)) = 3"
  by (simp add: numeral_2_eq_2 byte_or_zero_def count_ones_def upt_rec)

theorem bitmap_reads_witness:
  "fst (getbit mem_store (tenant_context []) [bytes_of ''b'', bytes_of ''9''] (mem_world sample_bitmaps)) = Inr (Integer 0)
   \<and> fst (bitcount mem_store (tenant_context []) [bytes_of ''b''] (mem_world sample_bitmaps)) = Inr (Integer 3)"
  using bitmap_reads [OF mem_env.command_env_axioms [of "[]"], of "mem_world sample_bitmaps" "bytes_of ''b''" 0 2 "byte_or_zero [5, 1]"
      "bytes_of ''9''" 9 "bytes_of ''-1''" "-1" "bytes_of ''-1''" "-1" "byte_or_zero [5, 1]"] sample_bitmaps_rep sample_offsets
  by (simp add: mem_world_def bit_of_def sample_count del: of_nat_sum) (simp add: byte_or_zero_def)

text \<open>C39: BITOP combines bitmaps bit by bit. For the operation AND, OR, XOR or NOT, in any case, NOT with
  one source, and source keys that represent bitmaps and do not expire while the command runs, the reply
  is the size of the longest source; afterwards the destination, which may be one of the sources,
  represents a bitmap of that size in which each bit is the conjunction, disjunction, exclusive or, or
  negation of the bits of the sources at that place, with zeroes where a source is shorter or missing.
  It has no deadline, and every other key is as before. Reading the sources never panics. The keys are
  below \<open>2 ^ 24\<close> bytes, and the version drawn for the destination has no subkeys left.\<close>

theorem bitop_refines:
  fixes s :: "('db, 'x) world_scheme"
  assumes "command_env R view ctx" and "key_wf dest" and "bitmaps_rep view (namespace ctx) s ks E N B" and "ks \<noteq> []"
    and "eq_ignore_ascii_case opn (bytes_of name)" and "name \<in> {''AND'', ''OR'', ''XOR'', ''NOT''}"
    and "name = ''NOT'' \<longrightarrow> length ks = 1"
    and "\<forall>i. fresh_version (view (db s)) (namespace ctx) dest (next_version (s\<lparr>clock := \<lambda>j. clock s (j + i)\<rparr>))"
    and "s2 = snd (bitop R ctx (opn # dest # ks) s)"
  shows "fst (bitop R ctx (opn # dest # ks) s) = Inr (Integer (of_nat (longest N ks)))
    \<and> (\<exists>W. bitmap_rep (view (db s2)) (namespace ctx) dest 0 (longest N ks) W
         \<and> (\<forall>p < longest N ks. \<forall>n < 8. bit (W p) n \<longleftrightarrow> bitop_bit name (map (\<lambda>k. bit (B k p) n) ks)))
    \<and> (\<forall>k' ns. key_wf k' \<and> ns_wf ns \<and> k' \<noteq> dest \<longrightarrow> object_view (view (db s2)) ns k' = object_view (view (db s)) ns k')"
proof -
  obtain bop where bop: "parse_operation opn = Inr bop" "bop = BitNot \<longleftrightarrow> name = ''NOT''"
    using parse_operation_name [OF assms(5,6)] .
  have "bit (bitop_value bop N B ks p) n \<longleftrightarrow> bitop_bit name (map (\<lambda>k. bit (B k p) n) ks)" if "p < longest N ks" "n < 8" for p n
    using bit_bitop_byte [OF bop(1) assms(5,6), of "map (\<lambda>k. B k p) ks" n] that assms(4)
    by (simp add: bitop_value_def comp_def)
  moreover have "bop = BitNot \<longrightarrow> length ks = 1" using bop(2) assms(7) by simp
  ultimately show ?thesis
    using command_env.bitop_rep [OF assms(1-4) bop(1) _ assms(8)] assms(9) by auto
qed

theorem bitop_refines_witness:
  "fst (bitop mem_store (tenant_context []) [bytes_of ''and'', bytes_of ''b'', bytes_of ''b'', bytes_of ''c''] (mem_world sample_bitmaps))
     = Inr (Integer 2)
   \<and> (\<exists>W. bitmap_rep (mem_view (db (snd (bitop mem_store (tenant_context []) [bytes_of ''and'', bytes_of ''b'', bytes_of ''b'', bytes_of ''c''] (mem_world sample_bitmaps)))))
       [] (bytes_of ''b'') 0 2 W \<and> bit (W 0) 2 \<and> \<not> bit (W 0) 1 \<and> \<not> bit (W 1) 0)"
proof -
  let ?B = "\<lambda>k. if k = bytes_of ''b'' then byte_or_zero [5, 1] else byte_or_zero [6]" and ?N = "\<lambda>k. if k = bytes_of ''b'' then 2 else 1"
  have "bitmaps_rep mem_view (namespace (tenant_context [])) (mem_world sample_bitmaps) [bytes_of ''b'', bytes_of ''c''] (\<lambda>_. 0) ?N ?B"
    using sample_bitmaps_rep by (simp add: bitmaps_rep_def mem_world_def)
  moreover have "eq_ignore_ascii_case (bytes_of ''and'') (bytes_of ''AND'')"
    by (simp add: eq_ignore_ascii_case_def to_ascii_uppercase_def ascii_upper_def bytes_of_def)
  moreover have "fresh_version (mem_view sample_bitmaps) [] (bytes_of ''b'') (next_version (mem_world sample_bitmaps))"
    by (auto simp: fresh_version_def subkeys_of_def mem_view_def sample_bitmaps_def next_version_def mem_world_def subkey_def metadata_key_def fun_eq_iff)
  moreover have "longest ?N [bytes_of ''b'', bytes_of ''c''] = 2" by (simp add: longest_Cons)
  moreover have "bitop_bit ''AND'' (map (\<lambda>k. bit (?B k 0) 2) [bytes_of ''b'', bytes_of ''c''])"
      "\<not> bitop_bit ''AND'' (map (\<lambda>k. bit (?B k 0) 1) [bytes_of ''b'', bytes_of ''c''])"
      "\<not> bitop_bit ''AND'' (map (\<lambda>k. bit (?B k 1) 0) [bytes_of ''b'', bytes_of ''c''])"
    by (simp_all add: bitop_bit_def byte_or_zero_def bit_numeral_rec numeral_2_eq_2)
  ultimately show ?thesis
    using bitop_refines [OF mem_env.command_env_axioms [of "[]"], of "bytes_of ''b''" "mem_world sample_bitmaps" "[bytes_of ''b'', bytes_of ''c'']"
        "\<lambda>_. 0" ?N ?B "bytes_of ''and''" "''AND''", OF _ _ _ _ _ _ _ refl]
    by (auto simp: key_wf_def mem_world_def)
qed

end
