(* ===== verification/Spec2Isabelle.thy ===== *)
theory Spec2Isabelle
  imports Cmd_String Cmd_Hash Cmd_Set Cmd_List Resp_Protocol Kv_Config Kv_Cluster Kv_PubSub Kv_Services Cmd_Services Thread_Pool Kv_Server Cmd_Bitmap
begin

text \<open>
  A verification of kvdb, a key-value store that speaks the Redis protocol and keeps its data in RocksDB.

  \<^bold>\<open>The program.\<close> A connection (\<open>src/src/server.rs\<close>) reads bytes, frames commands with the RESP
  parser (\<open>src/src/protocol.rs\<close>), looks the command up in the table (\<open>src/src/cmd/mod.rs\<close>) and runs its
  handler. The handlers of \<open>src/src/cmd/\<close> keep the objects of the users in the column families of the
  storage engine (\<open>src/src/storage.rs\<close>): a metadata value per user key, and for hashes, sets, lists, sorted
  sets and streams one subkey per element. Keys and values are laid out by \<open>src/src/encoding.rs\<close> and
  \<open>src/src/types.rs\<close>. The shared services are the configuration (\<open>src/src/config.rs\<close>), the replication
  state (\<open>src/src/replication.rs\<close>), the cluster state (\<open>src/src/cluster.rs\<close>) and the publish/subscribe
  hub (\<open>src/src/pubsub.rs\<close>).

  \<^bold>\<open>The theories.\<close>
  \<^item> \<open>Kv_Prelude\<close> (lists, bytes, lexicographic keys), \<open>Rust_Std\<close> (integers and strings of the Rust standard
    library), \<open>Rust_F64\<close> (64-bit floats as bit patterns: comparison, rounding, decimal text);
  \<^item> \<open>Kv_Monad\<close>: the errors of \<open>src/src/error.rs\<close>, the world a handler runs in, and the monad of stateful
    computations that may fail, panic or diverge;
  \<^item> \<open>Kv_Encoding\<close>: flags, metadata, keys and string values;
  \<^item> \<open>Kv_Storage\<close>: the storage engine over RocksDB, which is the parameter \<open>R\<close>; what the program relies on
    is the locale \<open>rocksdb_contract\<close>, and \<open>Mem_Store\<close> interprets it on a store in memory;
  \<^item> \<open>Cmd_Context\<close>: replies, the command context with its metadata lookup, the table and the dispatcher;
  \<^item> \<open>Kv_Object\<close>: what the types with subkeys have in common, the representation \<open>typed_rep\<close> of an object
    by its metadata and its subkeys;
  \<^item> \<open>Cmd_String\<close>, \<open>Cmd_Hash\<close>, \<open>Cmd_Set\<close>, \<open>Cmd_List\<close>, \<open>Cmd_Bitmap\<close>: the handlers of the data types;
  \<^item> \<open>Kv_Config\<close>, \<open>Kv_Cluster\<close>, \<open>Kv_PubSub\<close>, \<open>Kv_Services\<close>, \<open>Cmd_Services\<close>: the shared services and the
    commands on them (\<open>src/src/cmd/admin.rs\<close>, \<open>src/src/cmd/cluster.rs\<close>, \<open>src/src/cmd/pubsub.rs\<close>);
  \<^item> \<open>Resp_Protocol\<close>: the parser and the serializer;
  \<^item> \<open>Thread_Pool\<close>: the pool of \<open>src/src/thread_pool.rs\<close> as a step relation on channel, mutex and workers;
  \<^item> \<open>Kv_Server\<close>: the loop of a connection, its transactions, and the pool as a connection sees it.

  \<^bold>\<open>State and operations.\<close> The world is a record with the database, the readings the clock will return and
  the numbers the random generator will return; \<open>Kv_Services\<close> extends it by the services. A handler
  \<open>fn(&CommandContext, &[Bytes]) -> KvdbResult<RespValue>\<close> is a function of the context and the arguments
  into the monad, with the name of the Rust function; loops over lists are \<open>for_loop\<close> and \<open>for_each\<close>, loops
  without a bound are \<open>kv_loop\<close>, whose divergence is a value. The body of every loop is a definition of its
  own. An error keeps the writes made before it. Integers have the width of the source and wrap around as
  in a release build; \<open>usize\<close> is a natural number where it counts things in memory. A vector reserved for
  a number of elements the client or the caller chooses panics beyond \<open>isize::MAX\<close> bytes (the pages of the
  storage engine, the aggregates of the parser); every other allocation, made for data that is already
  there, is taken to succeed. A command runs in one step: while one runs no other does (\<open>Thread_Pool\<close>).

  \<^bold>\<open>What is shown.\<close> The format: keys and values are read back as written, and the prefix of an object
  covers nothing else as long as keys of the default namespace are below \<open>2 ^ 24\<close> bytes. The store: paging
  equals one scan, prefix deletion ends and is exact, for page sizes that can be reserved. Each data
  type: the handlers implement the operations on the abstract value (a map, a set, a list, an array of bits)
  that the stored subkeys represent, with the replies of Redis, keep the size in the metadata right, leave other
  keys alone and never panic or diverge. The protocol: round trip, framing of a stream however it is cut.
  The services: what is delivered, counted and reported, and that a configuration in force is always
  valid. The server: a transaction runs its commands in order or not at all,
  and after a command that panics none of the later ones; the pool runs one job at a time. Where the code departs from its comments, theorems state what it does: old-format keys survive
  DEL, duplicate fields are counted twice, hashes ignore their deadline, negative sizes crash the parser, the
  memory check wraps around and measures with a memory 1024 times too large, EXPIRE wraps around for huge
  times, HSCAN panics for huge counts, an error text with a line break is cut, and long keys of the default
  namespace can meet those of a tenant.

  \<^bold>\<open>Bounds and fuel.\<close> The RESP parser recurses on nested messages with the length of the data as fuel, and
  \<open>parse_value_fuel\<close> shows that more changes nothing. \<open>kv_loop\<close> has no fuel: it is the limit of all finite
  runs, so a theorem that gives its result shows that the loop ends. The connection handles the commands in
  its buffer with one more than the bytes there as fuel; every command takes at least one
  (\<open>process_fuel\<close>). User keys are shorter than \<open>2 ^ 24\<close> bytes (\<open>key_wf\<close>): their length field would allow
  \<open>2 ^ 32\<close>, but longer keys of the default namespace can be taken for keys of a named one
  (\<open>subkey_collision\<close>). The program does not enforce this, so \<open>key_wf\<close> is a hypothesis wherever the
  separation of keys is used. Namespaces have at most 255 bytes, which the configuration checks.

  \<^bold>\<open>Not modelled.\<close> Sorted sets and streams (\<open>src/src/cmd/zset.rs\<close>, \<open>src/src/cmd/stream.rs\<close>). The Lua engine
  (\<open>src/src/lua.rs\<close>, \<open>src/src/cmd/lua.rs\<close>) runs scripts in the mlua interpreter; the HTTP endpoint, the
  listener that accepts connections, the command line and the entry points call axum, tokio and clap and
  hold no logic of their own, and the benchmark is not part of the server. Opening, repairing and
  compacting the database are calls of RocksDB.
\<close>

end
